(* ===== verification/Prelude.thy ===== *)
theory Prelude
  imports Main "HOL-Library.Word"
begin

text \<open>
  Shared foundations of the development: the outcome of a Go call (a value, an error or a
  panic), the state-and-error computations built from it, a small Hoare logic for them, and
  the generic facts on maps and finite sets that the component theories use.
\<close>

section \<open>Outcomes and stateful Go calls\<close>

text \<open>
  A Go function that returns \<open>(T, error)\<close> either returns a value with a nil error, returns a
  non-nil error, or panics. A method on a mutable object is a function of the object's state
  that gives the outcome and the new state; a returned error keeps the state changes made
  before it, exactly as in the source.
\<close>

datatype ('e, 'a) outcome = Ret 'a | Fail 'e | Panic string

type_synonym ('s, 'e, 'a) go = "'s \<Rightarrow> ('e, 'a) outcome \<times> 's"

type_synonym int64 = "64 word"

definition ret :: "'a \<Rightarrow> ('s, 'e, 'a) go" where
  "ret x s = (Ret x, s)"

definition fail :: "'e \<Rightarrow> ('s, 'e, 'a) go" where
  "fail e s = (Fail e, s)"

definition gopanic :: "string \<Rightarrow> ('s, 'e, 'a) go" where
  "gopanic msg s = (Panic msg, s)"

definition gets :: "('s \<Rightarrow> 'a) \<Rightarrow> ('s, 'e, 'a) go" where
  "gets f s = (Ret (f s), s)"

definition modify :: "('s \<Rightarrow> 's) \<Rightarrow> ('s, 'e, unit) go" where
  "modify f s = (Ret (), f s)"

text \<open>Sequencing: \<open>if x, err := m(); err != nil { return err }\<close> followed by the rest.\<close>

definition seq :: "('s, 'e, 'a) go \<Rightarrow> ('a \<Rightarrow> ('s, 'e, 'b) go) \<Rightarrow> ('s, 'e, 'b) go" where
  "seq m f s = (case m s of
      (Ret x, s') \<Rightarrow> f x s'
    | (Fail e, s') \<Rightarrow> (Fail e, s')
    | (Panic p, s') \<Rightarrow> (Panic p, s'))"

text \<open>
  Go's \<open>defer func() { if err != nil { cleanup } }()\<close>: the clean-up runs after a failed body,
  its own error is dropped, its panic is not.
\<close>

definition defer_err :: "('s, 'e, 'c) go \<Rightarrow> ('s, 'e, 'a) go \<Rightarrow> ('s, 'e, 'a) go" where
  "defer_err cleanup m s = (case m s of
      (Fail e, s') \<Rightarrow> (case cleanup s' of
          (Panic p, s'') \<Rightarrow> (Panic p, s'')
        | (_, s'') \<Rightarrow> (Fail e, s''))
    | r \<Rightarrow> r)"

text \<open>
  The same with the source's habit of setting the deferred \<open>err\<close> while returning a nil error:
  the body returns its value and whether \<open>err\<close> is set, and the clean-up runs if it is.
\<close>

definition defer_set :: "('s, 'e, 'c) go \<Rightarrow> ('s, 'e, 'a \<times> bool) go \<Rightarrow> ('s, 'e, 'a \<times> bool) go" where
  "defer_set cleanup m s = (case m s of
      (Fail e, s') \<Rightarrow> (case cleanup s' of
          (Panic p, s'') \<Rightarrow> (Panic p, s'')
        | (_, s'') \<Rightarrow> (Fail e, s''))
    | (Ret (x, errset), s') \<Rightarrow>
        (if errset
         then (case cleanup s' of
             (Panic p, s'') \<Rightarrow> (Panic p, s'')
           | (_, s'') \<Rightarrow> (Ret (x, errset), s''))
         else (Ret (x, errset), s'))
    | (Panic p, s') \<Rightarrow> (Panic p, s'))"

text \<open>A call whose error is only logged, or dropped.\<close>

definition ignore_err :: "('s, 'e, 'a) go \<Rightarrow> ('s, 'e, unit) go" where
  "ignore_err m s = (case m s of
      (Ret x, s') \<Rightarrow> (Ret (), s')
    | (Fail e, s') \<Rightarrow> (Ret (), s')
    | (Panic p, s') \<Rightarrow> (Panic p, s'))"

lemmas go_defs = ret_def fail_def gopanic_def gets_def modify_def seq_def defer_err_def
  defer_set_def ignore_err_def

lemma seq_ret [simp]: "seq (ret x) f = f x"
  by (rule ext) (simp add: seq_def ret_def)

lemma seq_fail [simp]: "seq (fail e) f = fail e"
  by (rule ext) (simp add: seq_def fail_def)

lemma seq_assoc: "seq (seq m f) g = seq m (\<lambda>x. seq (f x) g)"
  by (rule ext) (simp add: seq_def split: prod.split outcome.split)

lemma seq_Ret_iff: "seq m f s = (Ret y, t) \<longleftrightarrow> (\<exists>x u. m s = (Ret x, u) \<and> f x u = (Ret y, t))"
  by (auto simp: seq_def split: prod.split outcome.split)

lemma seq_pure:
  assumes "\<And>s. snd (m s) = s" and "\<And>x s. snd (f x s) = s"
  shows "snd (seq m f s) = s"
  using assms(1) [of s] assms(2) by (cases "m s") (simp add: seq_def split: outcome.split)

lemma seq_cong [fundef_cong]:
  "m = m' \<Longrightarrow> s = s' \<Longrightarrow> (\<And>x t. m' s' = (Ret x, t) \<Longrightarrow> f x t = g x t) \<Longrightarrow> seq m f s = seq m' g s'"
  by (simp add: seq_def split: prod.split outcome.split)

section \<open>A Hoare logic for Go calls\<close>

text \<open>
  \<open>triple P m Q E\<close>: started in a state that satisfies \<open>P\<close>, the call does not panic, a
  returned value and the final state satisfy \<open>Q\<close>, a returned error and the final state
  satisfy \<open>E\<close>.
\<close>

definition triple ::
  "('s \<Rightarrow> bool) \<Rightarrow> ('s, 'e, 'a) go \<Rightarrow> ('a \<Rightarrow> 's \<Rightarrow> bool) \<Rightarrow> ('e \<Rightarrow> 's \<Rightarrow> bool) \<Rightarrow> bool" where
  "triple P m Q E \<longleftrightarrow> (\<forall>s. P s \<longrightarrow>
     (\<exists>x s'. m s = (Ret x, s') \<and> Q x s') \<or> (\<exists>e s'. m s = (Fail e, s') \<and> E e s'))"

named_theorems hoare \<open>Hoare triples of the component operations\<close>

lemma triple_Ret: "triple P m Q E \<Longrightarrow> P s \<Longrightarrow> m s = (Ret x, s') \<Longrightarrow> Q x s'"
  by (fastforce simp: triple_def)

lemma triple_Fail: "triple P m Q E \<Longrightarrow> P s \<Longrightarrow> m s = (Fail e, s') \<Longrightarrow> E e s'"
  by (fastforce simp: triple_def)

lemma triple_no_Panic: "triple P m Q E \<Longrightarrow> P s \<Longrightarrow> m s \<noteq> (Panic p, s')"
  by (fastforce simp: triple_def)

lemma triple_cases:
  assumes "triple P m Q E" and "P s"
  obtains (Ret) x s' where "m s = (Ret x, s')" and "Q x s'"
  | (Fail) e s' where "m s = (Fail e, s')" and "E e s'"
  using assms by (fastforce simp: triple_def)

lemma triple_weaken:
  assumes "triple P' m Q' E'"
    and "\<And>s. P s \<Longrightarrow> P' s"
    and "\<And>x s. Q' x s \<Longrightarrow> Q x s"
    and "\<And>e s. E' e s \<Longrightarrow> E e s"
  shows "triple P m Q E"
  using assms unfolding triple_def by blast

lemma triple_pre: "triple P' m Q E \<Longrightarrow> (\<And>s. P s \<Longrightarrow> P' s) \<Longrightarrow> triple P m Q E"
  by (rule triple_weaken)

lemma triple_vacuous: "(\<And>s. \<not> P s) \<Longrightarrow> triple P m Q E"
  by (simp add: triple_def)

lemma triple_ret [hoare]: "(\<And>s. P s \<Longrightarrow> Q x s) \<Longrightarrow> triple P (ret x) Q E"
  by (simp add: triple_def ret_def)

lemma triple_fail [hoare]: "(\<And>s. P s \<Longrightarrow> E e s) \<Longrightarrow> triple P (fail e) Q E"
  by (simp add: triple_def fail_def)

lemma triple_modify: "(\<And>s. P s \<Longrightarrow> Q () (f s)) \<Longrightarrow> triple P (modify f) Q E"
  by (simp add: triple_def modify_def)

lemma triple_seq:
  assumes "triple P m R E" and "\<And>x. triple (R x) (f x) Q E"
  shows "triple P (seq m f) Q E"
  unfolding triple_def
proof (intro allI impI)
  fix s assume "P s"
  with assms(1) show "(\<exists>y t. seq m f s = (Ret y, t) \<and> Q y t) \<or> (\<exists>e t. seq m f s = (Fail e, t) \<and> E e t)"
  proof (cases rule: triple_cases)
    case (Ret x s')
    then show ?thesis using assms(2) [of x] by (auto simp: triple_def seq_def)
  qed (simp add: seq_def)
qed

lemma triple_gets:
  assumes "\<And>x. triple (\<lambda>s. P s \<and> f s = x) (g x) Q E"
  shows "triple P (seq (gets f) g) Q E"
  using assms by (simp add: triple_def seq_def gets_def)

lemma triple_if [hoare]:
  "(b \<Longrightarrow> triple P m Q E) \<Longrightarrow> (\<not> b \<Longrightarrow> triple P n Q E) \<Longrightarrow> triple P (if b then m else n) Q E"
  by simp

lemma triple_option [hoare]:
  "(x = None \<Longrightarrow> triple P m Q E) \<Longrightarrow> (\<And>y. x = Some y \<Longrightarrow> triple P (f y) Q E) \<Longrightarrow>
   triple P (case x of None \<Rightarrow> m | Some y \<Rightarrow> f y) Q E"
  by (cases x) auto

lemma triple_defer_err:
  assumes "triple P m Q E'" and "\<And>e. triple (E' e) c (\<lambda>_. E e) (\<lambda>_. E e)"
  shows "triple P (defer_err c m) Q E"
  unfolding triple_def
proof (intro allI impI)
  fix s assume "P s"
  with assms(1) show "(\<exists>y t. defer_err c m s = (Ret y, t) \<and> Q y t) \<or>
      (\<exists>e t. defer_err c m s = (Fail e, t) \<and> E e t)"
  proof (cases rule: triple_cases)
    case (Fail e s')
    from assms(2) [of e] \<open>E' e s'\<close> show ?thesis
      by (cases rule: triple_cases) (simp_all add: defer_err_def Fail)
  qed (simp add: defer_err_def)
qed

lemma triple_defer_set:
  assumes "triple P m Q' E'" and "\<And>e. triple (E' e) c (\<lambda>_. E e) (\<lambda>_. E e)"
    and "\<And>x. triple (Q' (x, True)) c (\<lambda>_. Q (x, True)) (\<lambda>_. Q (x, True))"
    and "\<And>x s. Q' (x, False) s \<Longrightarrow> Q (x, False) s"
  shows "triple P (defer_set c m) Q E"
  unfolding triple_def
proof (intro allI impI)
  fix s assume "P s"
  with assms(1) show "(\<exists>y t. defer_set c m s = (Ret y, t) \<and> Q y t) \<or>
      (\<exists>e t. defer_set c m s = (Fail e, t) \<and> E e t)"
  proof (cases rule: triple_cases)
    case (Ret r s')
    show ?thesis
    proof (cases r)
      case (Pair x errset)
      show ?thesis
      proof (cases errset)
        case True
        with Ret Pair have "Q' (x, True) s'" by simp
        with assms(3) show ?thesis
          by (cases rule: triple_cases) (simp_all add: defer_set_def Ret Pair True)
      next
        case False
        then show ?thesis using Ret Pair assms(4) by (simp add: defer_set_def)
      qed
    qed
  next
    case (Fail e s')
    from assms(2) [of e] \<open>E' e s'\<close> show ?thesis
      by (cases rule: triple_cases) (simp_all add: defer_set_def Fail)
  qed
qed

lemma triple_ignore_err:
  assumes "triple P m (\<lambda>_. Q ()) (\<lambda>_. Q ())"
  shows "triple P (ignore_err m) Q E"
  unfolding triple_def
proof (intro allI impI)
  fix s assume "P s"
  with assms show "(\<exists>y t. ignore_err m s = (Ret y, t) \<and> Q y t) \<or>
      (\<exists>e t. ignore_err m s = (Fail e, t) \<and> E e t)"
    by (cases rule: triple_cases) (simp_all add: ignore_err_def)
qed

lemma triple_conj:
  assumes "triple P m Q E" and "triple P' m Q' E'"
  shows "triple (\<lambda>s. P s \<and> P' s) m (\<lambda>x s. Q x s \<and> Q' x s) (\<lambda>e s. E e s \<and> E' e s)"
  using assms unfolding triple_def by fastforce

lemma triple_Ret_conj:
  assumes "triple P m Q E" and "\<And>s x t. P s \<Longrightarrow> m s = (Ret x, t) \<Longrightarrow> R x t"
  shows "triple P m (\<lambda>x s. Q x s \<and> R x s) E"
  using assms unfolding triple_def by fastforce

section \<open>Calls into a backend\<close>

text \<open>
  A component that is reached only through a Go interface (a storage driver, a metadata
  backend) is a state of its own and operations on it that return a value or an error message.
\<close>

type_synonym ('b, 'a) backend = "'b \<Rightarrow> (string + 'a) \<times> 'b"

definition call :: "('s \<Rightarrow> 'b) \<Rightarrow> ('b \<Rightarrow> 's \<Rightarrow> 's) \<Rightarrow> (string \<Rightarrow> 'e) \<Rightarrow> ('b, 'a) backend \<Rightarrow> ('s, 'e, 'a) go" where
  "call getb putb err f s = (case f (getb s) of
      (Inl msg, b') \<Rightarrow> (Fail (err msg), putb b' s)
    | (Inr x, b') \<Rightarrow> (Ret x, putb b' s))"

lemma triple_call:
  assumes "\<And>s b. P s \<Longrightarrow> I (putb b s)"
  shows "triple P (call getb putb err f) (\<lambda>_. I) (\<lambda>_. I)"
  using assms by (auto simp: triple_def call_def split: prod.split sum.split)

section \<open>Maps\<close>

lemma finite_ran_dom: "finite (dom m) \<Longrightarrow> finite (ran m)"
  by (simp add: dom_def finite_ran)

lemma ran_delete_subset: "ran (m(k := None)) \<subseteq> ran m"
  by (auto simp: ran_def split: if_splits)

section \<open>What every run keeps\<close>

text \<open>
  \<open>ens I m R\<close>: however the call ends, a panic included, it keeps \<open>I\<close>, and a returned value
  satisfies \<open>R\<close>.
\<close>

definition ens :: "('s \<Rightarrow> bool) \<Rightarrow> ('s, 'e, 'a) go \<Rightarrow> ('a \<Rightarrow> bool) \<Rightarrow> bool" where
  "ens I m R \<longleftrightarrow> (\<forall>s. I s \<longrightarrow> I (snd (m s)) \<and> (\<forall>x. fst (m s) = Ret x \<longrightarrow> R x))"

named_theorems ens_intros

lemma ensI: "(\<And>s r t. I s \<Longrightarrow> m s = (r, t) \<Longrightarrow> I t \<and> (\<forall>x. r = Ret x \<longrightarrow> R x)) \<Longrightarrow> ens I m R"
  unfolding ens_def by (metis prod.collapse)

lemma ensD: "ens I m R \<Longrightarrow> I s \<Longrightarrow> m s = (r, t) \<Longrightarrow> I t \<and> (\<forall>x. r = Ret x \<longrightarrow> R x)"
  by (auto simp: ens_def)

lemma ens_ret [ens_intros]: "R x \<Longrightarrow> ens I (ret x) R"
  by (simp add: ens_def ret_def)

lemma ens_fail [ens_intros]: "ens I (fail e) R"
  by (simp add: ens_def fail_def)

lemma ens_gopanic [ens_intros]: "ens I (gopanic e) R"
  by (simp add: ens_def gopanic_def)

lemma ens_gets: "(\<And>s. I s \<Longrightarrow> R (f s)) \<Longrightarrow> ens I (gets f) R"
  by (simp add: ens_def gets_def)

lemma ens_modify: "(\<And>s. I s \<Longrightarrow> I (f s)) \<Longrightarrow> R () \<Longrightarrow> ens I (modify f) R"
  by (simp add: ens_def modify_def)

lemma ens_seq:
  assumes m: "ens I m R'" and f: "\<And>x. R' x \<Longrightarrow> ens I (f x) R"
  shows "ens I (seq m f) R"
proof (rule ensI)
  fix s r t assume s: "I s" and r: "seq m f s = (r, t)"
  show "I t \<and> (\<forall>x. r = Ret x \<longrightarrow> R x)"
  proof (cases "m s")
    case (Pair q u)
    with ensD [OF m s] r show ?thesis
      by (cases q) (auto simp: seq_def dest: ensD [OF f, rotated])
  qed
qed

lemma ens_weaken: "ens I m R' \<Longrightarrow> (\<And>x. R' x \<Longrightarrow> R x) \<Longrightarrow> ens I m R"
  by (simp add: ens_def)

lemma ens_if [ens_intros]: "(b \<Longrightarrow> ens I m R) \<Longrightarrow> (\<not> b \<Longrightarrow> ens I n R) \<Longrightarrow> ens I (if b then m else n) R"
  by simp

lemma ens_option [ens_intros]:
  "(x = None \<Longrightarrow> ens I m R) \<Longrightarrow> (\<And>y. x = Some y \<Longrightarrow> ens I (f y) R) \<Longrightarrow>
   ens I (case x of None \<Rightarrow> m | Some y \<Rightarrow> f y) R"
  by (cases x) simp_all

lemma ens_prod [ens_intros]: "(\<And>a b. x = (a, b) \<Longrightarrow> ens I (f a b) R) \<Longrightarrow> ens I (case x of (a, b) \<Rightarrow> f a b) R"
  by (cases x) simp

lemma ens_ignore_err: "ens I m (\<lambda>_. True) \<Longrightarrow> R () \<Longrightarrow> ens I (ignore_err m) R"
  by (rule ensI) (auto simp: ignore_err_def split: prod.splits outcome.splits if_splits dest: ensD)

lemma ens_defer_err: "ens I c (\<lambda>_. True) \<Longrightarrow> ens I m R \<Longrightarrow> ens I (defer_err c m) R"
  by (rule ensI) (auto simp: defer_err_def split: prod.splits outcome.splits if_splits dest: ensD)

lemma ens_defer_set: "ens I c (\<lambda>_. True) \<Longrightarrow> ens I m R \<Longrightarrow> ens I (defer_set c m) R"
  by (rule ensI) (auto simp: defer_set_def split: prod.splits outcome.splits if_splits dest: ensD)

lemma ens_call: "(\<And>s b. I s \<Longrightarrow> I (putb b s)) \<Longrightarrow> (\<And>x. R x) \<Longrightarrow> ens I (call getb putb err f) R"
  by (auto simp: ens_def call_def split: prod.split sum.split)

section \<open>Calls on a part of the state, and loops\<close>

definition zoom :: "('s \<Rightarrow> 'b) \<Rightarrow> ('b \<Rightarrow> 's \<Rightarrow> 's) \<Rightarrow> ('e \<Rightarrow> 'f) \<Rightarrow> ('b, 'e, 'a) go \<Rightarrow> ('s, 'f, 'a) go" where
  "zoom getb putb err m s = (case m (getb s) of
      (Ret x, b) \<Rightarrow> (Ret x, putb b s)
    | (Fail e, b) \<Rightarrow> (Fail (err e), putb b s)
    | (Panic p, b) \<Rightarrow> (Panic p, putb b s))"

text \<open>A call whose error is looked at and not returned.\<close>

definition tryGo :: "('s, 'e, 'a) go \<Rightarrow> ('s, 'e, 'e + 'a) go" where
  "tryGo m s = (case m s of
      (Ret x, t) \<Rightarrow> (Ret (Inr x), t)
    | (Fail e, t) \<Rightarrow> (Ret (Inl e), t)
    | (Panic p, t) \<Rightarrow> (Panic p, t))"

text \<open>Laws that move the handling of an error outwards.\<close>

lemma seq_rest: "(\<And>x. f x = g x) \<Longrightarrow> seq m f = seq m g"
  by (rule arg_cong [of f g]) (rule ext)

lemma tryGo_seq: "seq (tryGo (seq m f)) g = seq (tryGo m) (\<lambda>x. case x of Inl e \<Rightarrow> g (Inl e) | Inr y \<Rightarrow> seq (tryGo (f y)) g)"
  by (rule ext) (simp add: seq_def tryGo_def split: prod.split outcome.split)

lemma tryGo_simps: "tryGo (ret x) = ret (Inr x)" "tryGo (fail e) = ret (Inl e)" "tryGo (if b then m else n) = (if b then tryGo m else tryGo n)"
  by (rule ext, simp add: tryGo_def ret_def fail_def)+

definition no_fail :: "('s, 'e, 'a) go \<Rightarrow> bool" where
  "no_fail m \<longleftrightarrow> (\<forall>s e t. m s \<noteq> (Fail e, t))"

lemma no_fail_simps: "no_fail (ret x)" "no_fail (ignore_err m)" "no_fail m \<Longrightarrow> (\<And>x. no_fail (f x)) \<Longrightarrow> no_fail (seq m f)"
  by (auto simp: no_fail_def ret_def ignore_err_def seq_def split: prod.splits outcome.splits)

lemma tryGo_no_fail: "no_fail m \<Longrightarrow> seq (tryGo m) f = seq m (\<lambda>x. f (Inr x))"
  by (rule ext) (auto simp: no_fail_def seq_def tryGo_def split: prod.split outcome.split)

lemma tryGo_defer_set:
  assumes "no_fail c"
  shows "seq (tryGo (defer_set c m)) g = seq (tryGo m) (\<lambda>x. case x of
      Inl e \<Rightarrow> seq c (\<lambda>_. g (Inl e)) | Inr (y, errset) \<Rightarrow> if errset then seq c (\<lambda>_. g (Inr (y, errset))) else g (Inr (y, errset)))"
  using assms by (intro ext) (auto simp: no_fail_def seq_def tryGo_def defer_set_def split: prod.split outcome.split)

lemma tryGo_defer_err:
  assumes "no_fail c"
  shows "seq (tryGo (defer_err c m)) g = seq (tryGo m) (\<lambda>x. case x of Inl e \<Rightarrow> seq c (\<lambda>_. g (Inl e)) | Inr y \<Rightarrow> g (Inr y))"
  using assms by (intro ext) (auto simp: no_fail_def seq_def tryGo_def defer_err_def split: prod.split outcome.split)

lemma triple_tryGo:
  assumes "triple P m (\<lambda>x. Q (Inr x)) (\<lambda>e. Q (Inl e))"
  shows "triple P (tryGo m) Q E"
  unfolding triple_def
proof (intro allI impI)
  fix s assume "P s"
  with assms show "(\<exists>y t. tryGo m s = (Ret y, t) \<and> Q y t) \<or> (\<exists>e t. tryGo m s = (Fail e, t) \<and> E e t)"
    by (cases rule: triple_cases) (simp_all add: tryGo_def)
qed

lemma triple_ens:
  assumes "triple P m Q E" and "ens I m R"
  shows "triple (\<lambda>s. P s \<and> I s) m (\<lambda>x s. Q x s \<and> I s \<and> R x) (\<lambda>e s. E e s \<and> I s)"
  using assms unfolding triple_def ens_def by fastforce

lemma ens_tryGo: "ens I m (\<lambda>x. R (Inr x)) \<Longrightarrow> (\<And>e. R (Inl e)) \<Longrightarrow> ens I (tryGo m) R"
  by (rule ensI) (auto simp: tryGo_def split: prod.splits outcome.splits dest: ensD)

fun forEach :: "'a list \<Rightarrow> ('a \<Rightarrow> ('s, 'e, unit) go) \<Rightarrow> ('s, 'e, unit) go" where
  "forEach [] f = ret ()"
| "forEach (x # xs) f = seq (f x) (\<lambda>_. forEach xs f)"

text \<open>
  \<open>ends P m Q E\<close>: a call started in \<open>P\<close> that returns a value ends in \<open>Q\<close>; one that returns an error
  or panics ends in \<open>E\<close>.
\<close>

definition ends :: "('s \<Rightarrow> bool) \<Rightarrow> ('s, 'e, 'a) go \<Rightarrow> ('a \<Rightarrow> 's \<Rightarrow> bool) \<Rightarrow> ('s \<Rightarrow> bool) \<Rightarrow> bool" where
  "ends P m Q E \<longleftrightarrow> (\<forall>s r t. P s \<longrightarrow> m s = (r, t) \<longrightarrow> (case r of Ret x \<Rightarrow> Q x t | _ \<Rightarrow> E t))"

named_theorems ends_intros

lemma endsI: "(\<And>s r t. P s \<Longrightarrow> m s = (r, t) \<Longrightarrow> (case r of Ret x \<Rightarrow> Q x t | _ \<Rightarrow> E t)) \<Longrightarrow> ends P m Q E"
  by (simp add: ends_def)

lemma endsD: "ends P m Q E \<Longrightarrow> P s \<Longrightarrow> m s = (r, t) \<Longrightarrow> (case r of Ret x \<Rightarrow> Q x t | _ \<Rightarrow> E t)"
  by (simp add: ends_def)

lemma ends_always: "ends P m (\<lambda>_. I) I \<Longrightarrow> P s \<Longrightarrow> I (snd (m s))"
  by (cases "m s", cases "fst (m s)") (fastforce simp: ends_def)+

lemma ends_weaken:
  "ends P' m Q' E' \<Longrightarrow> (\<And>s. P s \<Longrightarrow> P' s) \<Longrightarrow> (\<And>x s. Q' x s \<Longrightarrow> Q x s) \<Longrightarrow> (\<And>s. E' s \<Longrightarrow> E s) \<Longrightarrow> ends P m Q E"
  by (simp add: ends_def split: outcome.splits) blast

lemma ends_ret [ends_intros]: "(\<And>s. P s \<Longrightarrow> Q x s) \<Longrightarrow> ends P (ret x) Q E"
  by (simp add: ends_def ret_def)

lemma ends_fail [ends_intros]: "(\<And>s. P s \<Longrightarrow> E s) \<Longrightarrow> ends P (fail e) Q E"
  by (simp add: ends_def fail_def)

lemma ends_gopanic [ends_intros]: "(\<And>s. P s \<Longrightarrow> E s) \<Longrightarrow> ends P (gopanic e) Q E"
  by (simp add: ends_def gopanic_def)

lemma ends_modify: "(\<And>s. P s \<Longrightarrow> Q () (f s)) \<Longrightarrow> ends P (modify f) Q E"
  by (simp add: ends_def modify_def)

lemma ends_seq:
  assumes m: "ends P m R E" and f: "\<And>x. ends (R x) (f x) Q E"
  shows "ends P (seq m f) Q E"
proof (rule endsI)
  fix s r t assume s: "P s" and r: "seq m f s = (r, t)"
  obtain q u where q: "m s = (q, u)" by (metis surj_pair)
  from endsD [OF m s q] r show "case r of Ret x \<Rightarrow> Q x t | _ \<Rightarrow> E t"
    by (cases q) (auto simp: seq_def q dest: endsD [OF f])
qed

lemma ends_gets [ends_intros]: "(\<And>x. ends (\<lambda>s. P s \<and> f s = x) (g x) Q E) \<Longrightarrow> ends P (seq (gets f) g) Q E"
  by (simp add: ends_def seq_def gets_def)

lemma ends_if [ends_intros]: "(b \<Longrightarrow> ends P m Q E) \<Longrightarrow> (\<not> b \<Longrightarrow> ends P n Q E) \<Longrightarrow> ends P (if b then m else n) Q E"
  by simp

lemma ends_option [ends_intros]:
  "(x = None \<Longrightarrow> ends P m Q E) \<Longrightarrow> (\<And>y. x = Some y \<Longrightarrow> ends P (f y) Q E) \<Longrightarrow>
   ends P (case x of None \<Rightarrow> m | Some y \<Rightarrow> f y) Q E"
  by (cases x) simp_all

lemma ends_sum [ends_intros]:
  "(\<And>y. x = Inl y \<Longrightarrow> ends P (f y) Q E) \<Longrightarrow> (\<And>y. x = Inr y \<Longrightarrow> ends P (g y) Q E) \<Longrightarrow>
   ends P (case x of Inl y \<Rightarrow> f y | Inr y \<Rightarrow> g y) Q E"
  by (cases x) simp_all

lemma ends_zoom:
  assumes "\<And>s r b. P s \<Longrightarrow> m (getb s) = (r, b) \<Longrightarrow> (case r of Ret x \<Rightarrow> Q x (putb b s) | _ \<Rightarrow> E (putb b s))"
  shows "ends P (zoom getb putb err m) Q E"
  by (rule endsI) (auto simp: zoom_def split: prod.splits outcome.splits dest!: assms)

lemma ends_tryGo: "ends P m (\<lambda>x. Q (Inr x)) E \<Longrightarrow> (\<And>s e. E s \<Longrightarrow> Q (Inl e) s) \<Longrightarrow> ends P (tryGo m) Q E"
  by (rule endsI) (auto simp: tryGo_def split: prod.splits outcome.splits dest!: endsD)

lemma ends_ignore_err: "ends P m (\<lambda>_. Q ()) E \<Longrightarrow> (\<And>s. E s \<Longrightarrow> Q () s) \<Longrightarrow> ends P (ignore_err m) Q E"
  by (rule endsI) (auto simp: ignore_err_def split: prod.splits outcome.splits dest!: endsD)

lemma ends_forEach: "(\<And>x. x \<in> set xs \<Longrightarrow> ends I (f x) (\<lambda>_. I) E) \<Longrightarrow> ends I (forEach xs f) (\<lambda>_. I) E"
  by (induction xs) (auto intro!: ends_ret ends_seq [of I _ "\<lambda>_. I"])

lemma ends_conj:
  "ends P m Q E \<Longrightarrow> ends P' m Q' E' \<Longrightarrow> ends (\<lambda>s. P s \<and> P' s) m (\<lambda>x s. Q x s \<and> Q' x s) (\<lambda>s. E s \<and> E' s)"
  by (rule endsI) (auto dest!: endsD split: outcome.splits)

lemma ends_const: "(G \<Longrightarrow> ends P m Q E) \<Longrightarrow> ends (\<lambda>s. P s \<and> G) m (\<lambda>x s. Q x s \<and> G) E"
  by (cases G) (simp_all, simp add: ends_def)

lemma modify_modify: "seq (modify f) (\<lambda>_. seq (modify g) h) = seq (modify (\<lambda>s. g (f s))) h"
  by (rule ext) (simp add: go_defs)

lemma ends_any: "ends P m (\<lambda>_. I) I \<Longrightarrow> P s \<Longrightarrow> m s = (r, t) \<Longrightarrow> I t"
  using ends_always by fastforce

lemma triple_any: "triple P m (\<lambda>_. I) (\<lambda>_. I) \<Longrightarrow> P s \<Longrightarrow> m s = (r, t) \<Longrightarrow> I t"
  by (fastforce simp: triple_def)

section \<open>Services: sequences of calls on one object\<close>

fun runOps :: "('o \<Rightarrow> ('s, 'e, 'r) go) \<Rightarrow> 'o list \<Rightarrow> 's \<Rightarrow> ('e, 'r) outcome list \<times> 's" where
  "runOps step [] s = ([], s)"
| "runOps step (op # ops) s =
     (let (r, s') = step op s; (rs, t) = runOps step ops s' in (r # rs, t))"

lemma runOps_append:
  "runOps step (xs @ ys) s = (let (rs, t) = runOps step xs s; (rs', u) = runOps step ys t in (rs @ rs', u))"
  by (induction xs arbitrary: s) (simp_all add: Let_def split_beta)

fun is_Panic :: "('e, 'a) outcome \<Rightarrow> bool" where
  "is_Panic (Panic _) = True"
| "is_Panic _ = False"

lemma triple_keepI:
  assumes "\<And>s. P s \<Longrightarrow> \<not> is_Panic (fst (m s)) \<and> I (snd (m s))"
  shows "triple P m (\<lambda>_. I) (\<lambda>_. I)"
  unfolding triple_def
proof (intro allI impI)
  fix s assume "P s"
  from assms [OF this] show "(\<exists>x s'. m s = (Ret x, s') \<and> I s') \<or> (\<exists>e s'. m s = (Fail e, s') \<and> I s')"
    by (cases "m s"; cases "fst (m s)") auto
qed

text \<open>The contract of an object whose methods never panic and keep an invariant.\<close>

locale go_service =
  fixes step :: "'o \<Rightarrow> ('s, 'e, 'r) go" and inv :: "'s \<Rightarrow> bool"
  assumes step_inv: "triple inv (step op) (\<lambda>_. inv) (\<lambda>_. inv)"
begin

lemma step_ok: "inv s \<Longrightarrow> inv (snd (step op s)) \<and> \<not> is_Panic (fst (step op s))"
  using step_inv [of op] by (fastforce simp: triple_def)

lemma run_ok: "inv s \<Longrightarrow> inv (snd (runOps step ops s)) \<and> (\<forall>r\<in>set (fst (runOps step ops s)). \<not> is_Panic r)"
proof (induction ops arbitrary: s)
  case (Cons op ops)
  then show ?case using step_ok [OF Cons.prems, of op] by (cases "step op s") (auto simp: split_beta Let_def)
qed simp

lemmas run_inv = run_ok [THEN conjunct1] and run_no_panic = run_ok [THEN conjunct2]

end

text \<open>The contract of an object whose methods keep a property even if they panic.\<close>

locale go_keeps =
  fixes step :: "'o \<Rightarrow> ('s, 'e, 'r) go" and inv :: "'s \<Rightarrow> bool"
  assumes step_keeps: "ens inv (step op) (\<lambda>_. True)"
begin

lemma run_keeps: "inv s \<Longrightarrow> inv (snd (runOps step ops s))"
proof (induction ops arbitrary: s)
  case (Cons op ops)
  then show ?case using ensD [OF step_keeps [of op] Cons.prems] by (cases "step op s") (simp add: split_beta Let_def)
qed simp

end

sublocale go_service \<subseteq> go_keeps
  using step_ok by unfold_locales (simp add: ens_def)

end
