(* ===== verification/LayerStore.thy ===== *)
theory LayerStore
  imports Prelude
begin

text \<open>
  The layer store of \<^verbatim>\<open>layer/layer_store.go\<close>, \<^verbatim>\<open>layer/ro_layer.go\<close> and
  \<^verbatim>\<open>layer/mounted_layer.go\<close>: the content-addressed read-only layers with their reference
  counts, the writable mounts on top of them, and the operations of the \<open>layer.Store\<close> interface.

  The fields of a \<open>roLayer\<close> other than its reference count and its reference set are written
  before the layer is published and never afterwards, so a layer is an immutable value that
  carries its identity (\<open>ro_addr\<close>) and its parent; the two mutable fields live in the store,
  indexed by that identity. The graph driver, the metadata store, the digest function and the
  tar stream splitter are parameters, collected in the record \<open>lenv\<close>.
\<close>

section \<open>Data\<close>

type_synonym addr = nat

record Descriptor =
  d_MediaType :: string
  d_Size :: int64
  d_Digest :: string
  d_URLs :: "string list"

definition emptyDescriptor :: Descriptor where
  "emptyDescriptor = \<lparr>d_MediaType = '''', d_Size = 0, d_Digest = '''', d_URLs = []\<rparr>"

datatype roLayer = RoLayer
  (ro_addr: addr) (ro_chainID: string) (ro_diffID: string) (ro_cacheID: string)
  (ro_size: int64) (ro_descriptor: Descriptor) (ro_parent: "roLayer option")

record mountedLayer =
  ml_name :: string
  ml_mountID :: string
  ml_initID :: string
  ml_parent :: "roLayer option"
  ml_references :: "nat set"

text \<open>What a caller holds: a \<open>referencedCacheLayer\<close> or a \<open>referencedRWLayer\<close>.\<close>

datatype layerRef = LayerRef (lr_id: nat) (lr_layer: roLayer)

datatype rwRef = RWRef (rw_id: nat) (rw_name: string) (rw_mountID: string)

record Metadata =
  m_ChainID :: string
  m_DiffID :: string
  m_Size :: int64
  m_DiffSize :: int64

datatype layer_err =
    ErrLayerDoesNotExist | ErrLayerNotRetained | ErrMountDoesNotExist | ErrMountNameConflict
  | ErrMaxDepthExceeded | ErrBackend string

record ('d, 'm) layerStore =
  ls_store :: 'm
  ls_driver :: 'd
  ls_layerMap :: "string \<rightharpoonup> roLayer"
  ls_mounts :: "string \<rightharpoonup> mountedLayer"
  ls_refCount :: "addr \<Rightarrow> nat"
  ls_refs :: "addr \<Rightarrow> nat set"
  ls_next :: nat

text \<open>
  The interfaces the store calls: \<open>graphdriver.Driver\<close>, \<open>MetadataStore\<close> and
  \<open>MetadataTransaction\<close>, and the functions \<open>digest.FromBytes\<close> and \<open>asm.NewInputTarStream\<close>. The writes to
  the writer that \<open>TarSplitWriter\<close> returns and its \<open>Close\<close> are one call with all the data:
  \<open>asm_Packed\<close> is what the packer has written at the end of a stream, \<open>asm_Partial\<close> what it has
  written when the driver gives up.
\<close>

record ('d, 'm, 't) lenv =
  drv_Create :: "string \<Rightarrow> string \<Rightarrow> string \<Rightarrow> (string \<rightharpoonup> string) \<Rightarrow> ('d, unit) backend"
  drv_CreateReadWrite :: "string \<Rightarrow> string \<Rightarrow> string \<Rightarrow> (string \<rightharpoonup> string) \<Rightarrow> ('d, unit) backend"
  drv_Remove :: "string \<Rightarrow> ('d, unit) backend"
  drv_Get :: "string \<Rightarrow> string \<Rightarrow> ('d, string) backend"
  drv_Put :: "string \<Rightarrow> ('d, unit) backend"
  drv_ApplyDiff :: "string \<Rightarrow> string \<Rightarrow> string \<Rightarrow> ('d, int64) backend"
  md_StartTransaction :: "('m, 't) backend"
  tx_TarSplitWriter :: "'t \<Rightarrow> bool \<Rightarrow> ('m, 't \<times> bool) backend"
  tsw_Close :: "'t \<times> bool \<Rightarrow> string \<Rightarrow> ('m, unit) backend"
  tx_SetDiffID :: "'t \<Rightarrow> string \<Rightarrow> ('m, unit) backend"
  tx_SetSize :: "'t \<Rightarrow> int64 \<Rightarrow> ('m, unit) backend"
  tx_SetCacheID :: "'t \<Rightarrow> string \<Rightarrow> ('m, unit) backend"
  tx_SetDescriptor :: "'t \<Rightarrow> Descriptor \<Rightarrow> ('m, unit) backend"
  tx_SetParent :: "'t \<Rightarrow> string \<Rightarrow> ('m, unit) backend"
  tx_Commit :: "'t \<Rightarrow> string \<Rightarrow> ('m, unit) backend"
  tx_Cancel :: "'t \<Rightarrow> ('m, unit) backend"
  md_GetDiffID :: "string \<Rightarrow> ('m, string) backend"
  md_GetSize :: "string \<Rightarrow> ('m, int64) backend"
  md_GetCacheID :: "string \<Rightarrow> ('m, string) backend"
  md_GetParent :: "string \<Rightarrow> ('m, string) backend"
  md_GetDescriptor :: "string \<Rightarrow> ('m, Descriptor) backend"
  md_SetMountID :: "string \<Rightarrow> string \<Rightarrow> ('m, unit) backend"
  md_SetInitID :: "string \<Rightarrow> string \<Rightarrow> ('m, unit) backend"
  md_SetMountParent :: "string \<Rightarrow> string \<Rightarrow> ('m, unit) backend"
  md_GetMountID :: "string \<Rightarrow> ('m, string) backend"
  md_GetInitID :: "string \<Rightarrow> ('m, string) backend"
  md_GetMountParent :: "string \<Rightarrow> ('m, string) backend"
  md_List :: "('m, string list \<times> string list) backend"
  md_Remove :: "string \<Rightarrow> ('m, unit) backend"
  md_RemoveMount :: "string \<Rightarrow> ('m, unit) backend"
  digest_FromBytes :: "string \<Rightarrow> string"
  asm_NewInputTarStream :: "string \<Rightarrow> string option"
  asm_Packed :: "string \<Rightarrow> string"
  asm_Partial :: "string \<Rightarrow> string"

type_synonym ('d, 'm, 'a) lsM = "(('d, 'm) layerStore, layer_err, 'a) go"

definition on_driver :: "('d, 'a) backend \<Rightarrow> ('d, 'm, 'a) lsM" where
  "on_driver = call ls_driver (\<lambda>d ls. ls\<lparr>ls_driver := d\<rparr>) ErrBackend"

definition on_store :: "('m, 'a) backend \<Rightarrow> ('d, 'm, 'a) lsM" where
  "on_store = call ls_store (\<lambda>m ls. ls\<lparr>ls_store := m\<rparr>) ErrBackend"

section \<open>Read-only layers\<close>

definition maxLayerDepth :: nat where
  "maxLayerDepth = 125"

fun depth :: "roLayer \<Rightarrow> nat" where
  "depth (RoLayer a c d k sz desc None) = 1"
| "depth (RoLayer a c d k sz desc (Some p)) = depth p + 1"

text \<open>The size of the chain, in the 64-bit arithmetic of the source.\<close>

fun Size :: "roLayer \<Rightarrow> int64" where
  "Size (RoLayer a c d k sz desc None) = 0 + sz"
| "Size (RoLayer a c d k sz desc (Some p)) = Size p + sz"

fun createChainIDFromParent :: "(string \<Rightarrow> string) \<Rightarrow> string \<Rightarrow> string list \<Rightarrow> string" where
  "createChainIDFromParent h parent [] = parent"
| "createChainIDFromParent h parent (dgst # dgsts) =
     (if parent = '''' then createChainIDFromParent h dgst dgsts
      else createChainIDFromParent h (h (parent @ '' '' @ dgst)) dgsts)"

definition CreateChainID :: "(string \<Rightarrow> string) \<Rightarrow> string list \<Rightarrow> string" where
  "CreateChainID h dgsts = createChainIDFromParent h '''' dgsts"

definition getReference :: "roLayer \<Rightarrow> ('d, 'm, layerRef) lsM" where
  "getReference rl =
     seq (gets ls_next) (\<lambda>n.
     seq (modify (\<lambda>ls. ls\<lparr>ls_next := Suc n,
            ls_refs := (ls_refs ls)(ro_addr rl := insert n (ls_refs ls (ro_addr rl)))\<rparr>)) (\<lambda>_.
     ret (LayerRef n rl)))"

definition hasReference :: "roLayer \<Rightarrow> layerRef \<Rightarrow> ('d, 'm) layerStore \<Rightarrow> bool" where
  "hasReference rl ref ls \<longleftrightarrow> lr_id ref \<in> ls_refs ls (ro_addr rl)"

definition hasReferences :: "roLayer \<Rightarrow> ('d, 'm) layerStore \<Rightarrow> bool" where
  "hasReferences rl ls \<longleftrightarrow> ls_refs ls (ro_addr rl) \<noteq> {}"

definition deleteReference :: "roLayer \<Rightarrow> layerRef \<Rightarrow> ('d, 'm) layerStore \<Rightarrow> ('d, 'm) layerStore" where
  "deleteReference rl ref ls =
     ls\<lparr>ls_refs := (ls_refs ls)(ro_addr rl := ls_refs ls (ro_addr rl) - {lr_id ref})\<rparr>"

definition storeLayer :: "('d, 'm, 't) lenv \<Rightarrow> 't \<Rightarrow> roLayer \<Rightarrow> ('d, 'm, unit) lsM" where
  "storeLayer env tx layer =
     seq (on_store (tx_SetDiffID env tx (ro_diffID layer))) (\<lambda>_.
     seq (on_store (tx_SetSize env tx (ro_size layer))) (\<lambda>_.
     seq (on_store (tx_SetCacheID env tx (ro_cacheID layer))) (\<lambda>_.
     seq (if d_Digest (ro_descriptor layer) \<noteq> ''''
          then on_store (tx_SetDescriptor env tx (ro_descriptor layer)) else ret ()) (\<lambda>_.
     (case ro_parent layer of
        None \<Rightarrow> ret ()
      | Some p \<Rightarrow> on_store (tx_SetParent env tx (ro_chainID p)))))))"

definition getWithoutLock :: "string \<Rightarrow> ('d, 'm, roLayer option) lsM" where
  "getWithoutLock layer =
     seq (gets (\<lambda>ls. ls_layerMap ls layer)) (\<lambda>found.
     case found of
       None \<Rightarrow> ret None
     | Some l \<Rightarrow>
         seq (modify (\<lambda>ls. ls\<lparr>ls_refCount :=
                (ls_refCount ls)(ro_addr l := ls_refCount ls (ro_addr l) + 1)\<rparr>)) (\<lambda>_.
         ret (Some l)))"

definition Get :: "string \<Rightarrow> ('d, 'm, layerRef) lsM" where
  "Get l =
     seq (getWithoutLock l) (\<lambda>found.
     case found of
       None \<Rightarrow> fail ErrLayerDoesNotExist
     | Some layer \<Rightarrow> getReference layer)"

definition deleteLayer :: "('d, 'm, 't) lenv \<Rightarrow> roLayer \<Rightarrow> ('d, 'm, Metadata) lsM" where
  "deleteLayer env layer =
     seq (on_driver (drv_Remove env (ro_cacheID layer))) (\<lambda>_.
     seq (on_store (md_Remove env (ro_chainID layer))) (\<lambda>_.
     ret \<lparr>m_ChainID = ro_chainID layer, m_DiffID = ro_diffID layer,
          m_Size = Size layer, m_DiffSize = ro_size layer\<rparr>))"

text \<open>
  The loop of \<open>releaseLayer\<close>: the recursion follows the parent pointer; \<open>dep\<close> and \<open>removed\<close>
  are its local variables.
\<close>

fun releaseLoop :: "('d, 'm, 't) lenv \<Rightarrow> nat \<Rightarrow> Metadata list \<Rightarrow> roLayer \<Rightarrow> ('d, 'm, Metadata list) lsM" where
  "releaseLoop env dep removed (RoLayer a c d k sz desc parent) =
     seq (gets (\<lambda>ls. ls_refCount ls a)) (\<lambda>n.
     if n = 0 then gopanic ''layer not retained'' else
     seq (modify (\<lambda>ls. ls\<lparr>ls_refCount := (ls_refCount ls)(a := n - 1)\<rparr>)) (\<lambda>_.
     if n - 1 \<noteq> 0 then ret removed else
     if removed = [] \<and> dep > 0 then gopanic ''cannot remove layer with child'' else
     seq (gets (hasReferences (RoLayer a c d k sz desc parent))) (\<lambda>held.
     if held then gopanic ''cannot delete referenced layer'' else
     seq (deleteLayer env (RoLayer a c d k sz desc parent)) (\<lambda>metadata.
     seq (modify (\<lambda>ls. ls\<lparr>ls_layerMap := (ls_layerMap ls)(c := None)\<rparr>)) (\<lambda>_.
     (case parent of
        None \<Rightarrow> ret (removed @ [metadata])
      | Some p \<Rightarrow> releaseLoop env (dep + 1) (removed @ [metadata]) p))))))"

definition releaseLayer :: "('d, 'm, 't) lenv \<Rightarrow> roLayer \<Rightarrow> ('d, 'm, Metadata list) lsM" where
  "releaseLayer env l = releaseLoop env 0 [] l"

definition Release :: "('d, 'm, 't) lenv \<Rightarrow> layerRef \<Rightarrow> ('d, 'm, Metadata list) lsM" where
  "Release env l =
     seq (gets (\<lambda>ls. ls_layerMap ls (ro_chainID (lr_layer l)))) (\<lambda>found.
     case found of
       None \<Rightarrow> ret []
     | Some layer \<Rightarrow>
         seq (gets (hasReference layer l)) (\<lambda>held.
         if \<not> held then fail ErrLayerNotRetained else
         seq (modify (deleteReference layer l)) (\<lambda>_.
         releaseLayer env layer)))"

section \<open>Registering a layer\<close>

text \<open>
  \<open>applyTar\<close> gives the size the driver reports and the digest of the whole stream: the stream is
  read to its end before the digest is taken. The deferred \<open>Close\<close> of the tar-split writer runs on
  every path, and its error is dropped. A stream that fails while its rest is discarded, an error
  that the source drops too, is not modelled.
\<close>

definition applyTar :: "('d, 'm, 't) lenv \<Rightarrow> 't \<Rightarrow> string \<Rightarrow> string \<Rightarrow> string \<Rightarrow> ('d, 'm, int64 \<times> string) lsM" where
  "applyTar env tx ts parent cacheID =
     seq (on_store (tx_TarSplitWriter env tx True)) (\<lambda>tsw.
     (case asm_NewInputTarStream env ts of
        Some msg \<Rightarrow> seq (ignore_err (on_store (tsw_Close env tsw ''''))) (\<lambda>_. fail (ErrBackend msg))
      | None \<Rightarrow>
          seq (defer_err (ignore_err (on_store (tsw_Close env tsw (asm_Partial env ts))))
                 (on_driver (drv_ApplyDiff env cacheID parent ts))) (\<lambda>applySize.
          seq (ignore_err (on_store (tsw_Close env tsw (asm_Packed env ts)))) (\<lambda>_.
          ret (applySize, digest_FromBytes env ts)))))"

text \<open>\<open>get(parent)\<close> with the check for a missing parent; the empty parent is a base layer.\<close>

definition retainParent :: "string \<Rightarrow> ('d, 'm, roLayer option) lsM" where
  "retainParent parent =
     (if parent = '''' then ret None
      else seq (getWithoutLock parent) (\<lambda>found.
           case found of
             None \<Rightarrow> fail ErrLayerDoesNotExist
           | Some p \<Rightarrow> ret (Some p)))"

definition releaseParent :: "('d, 'm, 't) lenv \<Rightarrow> roLayer option \<Rightarrow> ('d, 'm, unit) lsM" where
  "releaseParent env p =
     (case p of None \<Rightarrow> ret () | Some l \<Rightarrow> ignore_err (releaseLayer env l))"

definition allocLayer :: "('d, 'm, addr) lsM" where
  "allocLayer =
     seq (gets ls_next) (\<lambda>n.
     seq (modify (\<lambda>ls. ls\<lparr>ls_next := Suc n, ls_refCount := (ls_refCount ls)(n := 1),
                        ls_refs := (ls_refs ls)(n := {})\<rparr>)) (\<lambda>_.
     ret n))"

text \<open>The critical section at the end of \<open>registerWithDescriptor\<close>, under \<open>layerL\<close>.\<close>

definition publishLayer :: "('d, 'm, 't) lenv \<Rightarrow> 't \<Rightarrow> roLayer \<Rightarrow> ('d, 'm, layerRef \<times> bool) lsM" where
  "publishLayer env tx layer =
     seq (getWithoutLock (ro_chainID layer)) (\<lambda>existing.
     case existing of
       Some existingLayer \<Rightarrow> seq (getReference existingLayer) (\<lambda>r. ret (r, True))
     | None \<Rightarrow>
         seq (on_store (tx_Commit env tx (ro_chainID layer))) (\<lambda>_.
         seq (modify (\<lambda>ls. ls\<lparr>ls_layerMap := (ls_layerMap ls)(ro_chainID layer \<mapsto> layer)\<rparr>)) (\<lambda>_.
         seq (getReference layer) (\<lambda>r. ret (r, False)))))"

definition mkLayer :: "('d, 'm, 't) lenv \<Rightarrow> addr \<Rightarrow> roLayer option \<Rightarrow> string \<Rightarrow> Descriptor \<Rightarrow> int64 \<Rightarrow> string \<Rightarrow> roLayer" where
  "mkLayer env a p cacheID descriptor sz diffID =
     RoLayer a
       (case p of None \<Rightarrow> diffID
        | Some l \<Rightarrow> createChainIDFromParent (digest_FromBytes env) (ro_chainID l) [diffID])
       diffID cacheID sz descriptor p"

definition registerBody ::
  "('d, 'm, 't) lenv \<Rightarrow> string \<Rightarrow> roLayer option \<Rightarrow> Descriptor \<Rightarrow> string \<Rightarrow> ('d, 'm, layerRef \<times> bool) lsM" where
  "registerBody env ts p descriptor cacheID =
     (let pid = (case p of None \<Rightarrow> '''' | Some l \<Rightarrow> ro_cacheID l) in
      if (case p of None \<Rightarrow> False | Some l \<Rightarrow> depth l \<ge> maxLayerDepth) then fail ErrMaxDepthExceeded else
      seq allocLayer (\<lambda>a.
      seq (on_driver (drv_Create env cacheID pid '''' Map.empty)) (\<lambda>_.
      seq (on_store (md_StartTransaction env)) (\<lambda>tx.
      defer_set (seq (ignore_err (on_driver (drv_Remove env cacheID))) (\<lambda>_.
                 ignore_err (on_store (tx_Cancel env tx))))
        (seq (applyTar env tx ts pid cacheID) (\<lambda>(sz, diffID).
         let layer = mkLayer env a p cacheID descriptor sz diffID in
         seq (storeLayer env tx layer) (\<lambda>_.
         publishLayer env tx layer)))))))"

definition registerWithDescriptor ::
  "('d, 'm, 't) lenv \<Rightarrow> string \<Rightarrow> string \<Rightarrow> Descriptor \<Rightarrow> string \<Rightarrow> ('d, 'm, layerRef) lsM" where
  "registerWithDescriptor env ts parent descriptor cacheID =
     seq (retainParent parent) (\<lambda>p.
     seq (defer_set (releaseParent env p) (registerBody env ts p descriptor cacheID)) (\<lambda>(r, _).
     ret r))"

definition Register :: "('d, 'm, 't) lenv \<Rightarrow> string \<Rightarrow> string \<Rightarrow> string \<Rightarrow> ('d, 'm, layerRef) lsM" where
  "Register env ts parent cacheID = registerWithDescriptor env ts parent emptyDescriptor cacheID"

section \<open>Writable layers\<close>

definition ml_getReference :: "string \<Rightarrow> mountedLayer \<Rightarrow> ('d, 'm, rwRef) lsM" where
  "ml_getReference name m =
     seq (gets ls_next) (\<lambda>n.
     seq (modify (\<lambda>ls. ls\<lparr>
            ls_mounts := (ls_mounts ls)(name \<mapsto> m\<lparr>ml_references := insert n (ml_references m)\<rparr>),
            ls_next := Suc n\<rparr>)) (\<lambda>_.
     ret (RWRef n (ml_name m) (ml_mountID m))))"

definition cacheParent :: "mountedLayer \<Rightarrow> string" where
  "cacheParent ml =
     (if ml_initID ml \<noteq> '''' then ml_initID ml
      else case ml_parent ml of Some p \<Rightarrow> ro_cacheID p | None \<Rightarrow> '''')"

definition saveMount :: "('d, 'm, 't) lenv \<Rightarrow> mountedLayer \<Rightarrow> ('d, 'm, unit) lsM" where
  "saveMount env mount =
     seq (on_store (md_SetMountID env (ml_name mount) (ml_mountID mount))) (\<lambda>_.
     seq (if ml_initID mount \<noteq> '''' then on_store (md_SetInitID env (ml_name mount) (ml_initID mount))
          else ret ()) (\<lambda>_.
     seq (case ml_parent mount of
            None \<Rightarrow> ret ()
          | Some p \<Rightarrow> on_store (md_SetMountParent env (ml_name mount) (ro_chainID p))) (\<lambda>_.
     modify (\<lambda>ls. ls\<lparr>ls_mounts := (ls_mounts ls)(ml_name mount \<mapsto> mount)\<rparr>))))"

definition initMount ::
  "('d, 'm, 't) lenv \<Rightarrow> string \<Rightarrow> string \<Rightarrow> string \<Rightarrow> (string \<Rightarrow> string option) \<Rightarrow> (string \<rightharpoonup> string) \<Rightarrow> ('d, 'm, string) lsM" where
  "initMount env graphID parent mountLabel initFunc storageOpt =
     (let initID = graphID @ ''-init'' in
      seq (on_driver (drv_Create env initID parent mountLabel storageOpt)) (\<lambda>_.
      seq (on_driver (drv_Get env initID '''')) (\<lambda>p.
      (case initFunc p of
         Some msg \<Rightarrow> seq (ignore_err (on_driver (drv_Put env initID))) (\<lambda>_. fail (ErrBackend msg))
       | None \<Rightarrow> seq (on_driver (drv_Put env initID)) (\<lambda>_. ret initID)))))"

definition createRWBody ::
  "('d, 'm, 't) lenv \<Rightarrow> string \<Rightarrow> roLayer option \<Rightarrow> string \<Rightarrow> (string \<Rightarrow> string option) option \<Rightarrow>
   (string \<rightharpoonup> string) \<Rightarrow> string \<Rightarrow> ('d, 'm, rwRef) lsM" where
  "createRWBody env name p mountLabel initFunc storageOpt mountID =
     (let pid = (case p of None \<Rightarrow> '''' | Some l \<Rightarrow> ro_cacheID l) in
      seq (case initFunc of
             None \<Rightarrow> ret (pid, '''')
           | Some f \<Rightarrow> seq (initMount env mountID pid mountLabel f storageOpt) (\<lambda>i. ret (i, i))) (\<lambda>(pid', initID).
      seq (on_driver (drv_CreateReadWrite env mountID pid' '''' storageOpt)) (\<lambda>_.
      let m = \<lparr>ml_name = name, ml_mountID = mountID, ml_initID = initID, ml_parent = p, ml_references = {}\<rparr> in
      seq (saveMount env m) (\<lambda>_.
      ml_getReference name m))))"

definition CreateRWLayer ::
  "('d, 'm, 't) lenv \<Rightarrow> string \<Rightarrow> string \<Rightarrow> string \<Rightarrow> (string \<Rightarrow> string option) option \<Rightarrow>
   (string \<rightharpoonup> string) \<Rightarrow> string \<Rightarrow> ('d, 'm, rwRef) lsM" where
  "CreateRWLayer env name parent mountLabel initFunc storageOpt mountID =
     seq (gets (\<lambda>ls. ls_mounts ls name)) (\<lambda>found.
     case found of
       Some _ \<Rightarrow> fail ErrMountNameConflict
     | None \<Rightarrow>
         seq (retainParent parent) (\<lambda>p.
         defer_err (releaseParent env p)
           (createRWBody env name p mountLabel initFunc storageOpt mountID)))"

definition GetRWLayer :: "string \<Rightarrow> ('d, 'm, rwRef) lsM" where
  "GetRWLayer name =
     seq (gets (\<lambda>ls. ls_mounts ls name)) (\<lambda>found.
     case found of
       None \<Rightarrow> fail ErrMountDoesNotExist
     | Some mount \<Rightarrow> ml_getReference name mount)"

definition GetMountID :: "string \<Rightarrow> ('d, 'm, string) lsM" where
  "GetMountID name =
     seq (gets (\<lambda>ls. ls_mounts ls name)) (\<lambda>found.
     case found of
       None \<Rightarrow> fail ErrMountDoesNotExist
     | Some mount \<Rightarrow> ret (ml_mountID mount))"

definition setMount :: "mountedLayer \<Rightarrow> ('d, 'm) layerStore \<Rightarrow> ('d, 'm) layerStore" where
  "setMount m ls = ls\<lparr>ls_mounts := (ls_mounts ls)(ml_name m \<mapsto> m)\<rparr>"

text \<open>\<open>retakeReference\<close>: an error after the reference was dropped puts it back.\<close>

definition retakeReference :: "rwRef \<Rightarrow> ('d, 'm) layerStore \<Rightarrow> ('d, 'm) layerStore" where
  "retakeReference r ls = (case ls_mounts ls (rw_name r) of
      None \<Rightarrow> ls
    | Some m \<Rightarrow> setMount (m\<lparr>ml_references := insert (rw_id r) (ml_references m)\<rparr>) ls)"

definition ReleaseRWLayer :: "('d, 'm, 't) lenv \<Rightarrow> rwRef \<Rightarrow> ('d, 'm, Metadata list) lsM" where
  "ReleaseRWLayer env l =
     seq (gets (\<lambda>ls. ls_mounts ls (rw_name l))) (\<lambda>found.
     case found of
       None \<Rightarrow> ret []
     | Some m \<Rightarrow>
         if rw_id l \<notin> ml_references m then fail ErrLayerNotRetained else
         seq (modify (setMount (m\<lparr>ml_references := ml_references m - {rw_id l}\<rparr>))) (\<lambda>_.
         if ml_references m - {rw_id l} \<noteq> {} then ret [] else
         seq (defer_err (modify (retakeReference l))
               (seq (on_driver (drv_Remove env (ml_mountID m))) (\<lambda>_.
                seq (if ml_initID m \<noteq> '''' then on_driver (drv_Remove env (ml_initID m)) else ret ()) (\<lambda>_.
                on_store (md_RemoveMount env (ml_name m)))))) (\<lambda>_.
         seq (modify (\<lambda>ls. ls\<lparr>ls_mounts := (ls_mounts ls)(ml_name m := None)\<rparr>)) (\<lambda>_.
         (case ml_parent m of
            None \<Rightarrow> ret []
          | Some p \<Rightarrow> releaseLayer env p)))))"

section \<open>Restoring a store from its metadata\<close>

text \<open>
  \<open>loadLayer\<close> recurses into the parent that the metadata names. The recursion is bounded by
  \<open>fuel\<close>: running out of it stands for a stack that overflows because the recorded parents form
  a cycle.
\<close>

definition on_store_msg :: "string \<Rightarrow> ('m, 'a) backend \<Rightarrow> ('d, 'm, 'a) lsM" where
  "on_store_msg pre = call ls_store (\<lambda>m ls. ls\<lparr>ls_store := m\<rparr>) (\<lambda>msg. ErrBackend (pre @ msg))"

definition allocLoaded :: "('d, 'm, addr) lsM" where
  "allocLoaded =
     seq (gets ls_next) (\<lambda>n.
     seq (modify (\<lambda>ls. ls\<lparr>ls_next := Suc n, ls_refCount := (ls_refCount ls)(n := 0),
                        ls_refs := (ls_refs ls)(n := {})\<rparr>)) (\<lambda>_.
     ret n))"

fun loadLayer :: "('d, 'm, 't) lenv \<Rightarrow> nat \<Rightarrow> string \<Rightarrow> ('d, 'm, roLayer) lsM" where
  "loadLayer env 0 layer = gopanic ''stack overflow''"
| "loadLayer env (Suc fuel) layer =
     seq (gets (\<lambda>ls. ls_layerMap ls layer)) (\<lambda>found.
     case found of
       Some cl \<Rightarrow> ret cl
     | None \<Rightarrow>
         seq (on_store_msg (''failed to get diff id for '' @ layer @ '': '') (md_GetDiffID env layer)) (\<lambda>diff.
         seq (on_store_msg (''failed to get size for '' @ layer @ '': '') (md_GetSize env layer)) (\<lambda>sz.
         seq (on_store_msg (''failed to get cache id for '' @ layer @ '': '') (md_GetCacheID env layer)) (\<lambda>cacheID.
         seq (on_store_msg (''failed to get parent for '' @ layer @ '': '') (md_GetParent env layer)) (\<lambda>parent.
         seq (on_store_msg (''failed to get descriptor for '' @ layer @ '': '') (md_GetDescriptor env layer)) (\<lambda>descriptor.
         seq (if parent \<noteq> '''' then seq (loadLayer env fuel parent) (\<lambda>p. ret (Some p)) else ret None) (\<lambda>p.
         seq allocLoaded (\<lambda>a.
         let cl = RoLayer a layer diff cacheID sz descriptor p in
         seq (modify (\<lambda>ls. ls\<lparr>ls_layerMap := (ls_layerMap ls)(layer \<mapsto> cl)\<rparr>)) (\<lambda>_.
         ret cl)))))))))"

definition incRef :: "roLayer option \<Rightarrow> ('d, 'm, unit) lsM" where
  "incRef l = (case l of
      None \<Rightarrow> ret ()
    | Some p \<Rightarrow> modify (\<lambda>ls. ls\<lparr>ls_refCount := (ls_refCount ls)(ro_addr p := ls_refCount ls (ro_addr p) + 1)\<rparr>))"

definition loadMount :: "('d, 'm, 't) lenv \<Rightarrow> nat \<Rightarrow> string \<Rightarrow> ('d, 'm, unit) lsM" where
  "loadMount env fuel mount =
     seq (gets (\<lambda>ls. ls_mounts ls mount)) (\<lambda>found.
     case found of
       Some _ \<Rightarrow> ret ()
     | None \<Rightarrow>
         seq (on_store (md_GetMountID env mount)) (\<lambda>mountID.
         seq (on_store (md_GetInitID env mount)) (\<lambda>initID.
         seq (on_store (md_GetMountParent env mount)) (\<lambda>parent.
         seq (if parent \<noteq> '''' then seq (loadLayer env fuel parent) (\<lambda>p. ret (Some p)) else ret None) (\<lambda>p.
         seq (incRef p) (\<lambda>_.
         modify (\<lambda>ls. ls\<lparr>ls_mounts := (ls_mounts ls)(mount \<mapsto>
           \<lparr>ml_name = mount, ml_mountID = mountID, ml_initID = initID, ml_parent = p, ml_references = {}\<rparr>)\<rparr>)))))))"

fun loadLayers :: "('d, 'm, 't) lenv \<Rightarrow> nat \<Rightarrow> string list \<Rightarrow> ('d, 'm, unit) lsM" where
  "loadLayers env fuel [] = ret ()"
| "loadLayers env fuel (layer # ids) =
     seq (ignore_err (seq (loadLayer env fuel layer) (\<lambda>l. incRef (ro_parent l)))) (\<lambda>_.
     loadLayers env fuel ids)"

fun loadMounts :: "('d, 'm, 't) lenv \<Rightarrow> nat \<Rightarrow> string list \<Rightarrow> ('d, 'm, unit) lsM" where
  "loadMounts env fuel [] = ret ()"
| "loadMounts env fuel (mount # mounts) =
     seq (ignore_err (loadMount env fuel mount)) (\<lambda>_.
     loadMounts env fuel mounts)"

definition emptyStore :: "'d \<Rightarrow> 'm \<Rightarrow> ('d, 'm) layerStore" where
  "emptyStore d m = \<lparr>ls_store = m, ls_driver = d, ls_layerMap = Map.empty, ls_mounts = Map.empty,
     ls_refCount = (\<lambda>_. 0), ls_refs = (\<lambda>_. {}), ls_next = 0\<rparr>"

definition NewStoreFromGraphDriver ::
  "('d, 'm, 't) lenv \<Rightarrow> nat \<Rightarrow> 'd \<Rightarrow> 'm \<Rightarrow> (layer_err, unit) outcome \<times> ('d, 'm) layerStore" where
  "NewStoreFromGraphDriver env fuel d m =
     seq (on_store (md_List env)) (\<lambda>(ids, mounts).
     seq (loadLayers env fuel ids) (\<lambda>_.
     loadMounts env fuel mounts)) (emptyStore d m)"

end
