(* ===== verification/LayerStoreInv.thy ===== *)
theory LayerStoreInv
  imports LayerStore
begin

text \<open>
  The reference-count invariant of the layer store and the proof that every operation of
  \<^verbatim>\<open>layer/layer_store.go\<close> keeps it on every path, errors included, and never panics.
\<close>

section \<open>The invariant\<close>

definition children :: "('d, 'm) layerStore \<Rightarrow> roLayer \<Rightarrow> string set" where
  "children ls l = {c. \<exists>l'. ls_layerMap ls c = Some l' \<and> ro_parent l' = Some l}"

definition mountsOn :: "('d, 'm) layerStore \<Rightarrow> roLayer \<Rightarrow> string set" where
  "mountsOn ls l = {n. \<exists>m. ls_mounts ls n = Some m \<and> ml_parent m = Some l}"

text \<open>
  What keeps a layer alive: the references handed out, the layers built on it and the mounts
  created from it.
\<close>

definition holders :: "('d, 'm) layerStore \<Rightarrow> roLayer \<Rightarrow> nat" where
  "holders ls l = card (ls_refs ls (ro_addr l)) + card (children ls l) + card (mountsOn ls l)"

definition wf_layer :: "('d, 'm) layerStore \<Rightarrow> string \<Rightarrow> roLayer \<Rightarrow> bool" where
  "wf_layer ls c l \<longleftrightarrow> ro_chainID l = c \<and> ro_addr l < ls_next ls \<and>
     finite (ls_refs ls (ro_addr l)) \<and> (\<forall>r\<in>ls_refs ls (ro_addr l). r < ls_next ls) \<and>
     (\<forall>p. ro_parent l = Some p \<longrightarrow> ls_layerMap ls (ro_chainID p) = Some p)"

definition wf_mount :: "('d, 'm) layerStore \<Rightarrow> string \<Rightarrow> mountedLayer \<Rightarrow> bool" where
  "wf_mount ls n m \<longleftrightarrow> ml_name m = n \<and>
     (\<forall>p. ml_parent m = Some p \<longrightarrow> ls_layerMap ls (ro_chainID p) = Some p)"

text \<open>
  \<open>pend l\<close> counts the retentions of \<open>l\<close> that calls in progress hold: between \<open>get(parent)\<close> and
  the publication of the new layer or mount, or the release on an error.
\<close>

definition ls_inv :: "(roLayer \<Rightarrow> nat) \<Rightarrow> ('d, 'm) layerStore \<Rightarrow> bool" where
  "ls_inv pend ls \<longleftrightarrow>
     finite (dom (ls_layerMap ls)) \<and> finite (dom (ls_mounts ls)) \<and>
     (\<forall>c l. ls_layerMap ls c = Some l \<longrightarrow> wf_layer ls c l) \<and>
     (\<forall>c l c' l'. ls_layerMap ls c = Some l \<longrightarrow> ls_layerMap ls c' = Some l' \<longrightarrow>
        ro_addr l = ro_addr l' \<longrightarrow> l = l') \<and>
     (\<forall>n m. ls_mounts ls n = Some m \<longrightarrow> wf_mount ls n m) \<and>
     (\<forall>l. 0 < pend l \<longrightarrow> ls_layerMap ls (ro_chainID l) = Some l) \<and>
     (\<forall>c l. ls_layerMap ls c = Some l \<longrightarrow> ls_refCount ls (ro_addr l) = holders ls l + pend l)"

abbreviation retain :: "roLayer \<Rightarrow> (roLayer \<Rightarrow> nat) \<Rightarrow> roLayer \<Rightarrow> nat" where
  "retain l pend \<equiv> pend(l := Suc (pend l))"

definition retain_opt :: "roLayer option \<Rightarrow> (roLayer \<Rightarrow> nat) \<Rightarrow> roLayer \<Rightarrow> nat" where
  "retain_opt p pend = (case p of None \<Rightarrow> pend | Some l \<Rightarrow> retain l pend)"

lemmas inv_unfold = ls_inv_def wf_layer_def wf_mount_def holders_def children_def mountsOn_def

lemma ls_invI:
  assumes "finite (dom (ls_layerMap ls))" and "finite (dom (ls_mounts ls))"
    and "\<And>c l. ls_layerMap ls c = Some l \<Longrightarrow> wf_layer ls c l"
    and "\<And>c l c' l'. ls_layerMap ls c = Some l \<Longrightarrow> ls_layerMap ls c' = Some l' \<Longrightarrow>
           ro_addr l = ro_addr l' \<Longrightarrow> l = l'"
    and "\<And>n m. ls_mounts ls n = Some m \<Longrightarrow> wf_mount ls n m"
    and "\<And>l. 0 < pend l \<Longrightarrow> ls_layerMap ls (ro_chainID l) = Some l"
    and "\<And>c l. ls_layerMap ls c = Some l \<Longrightarrow> ls_refCount ls (ro_addr l) = holders ls l + pend l"
  shows "ls_inv pend ls"
  unfolding ls_inv_def using assms by blast

lemma inv_dests:
  assumes "ls_inv pend ls"
  shows inv_finite: "finite (dom (ls_layerMap ls))"
    and inv_finite_mounts: "finite (dom (ls_mounts ls))"
    and inv_layer: "ls_layerMap ls c = Some l \<Longrightarrow> wf_layer ls c l"
    and inv_addr: "ls_layerMap ls c = Some l \<Longrightarrow> ls_layerMap ls c' = Some l' \<Longrightarrow>
      ro_addr l = ro_addr l' \<Longrightarrow> l = l'"
    and inv_mount: "ls_mounts ls n = Some m \<Longrightarrow> wf_mount ls n m"
    and inv_retained: "0 < pend l \<Longrightarrow> ls_layerMap ls (ro_chainID l) = Some l"
    and inv_count: "ls_layerMap ls c = Some l \<Longrightarrow> ls_refCount ls (ro_addr l) = holders ls l + pend l"
  using assms unfolding ls_inv_def by blast+

section \<open>Elementary steps\<close>

lemma holders_cong:
  assumes "ls_refs t = ls_refs s" and "ls_layerMap t = ls_layerMap s" and "ls_mounts t = ls_mounts s"
  shows "holders t l = holders s l"
  using assms by (simp add: holders_def children_def mountsOn_def)

lemma ls_inv_cong:
  assumes "ls_refs t = ls_refs s" and "ls_layerMap t = ls_layerMap s" and "ls_mounts t = ls_mounts s"
    and "ls_refCount t = ls_refCount s" and "ls_next t = ls_next s"
  shows "ls_inv pend t = ls_inv pend s"
  using assms holders_cong [OF assms(1-3)] by (simp add: ls_inv_def wf_layer_def wf_mount_def)

lemma ls_inv_driver [simp]: "ls_inv pend (ls\<lparr>ls_driver := d\<rparr>) = ls_inv pend ls"
  by (rule ls_inv_cong) simp_all

lemma ls_inv_store [simp]: "ls_inv pend (ls\<lparr>ls_store := m\<rparr>) = ls_inv pend ls"
  by (rule ls_inv_cong) simp_all

lemma finite_children: "ls_inv pend ls \<Longrightarrow> finite (children ls l)"
  unfolding children_def
  by (rule finite_subset [of _ "dom (ls_layerMap ls)"]) (auto dest: inv_finite)

lemma finite_mountsOn: "ls_inv pend ls \<Longrightarrow> finite (mountsOn ls l)"
  unfolding mountsOn_def
  by (rule finite_subset [of _ "dom (ls_mounts ls)"]) (auto dest: inv_finite_mounts)

lemma inv_chainID: "ls_inv pend ls \<Longrightarrow> ls_layerMap ls c = Some l \<Longrightarrow> ro_chainID l = c"
  by (drule inv_layer) (auto simp: wf_layer_def)

text \<open>Only the count of one layer and its pending retentions change.\<close>

lemma ls_inv_setCount:
  assumes inv: "ls_inv pend ls" and l: "ls_layerMap ls (ro_chainID l) = Some l"
    and n: "n = holders ls l + k"
  shows "ls_inv (pend(l := k)) (ls\<lparr>ls_refCount := (ls_refCount ls)(ro_addr l := n)\<rparr>)" (is "ls_inv _ ?ls")
proof (rule ls_invI)
  have h: "holders ?ls x = holders ls x" for x by (rule holders_cong) simp_all
  show "ls_refCount ?ls (ro_addr x) = holders ?ls x + (pend(l := k)) x"
    if "ls_layerMap ?ls c = Some x" for c x
  proof (cases "x = l")
    case False
    with that l inv_addr [OF inv, of c x "ro_chainID l" l] have "ro_addr x \<noteq> ro_addr l" by auto
    with False that inv_count [OF inv, of c x] show ?thesis by (simp add: h)
  next
    case True
    then show ?thesis unfolding h by (simp add: n)
  qed
  show "wf_layer ?ls c x" if "ls_layerMap ?ls c = Some x" for c x
    using that inv_layer [OF inv, of c x] by (simp add: wf_layer_def)
  show "x = y" if "ls_layerMap ?ls c = Some x" "ls_layerMap ?ls c' = Some y" "ro_addr x = ro_addr y"
    for c c' x y using that inv_addr [OF inv, of c x c' y] by simp
  show "wf_mount ?ls x m" if "ls_mounts ?ls x = Some m" for x m
    using that inv_mount [OF inv, of x m] by (simp add: wf_mount_def)
  show "ls_layerMap ?ls (ro_chainID x) = Some x" if "0 < (pend(l := k)) x" for x
    using that l inv_retained [OF inv, of x] by (cases "x = l") simp_all
qed (use inv_finite [OF inv] inv_finite_mounts [OF inv] in simp_all)

lemma ls_inv_retain:
  assumes inv: "ls_inv pend ls" and l: "ls_layerMap ls c = Some l"
  shows "ls_inv (retain l pend)
           (ls\<lparr>ls_refCount := (ls_refCount ls)(ro_addr l := ls_refCount ls (ro_addr l) + 1)\<rparr>)"
  using ls_inv_setCount [OF inv, of l "ls_refCount ls (ro_addr l) + 1" "Suc (pend l)"]
    inv_count [OF inv l] inv_chainID [OF inv l] l by simp

lemma ls_inv_unretain:
  assumes inv: "ls_inv (retain l pend) ls"
  shows "ls_inv pend (ls\<lparr>ls_refCount := (ls_refCount ls)(ro_addr l := ls_refCount ls (ro_addr l) - 1)\<rparr>)"
    and "0 < ls_refCount ls (ro_addr l)" and "ls_layerMap ls (ro_chainID l) = Some l"
proof -
  show l: "ls_layerMap ls (ro_chainID l) = Some l"
    using inv_retained [OF inv, of l] by simp
  have c: "ls_refCount ls (ro_addr l) = holders ls l + Suc (pend l)"
    using inv_count [OF inv l] by simp
  then show "0 < ls_refCount ls (ro_addr l)" by simp
  show "ls_inv pend (ls\<lparr>ls_refCount := (ls_refCount ls)(ro_addr l := ls_refCount ls (ro_addr l) - 1)\<rparr>)"
    using ls_inv_setCount [OF inv l, of "ls_refCount ls (ro_addr l) - 1" "pend l"] c by simp
qed

text \<open>
  A change of the reference sets and of the allocation counter: every layer keeps the sum of its
  holders and its pending retentions.
\<close>

lemma ls_inv_setRefs:
  assumes inv: "ls_inv pend ls"
    and t: "ls_layerMap t = ls_layerMap ls" "ls_mounts t = ls_mounts ls" "ls_next ls \<le> ls_next t"
    and refs: "\<And>c l. ls_layerMap ls c = Some l \<Longrightarrow> ls_refCount t (ro_addr l) = ls_refCount ls (ro_addr l) \<and>
      finite (ls_refs t (ro_addr l)) \<and> (\<forall>r\<in>ls_refs t (ro_addr l). r < ls_next t) \<and>
      card (ls_refs t (ro_addr l)) + pend' l = card (ls_refs ls (ro_addr l)) + pend l"
    and pend': "\<And>l. 0 < pend' l \<Longrightarrow> ls_layerMap ls (ro_chainID l) = Some l"
  shows "ls_inv pend' t"
proof (rule ls_invI)
  have c: "children t x = children ls x" "mountsOn t x = mountsOn ls x" for x
    using t by (simp_all add: children_def mountsOn_def)
  show "ls_refCount t (ro_addr x) = holders t x + pend' x" if "ls_layerMap t c = Some x" for c x
    using that t inv_count [OF inv, of c x] refs [of c x] by (simp add: holders_def c)
  show "wf_layer t c x" if "ls_layerMap t c = Some x" for c x
    using that t refs [of c x] inv_layer [OF inv, of c x] by (auto simp: wf_layer_def)
  show "x = y" if "ls_layerMap t c = Some x" "ls_layerMap t c' = Some y" "ro_addr x = ro_addr y"
    for c c' x y using that t inv_addr [OF inv, of c x c' y] by simp
  show "wf_mount t x m" if "ls_mounts t x = Some m" for x m
    using that t inv_mount [OF inv, of x m] by (simp add: wf_mount_def)
  show "ls_layerMap t (ro_chainID x) = Some x" if "0 < pend' x" for x
    using that t pend' by simp
qed (use t inv_finite [OF inv] inv_finite_mounts [OF inv] in simp_all)

lemma ls_inv_getReference:
  assumes inv: "ls_inv (retain l pend) ls"
  shows "ls_inv pend (ls\<lparr>ls_next := Suc (ls_next ls),
      ls_refs := (ls_refs ls)(ro_addr l := insert (ls_next ls) (ls_refs ls (ro_addr l)))\<rparr>)"
    (is "ls_inv _ ?t")
proof (rule ls_inv_setRefs [OF inv])
  fix c x assume x: "ls_layerMap ls c = Some x"
  have l: "ls_layerMap ls (ro_chainID l) = Some l" using inv_retained [OF inv, of l] by simp
  have wf: "wf_layer ls c x" by (rule inv_layer [OF inv x])
  have "ls_next ls \<notin> ls_refs ls (ro_addr l)"
    using inv_layer [OF inv l] by (auto simp: wf_layer_def)
  then show "ls_refCount ?t (ro_addr x) = ls_refCount ls (ro_addr x) \<and> finite (ls_refs ?t (ro_addr x)) \<and> (\<forall>r\<in>ls_refs ?t (ro_addr x). r < ls_next ?t) \<and>
     card (ls_refs ?t (ro_addr x)) + pend x = card (ls_refs ls (ro_addr x)) + (retain l pend) x"
    using wf inv_addr [OF inv x l] inv_layer [OF inv l]
    by (auto simp: wf_layer_def less_Suc_eq)
next
  show "ls_layerMap ls (ro_chainID x) = Some x" if "0 < pend x" for x
    using that inv_retained [OF inv, of x] by (cases "x = l") simp_all
qed simp_all

lemma ls_inv_deleteReference:
  assumes inv: "ls_inv pend ls" and l: "ls_layerMap ls c = Some l" and r: "r \<in> ls_refs ls (ro_addr l)"
  shows "ls_inv (retain l pend) (ls\<lparr>ls_refs := (ls_refs ls)(ro_addr l := ls_refs ls (ro_addr l) - {r})\<rparr>)"
    (is "ls_inv _ ?t")
proof (rule ls_inv_setRefs [OF inv])
  fix d x assume x: "ls_layerMap ls d = Some x"
  have "card (ls_refs ls (ro_addr l)) = Suc (card (ls_refs ls (ro_addr l) - {r}))"
    using inv_layer [OF inv l] r by (intro card.remove) (auto simp: wf_layer_def)
  then show "ls_refCount ?t (ro_addr x) = ls_refCount ls (ro_addr x) \<and> finite (ls_refs ?t (ro_addr x)) \<and> (\<forall>r\<in>ls_refs ?t (ro_addr x). r < ls_next ?t) \<and>
     card (ls_refs ?t (ro_addr x)) + (retain l pend) x = card (ls_refs ls (ro_addr x)) + pend x"
    using inv_layer [OF inv x] inv_addr [OF inv x l] inv_layer [OF inv l]
    by (auto simp: wf_layer_def)
next
  show "ls_layerMap ls (ro_chainID x) = Some x" if "0 < (retain l pend) x" for x
    using that l inv_chainID [OF inv l] inv_retained [OF inv, of x] by (cases "x = l") simp_all
qed simp_all

text \<open>Removing a layer nobody holds turns its hold on the parent into a pending retention.\<close>

lemma card_children_delete:
  assumes "ls_inv pend ls" and "ls_layerMap ls c = Some l"
  shows "card (children ls q) =
    card (children (ls\<lparr>ls_layerMap := (ls_layerMap ls)(c := None)\<rparr>) q) + (if ro_parent l = Some q then 1 else 0)"
proof -
  have "children (ls\<lparr>ls_layerMap := (ls_layerMap ls)(c := None)\<rparr>) q = children ls q - {c}"
    by (auto simp: children_def)
  moreover have "c \<in> children ls q \<longleftrightarrow> ro_parent l = Some q"
    using assms(2) by (simp add: children_def)
  ultimately show ?thesis
    using card.remove [OF finite_children [OF assms(1)], of c q] by simp
qed

lemma ro_parent_size: "ro_parent l = Some p \<Longrightarrow> size p < size l"
  by (cases l) simp

lemma ro_parent_neq: "ro_parent l = Some p \<Longrightarrow> p \<noteq> l"
  using ro_parent_size by blast

lemma retain_opt_pos: "0 < retain_opt p pend x \<longleftrightarrow> p = Some x \<or> 0 < pend x"
  by (auto simp: retain_opt_def split: option.split)

lemma retain_opt_eq: "retain_opt p pend x = pend x + (if p = Some x then 1 else 0)"
  by (simp add: retain_opt_def split: option.split)

lemma ls_inv_deleteLayer:
  assumes inv: "ls_inv pend ls" and l: "ls_layerMap ls c = Some l" and z: "ls_refCount ls (ro_addr l) = 0"
  shows "ls_inv (retain_opt (ro_parent l) pend) (ls\<lparr>ls_layerMap := (ls_layerMap ls)(c := None)\<rparr>)"
    (is "ls_inv _ ?t")
proof (rule ls_invI)
  have "holders ls l = 0" and pend: "pend l = 0" using inv_count [OF inv l] z by simp_all
  then have ch: "children ls l = {}" and mt: "mountsOn ls l = {}"
    using finite_children [OF inv, of l] finite_mountsOn [OF inv, of l] by (simp_all add: holders_def)
  have other: "ls_layerMap ?t (ro_chainID x) = Some x"
    if "ls_layerMap ls (ro_chainID x) = Some x" and "x \<noteq> l" for x
    using that l by auto
  show "ls_refCount ?t (ro_addr x) = holders ?t x + retain_opt (ro_parent l) pend x"
    if "ls_layerMap ?t d = Some x" for d x
  proof -
    have "mountsOn ?t x = mountsOn ls x" by (simp add: mountsOn_def)
    then show ?thesis
      using that inv_count [OF inv, of d x] card_children_delete [OF inv l, of x]
      by (simp add: holders_def retain_opt_eq split: if_splits)
  qed
  show "wf_layer ?t d x" if x: "ls_layerMap ?t d = Some x" for d x
  proof -
    have d: "ls_layerMap ls d = Some x" using x by (simp split: if_splits)
    have "p \<noteq> l" if "ro_parent x = Some p" for p
      using that ch d by (auto simp: children_def)
    with other inv_layer [OF inv d] show ?thesis by (simp add: wf_layer_def)
  qed
  show "x = y" if "ls_layerMap ?t d = Some x" "ls_layerMap ?t d' = Some y" "ro_addr x = ro_addr y"
    for d d' x y using that inv_addr [OF inv, of d x d' y] by (simp split: if_splits)
  show "wf_mount ?t n m" if "ls_mounts ?t n = Some m" for n m
  proof -
    have "p \<noteq> l" if "ml_parent m = Some p" for p
      using that mt \<open>ls_mounts ?t n = Some m\<close> by (auto simp: mountsOn_def)
    with other that inv_mount [OF inv, of n m] show ?thesis by (simp add: wf_mount_def)
  qed
  show "ls_layerMap ?t (ro_chainID x) = Some x" if "0 < retain_opt (ro_parent l) pend x" for x
  proof (rule other)
    show "ls_layerMap ls (ro_chainID x) = Some x"
      using that inv_retained [OF inv, of x] inv_layer [OF inv l]
      by (auto simp: retain_opt_pos wf_layer_def)
    show "x \<noteq> l" using that pend ro_parent_neq [of l x] by (auto simp: retain_opt_pos)
  qed
qed (use inv_finite [OF inv] inv_finite_mounts [OF inv] in simp_all)

text \<open>A layer object that is allocated but not yet published.\<close>

definition fresh_layer :: "addr \<Rightarrow> ('d, 'm) layerStore \<Rightarrow> bool" where
  "fresh_layer a ls \<longleftrightarrow> a < ls_next ls \<and> ls_refCount ls a = 1 \<and> ls_refs ls a = {} \<and>
     (\<forall>c l. ls_layerMap ls c = Some l \<longrightarrow> ro_addr l \<noteq> a)"

lemma fresh_layer_driver [simp]: "fresh_layer a (ls\<lparr>ls_driver := d\<rparr>) = fresh_layer a ls"
  by (simp add: fresh_layer_def)

lemma fresh_layer_store [simp]: "fresh_layer a (ls\<lparr>ls_store := m\<rparr>) = fresh_layer a ls"
  by (simp add: fresh_layer_def)

text \<open>Publishing a layer turns the pending retention of its parent into the hold of a child.\<close>

lemma ls_inv_publish:
  assumes inv: "ls_inv (retain_opt (ro_parent l) pend) ls" and fresh: "fresh_layer (ro_addr l) ls"
    and new: "ls_layerMap ls (ro_chainID l) = None"
  shows "ls_inv (retain l pend) (ls\<lparr>ls_layerMap := (ls_layerMap ls)(ro_chainID l \<mapsto> l)\<rparr>)" (is "ls_inv _ ?t")
proof (rule ls_invI)
  have keep: "ls_layerMap ?t (ro_chainID x) = Some x" if "ls_layerMap ls (ro_chainID x) = Some x" for x
    using that new by auto
  have nl: "ls_layerMap ls d \<noteq> Some l" for d
    using fresh by (auto simp: fresh_layer_def)
  have pend: "pend l = 0"
    using inv_retained [OF inv, of l] new by (auto simp: retain_opt_pos)
  have ch: "children ls l = {}" using inv_layer [OF inv] nl by (fastforce simp: children_def wf_layer_def)
  have mt: "mountsOn ls l = {}" using inv_mount [OF inv] nl by (fastforce simp: mountsOn_def wf_mount_def)
  have m: "mountsOn ?t x = mountsOn ls x" for x by (simp add: mountsOn_def)
  have "ro_chainID l \<notin> children ls x" for x using new by (simp add: children_def)
  moreover have "children ?t x =
      (if ro_parent l = Some x then insert (ro_chainID l) (children ls x) else children ls x)" for x
    using new by (auto simp: children_def)
  ultimately have cc: "card (children ?t x) = card (children ls x) + (if ro_parent l = Some x then 1 else 0)" for x
    using finite_children [OF inv, of x] by simp
  show "ls_refCount ?t (ro_addr x) = holders ?t x + (retain l pend) x" if x: "ls_layerMap ?t d = Some x" for d x
  proof (cases "x = l")
    case True
    then show ?thesis
      using fresh ch mt pend cc [of l] ro_parent_neq [of l l] by (auto simp: holders_def fresh_layer_def m)
  next
    case False
    with x have "ls_layerMap ls d = Some x" by (simp split: if_splits)
    with False inv_count [OF inv, of d x] cc [of x] show ?thesis
      by (simp add: holders_def retain_opt_eq m split: if_splits)
  qed
  show "wf_layer ?t d x" if x: "ls_layerMap ?t d = Some x" for d x
  proof (cases "x = l")
    case True
    have "ls_layerMap ls (ro_chainID p) = Some p" if "ro_parent l = Some p" for p
      using that inv_retained [OF inv, of p] by (simp add: retain_opt_pos)
    with True x fresh keep nl [of d] show ?thesis
      by (auto simp: wf_layer_def fresh_layer_def split: if_splits)
  next
    case False
    with x have "ls_layerMap ls d = Some x" by (simp split: if_splits)
    from inv_layer [OF inv this] keep show ?thesis by (auto simp: wf_layer_def)
  qed
  show "x = y" if "ls_layerMap ?t d = Some x" "ls_layerMap ?t d' = Some y" "ro_addr x = ro_addr y"
    for d d' x y using that inv_addr [OF inv, of d x d' y] fresh
    by (auto simp: fresh_layer_def split: if_splits)
  show "wf_mount ?t n m" if "ls_mounts ?t n = Some m" for n m
    using that inv_mount [OF inv, of n m] keep by (simp add: wf_mount_def)
  show "ls_layerMap ?t (ro_chainID x) = Some x" if "0 < (retain l pend) x" for x
    using that keep inv_retained [OF inv, of x] by (cases "x = l") (auto simp: retain_opt_pos)
qed (use inv_finite [OF inv] inv_finite_mounts [OF inv] in simp_all)

text \<open>The mounts: a change of one entry of the mount table.\<close>

definition parent_of :: "mountedLayer option \<Rightarrow> roLayer option" where
  "parent_of m = (case m of None \<Rightarrow> None | Some x \<Rightarrow> ml_parent x)"

lemma card_mountsOn_upd:
  assumes "ls_inv pend ls"
  shows "card (mountsOn (ls\<lparr>ls_mounts := (ls_mounts ls)(n := m), ls_next := k\<rparr>) q) +
           (if parent_of (ls_mounts ls n) = Some q then 1 else 0) =
         card (mountsOn ls q) + (if parent_of m = Some q then 1 else 0)"
proof -
  let ?t = "ls\<lparr>ls_mounts := (ls_mounts ls)(n := m), ls_next := k\<rparr>"
  have new: "mountsOn ?t q = (if parent_of m = Some q then insert n (mountsOn ls q - {n}) else mountsOn ls q - {n})"
    by (auto simp: mountsOn_def parent_of_def split: option.splits)
  have old: "n \<in> mountsOn ls q \<longleftrightarrow> parent_of (ls_mounts ls n) = Some q"
    by (auto simp: mountsOn_def parent_of_def split: option.splits)
  have fin: "finite (mountsOn ls q)" by (rule finite_mountsOn [OF assms])
  have "card (mountsOn ls q) = card (mountsOn ls q - {n}) + (if n \<in> mountsOn ls q then 1 else 0)"
    using card.remove [OF fin, of n] by simp
  then show ?thesis using fin by (simp add: new old card.insert_remove)
qed

lemma ls_inv_setMount:
  assumes inv: "ls_inv q ls" and k: "ls_next ls \<le> k"
    and m: "\<And>x. m = Some x \<Longrightarrow> ml_name x = n"
      "\<And>p. parent_of m = Some p \<Longrightarrow> ls_layerMap ls (ro_chainID p) = Some p"
    and bal: "\<And>x. q x + (if parent_of (ls_mounts ls n) = Some x then 1 else 0) =
      q' x + (if parent_of m = Some x then 1 else 0)"
  shows "ls_inv q' (ls\<lparr>ls_mounts := (ls_mounts ls)(n := m), ls_next := k\<rparr>)" (is "ls_inv _ ?t")
proof (rule ls_invI)
  have c: "children ?t x = children ls x" for x by (simp add: children_def)
  show "ls_refCount ?t (ro_addr x) = holders ?t x + q' x" if "ls_layerMap ?t d = Some x" for d x
    using that inv_count [OF inv, of d x] bal [of x]
      card_mountsOn_upd [OF inv, where n = n and m = m and k = k and q = x]
    by (simp add: holders_def c split: if_splits)
  show "wf_layer ?t d x" if "ls_layerMap ?t d = Some x" for d x
    using that k inv_layer [OF inv, of d x] by (auto simp: wf_layer_def)
  show "x = y" if "ls_layerMap ?t d = Some x" "ls_layerMap ?t d' = Some y" "ro_addr x = ro_addr y"
    for d d' x y using that inv_addr [OF inv, of d x d' y] by simp
  show "wf_mount ?t i x" if x: "ls_mounts ?t i = Some x" for i x
    using x m inv_mount [OF inv, of i x] by (auto simp: wf_mount_def parent_of_def split: if_splits)
  show "ls_layerMap ?t (ro_chainID x) = Some x" if "0 < q' x" for x
  proof (cases "parent_of (ls_mounts ls n) = Some x")
    case True
    then show ?thesis using inv_mount [OF inv, of n] by (auto simp: parent_of_def wf_mount_def split: option.splits)
  next
    case False
    with that bal [of x] have "0 < q x" by simp
    then show ?thesis using inv_retained [OF inv, of x] by simp
  qed
qed (use inv_finite [OF inv] inv_finite_mounts [OF inv] in simp_all)

lemma parent_of_Some [simp]: "parent_of (Some m) = ml_parent m"
  by (simp add: parent_of_def)

lemma parent_of_None [simp]: "parent_of None = None"
  by (simp add: parent_of_def)

text \<open>A new mount, a change of the references of a mount, and a mount taken out of the table.\<close>

lemma ls_inv_addMount:
  assumes inv: "ls_inv (retain_opt (ml_parent m) pend) s" and new: "ls_mounts s (ml_name m) = None"
  shows "ls_inv pend (s\<lparr>ls_mounts := (ls_mounts s)(ml_name m \<mapsto> m)\<rparr>)"
  using ls_inv_setMount [OF inv, of "ls_next s" "Some m" "ml_name m" pend] new inv_retained [OF inv]
  by (simp add: retain_opt_eq)

lemma ls_inv_updMount:
  assumes inv: "ls_inv pend s" and m: "ls_mounts s n = Some m"
    and m': "ml_name m' = n" "ml_parent m' = ml_parent m" and k: "ls_next s \<le> k"
  shows "ls_inv pend (s\<lparr>ls_mounts := (ls_mounts s)(n \<mapsto> m'), ls_next := k\<rparr>)"
  using inv_mount [OF inv m] m m' k
  by (intro ls_inv_setMount [OF inv]) (auto simp: wf_mount_def)

lemma ls_inv_dropMount:
  assumes inv: "ls_inv pend s" and m: "ls_mounts s n = Some m"
  shows "ls_inv (retain_opt (ml_parent m) pend) (s\<lparr>ls_mounts := (ls_mounts s)(n := None)\<rparr>)"
  using ls_inv_setMount [OF inv, of "ls_next s" None n "retain_opt (ml_parent m) pend"] m
  by (simp add: retain_opt_eq)

section \<open>Every operation keeps the invariant and never panics\<close>

text \<open>Calls into the driver and the metadata store leave alone what does not mention their state.\<close>

lemma on_driver_frame:
  "(\<And>s d. I s \<Longrightarrow> I (s\<lparr>ls_driver := d\<rparr>)) \<Longrightarrow> triple I (on_driver f) (\<lambda>_. I) (\<lambda>_. I)"
  unfolding on_driver_def by (rule triple_call)

lemma on_store_frame:
  "(\<And>s m. I s \<Longrightarrow> I (s\<lparr>ls_store := m\<rparr>)) \<Longrightarrow> triple I (on_store f) (\<lambda>_. I) (\<lambda>_. I)"
  unfolding on_store_def by (rule triple_call)

lemma deleteLayer_frame:
  assumes "\<And>s d. I s \<Longrightarrow> I (s\<lparr>ls_driver := d\<rparr>)" and "\<And>s m. I s \<Longrightarrow> I (s\<lparr>ls_store := m\<rparr>)"
  shows "triple I (deleteLayer env l) (\<lambda>_. I) (\<lambda>_. I)"
  unfolding deleteLayer_def
  using assms
  by (intro triple_seq [OF on_driver_frame [of I]] triple_seq [OF on_store_frame [of I]] triple_ret)

lemma getWithoutLock_frame:
  "triple (\<lambda>s. ls_inv pend s \<and> J s) (getWithoutLock c)
     (\<lambda>r s. ls_inv (retain_opt r pend) s \<and> (r = None \<longrightarrow> J s \<and> ls_layerMap s c = None)) E"
  unfolding getWithoutLock_def
  by (rule triple_gets)
    (auto intro!: triple_option triple_ret triple_seq [OF triple_modify [where Q = "\<lambda>_. ls_inv (retain _ pend)"]]
      simp: retain_opt_def ls_inv_retain [simplified] split: option.split)

lemmas getWithoutLock_inv = getWithoutLock_frame [where J = "\<lambda>_. True", simplified]

lemma getReference_inv:
  "triple (ls_inv (retain l pend)) (getReference l) (\<lambda>_. ls_inv pend) E"
  unfolding getReference_def
  by (rule triple_gets, rule triple_seq [OF triple_modify [where Q = "\<lambda>_. ls_inv pend"]])
    (auto intro: ls_inv_getReference triple_ret)

text \<open>The part of the loop that deletes a layer whose count has become 0.\<close>

lemma releaseTail_inv:
  assumes rest: "\<And>md. triple (ls_inv (retain_opt (ro_parent l) pend)) (rest md) (\<lambda>_. ls_inv pend) (\<lambda>_. ls_inv pend)"
  defines "I \<equiv> \<lambda>s. ls_inv pend s \<and> ls_layerMap s (ro_chainID l) = Some l \<and> ls_refCount s (ro_addr l) = 0"
  shows "triple I (seq (gets (hasReferences l)) (\<lambda>held.
      if held then gopanic ''cannot delete referenced layer''
      else seq (deleteLayer env l) (\<lambda>md.
        seq (modify (\<lambda>ls. ls\<lparr>ls_layerMap := (ls_layerMap ls)(ro_chainID l := None)\<rparr>)) (\<lambda>_. rest md))))
    (\<lambda>_. ls_inv pend) (\<lambda>_. ls_inv pend)" (is "triple I (seq _ (\<lambda>held. if held then _ else seq _ ?drop)) _ _")
proof (rule triple_gets)
  fix h
  have held: "\<not> hasReferences l s" if "I s" for s
  proof -
    have "holders s l = 0" using that inv_count [of pend s "ro_chainID l" l] by (simp add: I_def)
    moreover have "finite (ls_refs s (ro_addr l))" using that inv_layer [of pend s "ro_chainID l" l] by (auto simp: I_def wf_layer_def)
    ultimately show ?thesis by (simp add: hasReferences_def holders_def)
  qed
  have drop: "triple I (?drop md) (\<lambda>_. ls_inv pend) (\<lambda>_. ls_inv pend)" for md
    using ls_inv_deleteLayer [of pend _ "ro_chainID l" l] by (auto simp: I_def intro!: triple_seq [OF triple_modify rest])
  have del: "triple I (deleteLayer env l) (\<lambda>_. I) (\<lambda>_. ls_inv pend)"
    by (rule triple_weaken [OF deleteLayer_frame [of I]]) (auto simp: I_def)
  show "triple (\<lambda>s. I s \<and> hasReferences l s = h)
      (if h then gopanic ''cannot delete referenced layer'' else seq (deleteLayer env l) ?drop)
      (\<lambda>_. ls_inv pend) (\<lambda>_. ls_inv pend)"
    using held triple_seq [OF del drop] by (cases h) (auto simp: triple_def)
qed

lemma releaseLoop_inv:
  assumes "dep > 0 \<longrightarrow> removed \<noteq> []"
  shows "triple (ls_inv (retain l pend)) (releaseLoop env dep removed l) (\<lambda>_. ls_inv pend) (\<lambda>_. ls_inv pend)"
  using assms
proof (induction l arbitrary: dep removed pend)
  case (RoLayer a c d k sz desc parent)
  let ?l = "RoLayer a c d k sz desc parent"
  let ?next = "\<lambda>md. case parent of None \<Rightarrow> ret (removed @ [md])
      | Some p \<Rightarrow> releaseLoop env (dep + 1) (removed @ [md]) p"
  have rest: "triple (ls_inv (retain_opt parent pend)) (?next md) (\<lambda>_. ls_inv pend) (\<lambda>_. ls_inv pend)" for md
  proof (cases parent)
    case (Some p)
    then show ?thesis using RoLayer.IH [of p "dep + 1" "removed @ [md]" pend]
      by (simp add: retain_opt_def fun_upd_def)
  qed (simp add: retain_opt_def triple_ret)
  note tail = releaseTail_inv [of ?l pend ?next env, unfolded roLayer.sel, OF rest]
  show ?case
    unfolding releaseLoop.simps
  proof (rule triple_gets)
    fix n
    have dec: "triple (\<lambda>s. ls_inv (retain ?l pend) s \<and> ls_refCount s a = n)
        (modify (\<lambda>ls. ls\<lparr>ls_refCount := (ls_refCount ls)(a := n - 1)\<rparr>))
        (\<lambda>_ s. ls_inv pend s \<and> ls_layerMap s c = Some ?l \<and> ls_refCount s a = n - 1) (\<lambda>_. ls_inv pend)"
      using ls_inv_unretain(1,3) [where l = ?l and pend = pend] by (auto intro!: triple_modify)
    show "triple (\<lambda>s. ls_inv (retain ?l pend) s \<and> ls_refCount s a = n)
       (if n = 0 then gopanic ''layer not retained'' else
        seq (modify (\<lambda>ls. ls\<lparr>ls_refCount := (ls_refCount ls)(a := n - 1)\<rparr>)) (\<lambda>_.
        if n - 1 \<noteq> 0 then ret removed else
        if removed = [] \<and> dep > 0 then gopanic ''cannot remove layer with child'' else
        seq (gets (hasReferences ?l)) (\<lambda>held.
        if held then gopanic ''cannot delete referenced layer'' else
        seq (deleteLayer env ?l) (\<lambda>md.
        seq (modify (\<lambda>ls. ls\<lparr>ls_layerMap := (ls_layerMap ls)(c := None)\<rparr>)) (\<lambda>_. ?next md)))))
       (\<lambda>_. ls_inv pend) (\<lambda>_. ls_inv pend)"
    proof (rule triple_if)
      assume "n = 0"
      then show "triple (\<lambda>s. ls_inv (retain ?l pend) s \<and> ls_refCount s a = n)
          (gopanic ''layer not retained'') (\<lambda>_. ls_inv pend) (\<lambda>_. ls_inv pend)"
        using ls_inv_unretain(2) [where l = ?l and pend = pend] by (intro triple_vacuous) fastforce
    qed (rule triple_seq [OF dec], use RoLayer.prems in \<open>intro triple_if triple_ret triple_pre [OF tail]; auto\<close>)
  qed
qed

lemma releaseLayer_inv:
  "triple (ls_inv (retain l pend)) (releaseLayer env l) (\<lambda>_. ls_inv pend) (\<lambda>_. ls_inv pend)"
  unfolding releaseLayer_def by (rule releaseLoop_inv) simp

lemma Get_inv:
  "triple (ls_inv pend) (Get c) (\<lambda>_. ls_inv pend) (\<lambda>_. ls_inv pend)"
  unfolding Get_def
  by (rule triple_seq [OF getWithoutLock_inv], rule triple_option)
    (auto intro: triple_fail triple_pre [OF getReference_inv] simp: retain_opt_def)

lemma Release_inv:
  "triple (ls_inv pend) (Release env l) (\<lambda>_. ls_inv pend) (\<lambda>_. ls_inv pend)"
  unfolding Release_def
proof (rule triple_gets, rule triple_option)
  fix found :: "roLayer option" and layer assume "found = Some layer"
  then show "triple (\<lambda>s. ls_inv pend s \<and> ls_layerMap s (ro_chainID (lr_layer l)) = found)
     (seq (gets (hasReference layer l)) (\<lambda>held.
        if \<not> held then fail ErrLayerNotRetained else
        seq (modify (deleteReference layer l)) (\<lambda>_. releaseLayer env layer)))
     (\<lambda>_. ls_inv pend) (\<lambda>_. ls_inv pend)"
    by (intro triple_gets triple_if triple_fail triple_seq [OF triple_modify releaseLayer_inv])
      (auto simp: deleteReference_def hasReference_def intro: ls_inv_deleteReference)
qed (auto intro: triple_ret)

lemma retainParent_inv:
  "triple (ls_inv pend) (retainParent c) (\<lambda>p. ls_inv (retain_opt p pend)) (\<lambda>_. ls_inv pend)"
  unfolding retainParent_def
  by (rule triple_if)
    (auto intro!: triple_ret triple_fail triple_seq [OF getWithoutLock_inv] triple_option simp: retain_opt_def)

lemma releaseParent_inv:
  "triple (ls_inv (retain_opt p pend)) (releaseParent env p) (\<lambda>_. ls_inv pend) E"
  unfolding releaseParent_def
  by (rule triple_option)
    (auto simp: retain_opt_def intro: triple_ret triple_ignore_err releaseLayer_inv)

section \<open>Registration\<close>

lemma triple_case_prod: "(\<And>a b. r = (a, b) \<Longrightarrow> triple P (f a b) Q E) \<Longrightarrow> triple P (case r of (a, b) \<Rightarrow> f a b) Q E"
  by (cases r) simp

lemmas frame_intros = triple_ret triple_fail triple_if triple_option triple_case_prod triple_ignore_err

lemma applyTar_frame:
  assumes "\<And>s d. I s \<Longrightarrow> I (s\<lparr>ls_driver := d\<rparr>)" and "\<And>s m. I s \<Longrightarrow> I (s\<lparr>ls_store := m\<rparr>)"
  shows "triple I (applyTar env tx ts pid k) (\<lambda>_. I) (\<lambda>_. I)"
  unfolding applyTar_def using assms
  by (intro triple_seq [of I _ "\<lambda>_. I"] triple_defer_err [of I _ "\<lambda>_. I" "\<lambda>_. I"] on_driver_frame on_store_frame frame_intros)

lemma storeLayer_frame:
  assumes "\<And>s m. I s \<Longrightarrow> I (s\<lparr>ls_store := m\<rparr>)"
  shows "triple I (storeLayer env tx l) (\<lambda>_. I) (\<lambda>_. I)"
  unfolding storeLayer_def using assms
  by (intro triple_seq [of I _ "\<lambda>_. I"] frame_intros on_store_frame)

text \<open>The allocation of a layer object.\<close>

lemma allocLayer_inv:
  "triple (ls_inv pend) allocLayer (\<lambda>a s. ls_inv pend s \<and> fresh_layer a s) E"
  unfolding allocLayer_def
proof (rule triple_gets, rule triple_seq [OF triple_modify triple_ret])
  fix n s assume s: "ls_inv pend s \<and> ls_next s = n"
  let ?t = "s\<lparr>ls_next := Suc n, ls_refCount := (ls_refCount s)(n := 1), ls_refs := (ls_refs s)(n := {})\<rparr>"
  have lt: "ro_addr l < n" if "ls_layerMap s c = Some l" for c l
    using inv_layer [of pend s c l] that s by (auto simp: wf_layer_def)
  have "ls_inv pend ?t"
  proof (rule ls_inv_setRefs [of pend s])
    fix c l assume l: "ls_layerMap s c = Some l"
    show "ls_refCount ?t (ro_addr l) = ls_refCount s (ro_addr l) \<and>
      finite (ls_refs ?t (ro_addr l)) \<and> (\<forall>r\<in>ls_refs ?t (ro_addr l). r < ls_next ?t) \<and>
      card (ls_refs ?t (ro_addr l)) + pend l = card (ls_refs s (ro_addr l)) + pend l"
      using inv_layer [of pend s c l] l s lt [OF l] by (auto simp: wf_layer_def less_Suc_eq)
  qed (use s inv_retained in auto)
  then show "ls_inv pend ?t \<and> fresh_layer n ?t"
    using lt by (auto simp: fresh_layer_def)
qed

lemma publishLayer_inv:
  "triple (\<lambda>s. ls_inv (retain_opt (ro_parent l) pend) s \<and> fresh_layer (ro_addr l) s) (publishLayer env tx l)
     (\<lambda>r. ls_inv (if snd r then retain_opt (ro_parent l) pend else pend))
     (\<lambda>_. ls_inv (retain_opt (ro_parent l) pend))"
proof -
  let ?p = "retain_opt (ro_parent l) pend"
  let ?I = "\<lambda>s. ls_inv ?p s \<and> fresh_layer (ro_addr l) s \<and> ls_layerMap s (ro_chainID l) = None"
  have look: "triple (\<lambda>s. ls_inv ?p s \<and> fresh_layer (ro_addr l) s) (getWithoutLock (ro_chainID l))
     (\<lambda>r s. ls_inv (retain_opt r ?p) s \<and> (r = None \<longrightarrow> ?I s)) (\<lambda>_. ls_inv ?p)"
    by (rule triple_weaken [OF getWithoutLock_frame [where J = "fresh_layer (ro_addr l)"]])
      (auto simp: retain_opt_def)
  have commit: "triple ?I (on_store (tx_Commit env tx (ro_chainID l))) (\<lambda>_. ?I) (\<lambda>_. ls_inv ?p)"
    by (rule triple_weaken [OF on_store_frame [of ?I]]) (auto simp: fresh_layer_def)
  have put: "triple ?I (modify (\<lambda>ls. ls\<lparr>ls_layerMap := (ls_layerMap ls)(ro_chainID l \<mapsto> l)\<rparr>))
      (\<lambda>_. ls_inv (retain l pend)) (\<lambda>_. ls_inv ?p)"
    by (rule triple_modify) (auto intro: ls_inv_publish)
  have ref: "triple (ls_inv (retain x q)) (seq (getReference x) (\<lambda>r. ret (r, b)))
      (\<lambda>r s. ls_inv q s \<and> snd r = b) (\<lambda>_. ls_inv ?p)" for x q b
    by (rule triple_seq [OF getReference_inv]) (simp add: triple_ret)
  show ?thesis
    unfolding publishLayer_def
  proof (rule triple_seq [OF look], rule triple_option)
    fix r :: "roLayer option" assume "r = None"
    then show "triple (\<lambda>s. ls_inv (retain_opt r ?p) s \<and> (r = None \<longrightarrow> ?I s))
       (seq (on_store (tx_Commit env tx (ro_chainID l))) (\<lambda>_.
        seq (modify (\<lambda>ls. ls\<lparr>ls_layerMap := (ls_layerMap ls)(ro_chainID l \<mapsto> l)\<rparr>)) (\<lambda>_.
        seq (getReference l) (\<lambda>r. ret (r, False)))))
       (\<lambda>r. ls_inv (if snd r then ?p else pend)) (\<lambda>_. ls_inv ?p)"
      by (intro triple_weaken [OF triple_seq [OF commit triple_seq [OF put ref]]]) auto
  next
    fix r :: "roLayer option" and x assume "r = Some x"
    then show "triple (\<lambda>s. ls_inv (retain_opt r ?p) s \<and> (r = None \<longrightarrow> ?I s))
       (seq (getReference x) (\<lambda>r. ret (r, True)))
       (\<lambda>r. ls_inv (if snd r then ?p else pend)) (\<lambda>_. ls_inv ?p)"
      by (intro triple_weaken [OF ref]) (auto simp: retain_opt_def)
  qed
qed

text \<open>The layer of a reference is in the table and has the reference in its set.\<close>

definition held :: "layerRef \<Rightarrow> ('d, 'm) layerStore \<Rightarrow> bool" where
  "held r s \<longleftrightarrow> ls_layerMap s (ro_chainID (lr_layer r)) = Some (lr_layer r) \<and>
     lr_id r \<in> ls_refs s (ro_addr (lr_layer r))"

lemma held_simps [simp]: "held r (s\<lparr>ls_driver := d\<rparr>) = held r s" "held r (s\<lparr>ls_store := m\<rparr>) = held r s"
  by (simp_all add: held_def)

lemma publishLayer_held:
  assumes "ls_inv q s" and "publishLayer env tx l s = (Ret r, t)"
  shows "held (fst r) t"
  using assms(2) inv_chainID [OF assms(1)]
  by (auto simp: publishLayer_def getWithoutLock_def getReference_def go_defs on_store_def call_def held_def
      split: option.splits prod.splits sum.splits)

lemma registerBody_held:
  "triple (ls_inv (retain_opt p pend)) (registerBody env ts p desc k)
     (\<lambda>r s. ls_inv (if snd r then retain_opt p pend else pend) s \<and> held (fst r) s) (\<lambda>_. ls_inv (retain_opt p pend))"
proof -
  let ?I = "ls_inv (retain_opt p pend)"
  let ?F = "\<lambda>a s. ?I s \<and> fresh_layer a s"
  let ?clean = "\<lambda>tx. seq (ignore_err (on_driver (drv_Remove env k))) (\<lambda>_. ignore_err (on_store (tx_Cancel env tx)))"
  have drv: "triple (?F a) (on_driver f) (\<lambda>_. ?F a) (\<lambda>_. ?I)" for a f
    by (rule triple_weaken [OF on_driver_frame [of "?F a"]]) auto
  have sto: "triple (?F a) (on_store f) (\<lambda>_. ?F a) (\<lambda>_. ?I)" for a f
    by (rule triple_weaken [OF on_store_frame [of "?F a"]]) auto
  have clean: "triple J (?clean tx) (\<lambda>_. J) (\<lambda>_. J)"
    if "\<And>s d. J s \<Longrightarrow> J (s\<lparr>ls_driver := d\<rparr>)" "\<And>s m. J s \<Longrightarrow> J (s\<lparr>ls_store := m\<rparr>)" for J tx
    using that by (intro triple_seq [of _ _ "\<lambda>_. J"] triple_ignore_err on_driver_frame on_store_frame) simp_all
  have app: "triple (?F a) (applyTar env tx ts pid k) (\<lambda>_. ?F a) (\<lambda>_. ?I)" for a tx pid
    by (rule triple_weaken [OF applyTar_frame [of "?F a"]]) auto
  have save: "triple (?F a) (storeLayer env tx l) (\<lambda>_. ?F a) (\<lambda>_. ?I)" for a tx l
    by (rule triple_weaken [OF storeLayer_frame [of "?F a"]]) auto
  have publish: "triple (?F a) (publishLayer env tx (mkLayer env a p k desc sz d))
      (\<lambda>r s. ls_inv (if snd r then retain_opt p pend else pend) s \<and> held (fst r) s) (\<lambda>_. ?I)" for a tx sz d
    using publishLayer_inv [of "mkLayer env a p k desc sz d" pend env tx]
    by (intro triple_Ret_conj) (auto simp: mkLayer_def cong: if_cong intro: publishLayer_held)
  have body: "triple (?F a) (seq (applyTar env tx ts pid k) (\<lambda>(sz, d).
      seq (storeLayer env tx (mkLayer env a p k desc sz d)) (\<lambda>_. publishLayer env tx (mkLayer env a p k desc sz d))))
      (\<lambda>r s. ls_inv (if snd r then retain_opt p pend else pend) s \<and> held (fst r) s) (\<lambda>_. ?I)" for a tx pid
    by (intro triple_seq [OF app] triple_case_prod triple_seq [OF save] publish)
  show ?thesis
    unfolding registerBody_def Let_def
    by (intro triple_if triple_fail triple_seq [OF allocLayer_inv] triple_seq [OF drv] triple_seq [OF sto]
        triple_defer_set [OF body]) (auto intro: clean)
qed

lemma registerBody_inv:
  "triple (ls_inv (retain_opt p pend)) (registerBody env ts p desc k)
     (\<lambda>r. ls_inv (if snd r then retain_opt p pend else pend)) (\<lambda>_. ls_inv (retain_opt p pend))"
  by (rule triple_weaken [OF registerBody_held]) simp_all

lemma registerWithDescriptor_inv:
  "triple (ls_inv pend) (registerWithDescriptor env ts parent desc k) (\<lambda>_. ls_inv pend) (\<lambda>_. ls_inv pend)"
  unfolding registerWithDescriptor_def
proof (rule triple_seq [OF retainParent_inv])
  fix p :: "roLayer option"
  have "triple (ls_inv (retain_opt p pend)) (defer_set (releaseParent env p) (registerBody env ts p desc k))
      (\<lambda>_. ls_inv pend) (\<lambda>_. ls_inv pend)"
    by (rule triple_defer_set [OF registerBody_inv]) (auto intro: releaseParent_inv)
  then show "triple (ls_inv (retain_opt p pend))
     (seq (defer_set (releaseParent env p) (registerBody env ts p desc k)) (\<lambda>(r, _). ret r))
     (\<lambda>_. ls_inv pend) (\<lambda>_. ls_inv pend)"
    by (rule triple_seq) (auto intro: triple_ret split: prod.split)
qed

section \<open>Writable layers\<close>

lemma ml_getReference_inv:
  "triple (\<lambda>s. ls_inv pend s \<and> ls_mounts s n = Some m \<and> ml_name m = n) (ml_getReference n m) (\<lambda>_. ls_inv pend) E"
  unfolding ml_getReference_def
proof (rule triple_gets, rule triple_seq [OF triple_modify [where Q = "\<lambda>_. ls_inv pend"] triple_ret])
  fix k and s :: "('a, 'b) layerStore"
  assume "(ls_inv pend s \<and> ls_mounts s n = Some m \<and> ml_name m = n) \<and> ls_next s = k"
  then show "ls_inv pend (s\<lparr>
      ls_mounts := (ls_mounts s)(n \<mapsto> m\<lparr>ml_references := insert k (ml_references m)\<rparr>), ls_next := Suc k\<rparr>)"
    using ls_inv_updMount [of pend s n m "m\<lparr>ml_references := insert k (ml_references m)\<rparr>" "Suc k"] by simp
qed

lemma createRWBody_inv:
  assumes none: "\<And>s. P s \<Longrightarrow> ls_inv (retain_opt p pend) s \<and> ls_mounts s name = None"
  shows "triple P (createRWBody env name p label f opts k) (\<lambda>_. ls_inv pend) (\<lambda>_. ls_inv (retain_opt p pend))"
proof -
  let ?E = "\<lambda>_. ls_inv (retain_opt p pend)"
  let ?I = "\<lambda>s. ls_inv (retain_opt p pend) s \<and> ls_mounts s name = None"
  have drv: "triple ?I (on_driver g) (\<lambda>_. ?I) ?E" for g
    by (rule triple_weaken [OF on_driver_frame [of ?I]]) auto
  have sto: "triple ?I (on_store g) (\<lambda>_. ?I) ?E" for g
    by (rule triple_weaken [OF on_store_frame [of ?I]]) auto
  have put: "triple ?I (ignore_err (on_driver g)) (\<lambda>_. ?I) ?E" for g
    by (rule triple_ignore_err [OF on_driver_frame]) simp
  have init: "triple ?I (initMount env k pid label g opts) (\<lambda>_. ?I) ?E" for pid g
    unfolding initMount_def Let_def
    by (intro triple_seq [OF drv] triple_seq [OF put] triple_option triple_ret triple_fail) auto
  have save: "triple ?I (saveMount env m) (\<lambda>_ s. ls_inv pend s \<and> ls_mounts s name = Some m) ?E"
    if "ml_name m = name" "ml_parent m = p" for m
    unfolding saveMount_def
    using that
    by (intro triple_seq [OF sto] triple_seq [of ?I _ "\<lambda>_. ?I"] triple_if triple_option triple_ret sto triple_modify)
      (auto intro: ls_inv_addMount)
  have ref: "triple (\<lambda>s. ls_inv pend s \<and> ls_mounts s name = Some m) (ml_getReference name m) (\<lambda>_. ls_inv pend) ?E"
    if "ml_name m = name" for m
    by (rule triple_weaken [OF ml_getReference_inv]) (use that in auto)
  have top: "triple ?I (case f of None \<Rightarrow> ret (pid, '''')
      | Some g \<Rightarrow> seq (initMount env k pid label g opts) (\<lambda>i. ret (i, i))) (\<lambda>_. ?I) ?E" for pid
    by (intro triple_option triple_ret triple_seq [OF init])
  show ?thesis
    unfolding createRWBody_def Let_def
    by (rule triple_pre [where P' = ?I], intro triple_seq [OF top] triple_case_prod triple_seq [OF drv])
      (auto intro!: triple_seq [OF save ref] dest: none)
qed

lemma retainParent_mounts:
  "triple (\<lambda>s. P (ls_mounts s)) (retainParent c) (\<lambda>_ s. P (ls_mounts s)) (\<lambda>_ _. True)"
  unfolding retainParent_def getWithoutLock_def
  by (auto simp: triple_def go_defs split: option.split)

lemma CreateRWLayer_inv:
  "triple (ls_inv pend) (CreateRWLayer env name parent label f opts k) (\<lambda>_. ls_inv pend) (\<lambda>_. ls_inv pend)"
  unfolding CreateRWLayer_def
proof (rule triple_gets, rule triple_option)
  fix found :: "mountedLayer option" assume "found = None"
  have keep: "triple (\<lambda>s. ls_inv pend s \<and> ls_mounts s name = None) (retainParent parent)
      (\<lambda>p s. ls_inv (retain_opt p pend) s \<and> ls_mounts s name = None) (\<lambda>_. ls_inv pend)"
    by (rule triple_weaken [OF triple_conj [OF retainParent_inv retainParent_mounts [of "\<lambda>x. x name = None"]]]) auto
  then show "triple (\<lambda>s. ls_inv pend s \<and> ls_mounts s name = found)
     (seq (retainParent parent) (\<lambda>p. defer_err (releaseParent env p) (createRWBody env name p label f opts k)))
     (\<lambda>_. ls_inv pend) (\<lambda>_. ls_inv pend)"
    unfolding \<open>found = None\<close>
    by (rule triple_seq) (rule triple_defer_err [OF createRWBody_inv releaseParent_inv], simp)
qed (auto intro: triple_fail)

lemma GetRWLayer_inv:
  "triple (ls_inv pend) (GetRWLayer n) (\<lambda>_. ls_inv pend) (\<lambda>_. ls_inv pend)"
  unfolding GetRWLayer_def
proof (rule triple_gets, rule triple_option)
  fix found :: "mountedLayer option" and m assume "found = Some m"
  then show "triple (\<lambda>s. ls_inv pend s \<and> ls_mounts s n = found) (ml_getReference n m)
      (\<lambda>_. ls_inv pend) (\<lambda>_. ls_inv pend)"
    by (intro triple_pre [OF ml_getReference_inv]) (auto dest: inv_mount simp: wf_mount_def)
qed (auto intro: triple_fail)

lemma setMount_inv:
  assumes "ls_inv pend s" and "ls_mounts s n = Some m"
    and "ml_name m' = n" and "ml_parent m' = ml_parent m"
  shows "ls_inv pend (setMount m' s)"
  using ls_inv_updMount [OF assms, of "ls_next s"] assms by (simp add: setMount_def)

lemma ReleaseRWLayer_inv:
  "triple (ls_inv pend) (ReleaseRWLayer env l) (\<lambda>_. ls_inv pend) (\<lambda>_. ls_inv pend)"
  unfolding ReleaseRWLayer_def
proof (rule triple_gets, rule triple_option)
  fix found :: "mountedLayer option" and m assume found: "found = Some m"
  let ?m = "m\<lparr>ml_references := ml_references m - {rw_id l}\<rparr>"
  let ?I = "\<lambda>s. ls_inv pend s \<and> ls_mounts s (ml_name m) = Some ?m \<and> ml_name m = rw_name l"
  let ?E = "\<lambda>_. ls_inv pend"
  let ?rm = "seq (on_driver (drv_Remove env (ml_mountID m))) (\<lambda>_.
      seq (if ml_initID m \<noteq> '''' then on_driver (drv_Remove env (ml_initID m)) else ret ()) (\<lambda>_.
      on_store (md_RemoveMount env (ml_name m))))"
  have set: "triple (\<lambda>s. ls_inv pend s \<and> ls_mounts s (rw_name l) = found) (modify (setMount ?m)) (\<lambda>_. ?I) ?E"
  proof (rule triple_modify)
    fix s assume s: "ls_inv pend s \<and> ls_mounts s (rw_name l) = found"
    then have "ml_name m = rw_name l" using inv_mount [of pend s "rw_name l" m] found by (simp add: wf_mount_def)
    then show "?I (setMount ?m s)"
      using s found setMount_inv [of pend s "rw_name l" m ?m] by (simp add: setMount_def)
  qed
  have "triple ?I ?rm (\<lambda>_. ?I) (\<lambda>_. ?I)"
    by (intro triple_seq [of ?I _ "\<lambda>_. ?I"] triple_if triple_ret on_driver_frame on_store_frame) auto
  moreover have "triple ?I (modify (retakeReference l)) ?E ?E"
    by (rule triple_modify) (auto simp: retakeReference_def intro!: setMount_inv [where n = "rw_name l" and m = ?m])
  ultimately have rm: "triple ?I (defer_err (modify (retakeReference l)) ?rm) (\<lambda>_. ?I) ?E"
    by (rule triple_defer_err)
  have drop: "triple ?I (modify (\<lambda>ls. ls\<lparr>ls_mounts := (ls_mounts ls)(ml_name m := None)\<rparr>))
      (\<lambda>_. ls_inv (retain_opt (ml_parent m) pend)) ?E"
    using ls_inv_dropMount [of pend _ "ml_name m" ?m] by (auto intro: triple_modify)
  have last: "triple (ls_inv (retain_opt (ml_parent m) pend))
      (case ml_parent m of None \<Rightarrow> ret [] | Some p \<Rightarrow> releaseLayer env p) ?E ?E"
    by (rule triple_option) (auto simp: retain_opt_def intro: triple_ret releaseLayer_inv)
  show "triple (\<lambda>s. ls_inv pend s \<and> ls_mounts s (rw_name l) = found)
     (if rw_id l \<notin> ml_references m then fail ErrLayerNotRetained else
      seq (modify (setMount ?m)) (\<lambda>_.
      if ml_references m - {rw_id l} \<noteq> {} then ret [] else
      seq (defer_err (modify (retakeReference l)) ?rm) (\<lambda>_.
      seq (modify (\<lambda>ls. ls\<lparr>ls_mounts := (ls_mounts ls)(ml_name m := None)\<rparr>)) (\<lambda>_.
      (case ml_parent m of None \<Rightarrow> ret [] | Some p \<Rightarrow> releaseLayer env p))))) ?E ?E"
    by (intro triple_if triple_fail triple_seq [OF set] triple_ret triple_seq [OF rm]
        triple_seq [OF drop] last) auto
qed (auto intro: triple_ret)

end
