(* ===== verification/LayerStoreLoad.thy ===== *)
theory LayerStoreLoad
  imports LayerStoreInv
begin

text \<open>
  Restoring a layer store from its metadata (\<open>NewStoreFromGraphDriver\<close>, \<open>loadLayer\<close>,
  \<open>loadMount\<close> of \<^verbatim>\<open>layer/layer_store.go\<close>): the restored store satisfies the reference-count
  invariant, and it holds exactly the layers whose whole chain of metadata is readable.
\<close>

section \<open>The structural part of the invariant\<close>

definition ls_struct :: "('d, 'm) layerStore \<Rightarrow> bool" where
  "ls_struct s \<longleftrightarrow> finite (dom (ls_layerMap s)) \<and> finite (dom (ls_mounts s)) \<and>
     (\<forall>c l. ls_layerMap s c = Some l \<longrightarrow> wf_layer s c l) \<and>
     (\<forall>c l c' l'. ls_layerMap s c = Some l \<longrightarrow> ls_layerMap s c' = Some l' \<longrightarrow>
        ro_addr l = ro_addr l' \<longrightarrow> l = l') \<and>
     (\<forall>n m. ls_mounts s n = Some m \<longrightarrow> wf_mount s n m)"

lemma ls_inv_struct:
  "ls_inv pend s \<longleftrightarrow> ls_struct s \<and> (\<forall>l. 0 < pend l \<longrightarrow> ls_layerMap s (ro_chainID l) = Some l) \<and>
     (\<forall>c l. ls_layerMap s c = Some l \<longrightarrow> ls_refCount s (ro_addr l) = holders s l + pend l)"
  unfolding ls_inv_def ls_struct_def by blast

text \<open>
  While the layers are loaded, a layer counts those of its children whose own turn in the list of
  identifiers has come (\<open>D\<close>).
\<close>

definition load_inv :: "string set \<Rightarrow> ('d, 'm) layerStore \<Rightarrow> bool" where
  "load_inv D s \<longleftrightarrow> ls_struct s \<and> ls_mounts s = Map.empty \<and> D \<subseteq> dom (ls_layerMap s) \<and>
     (\<forall>c l. ls_layerMap s c = Some l \<longrightarrow> ls_refs s (ro_addr l) = {} \<and>
        ls_refCount s (ro_addr l) = card (children s l \<inter> D))"

lemma ls_struct_insert:
  assumes s: "ls_struct s" and new: "ls_layerMap s (ro_chainID l) = None" and a: "ro_addr l = ls_next s"
    and p: "\<And>p. ro_parent l = Some p \<Longrightarrow> ls_layerMap s (ro_chainID p) = Some p"
    and t: "t = s\<lparr>ls_next := Suc (ls_next s), ls_refCount := (ls_refCount s)(ls_next s := n),
      ls_refs := (ls_refs s)(ls_next s := {}), ls_layerMap := (ls_layerMap s)(ro_chainID l \<mapsto> l)\<rparr>"
  shows "ls_struct t"
  unfolding ls_struct_def
proof (intro conjI allI impI)
  have keep: "ls_layerMap t (ro_chainID x) = Some x" if "ls_layerMap s (ro_chainID x) = Some x" for x
    using that new by (auto simp: t)
  have wf: "wf_layer s c x" if "ls_layerMap s c = Some x" for c x
    using s that by (simp add: ls_struct_def)
  have lt: "ro_addr x < ls_next s" if "ls_layerMap s c = Some x" for c x
    using wf [OF that] by (simp add: wf_layer_def)
  show "wf_layer t c x" if x: "ls_layerMap t c = Some x" for c x
  proof (cases "c = ro_chainID l")
    case True
    with x have "x = l" by (simp add: t)
    with True a p keep show ?thesis by (auto simp: wf_layer_def t)
  next
    case False
    with x have x': "ls_layerMap s c = Some x" by (simp add: t)
    from wf [OF x'] keep show ?thesis by (auto simp: wf_layer_def t less_Suc_eq)
  qed
  show "x = y" if "ls_layerMap t c = Some x" "ls_layerMap t c' = Some y" "ro_addr x = ro_addr y" for c c' x y
    using that s lt [of c x] lt [of c' y] a unfolding ls_struct_def by (auto simp: t split: if_splits)
  show "wf_mount t n m" if "ls_mounts t n = Some m" for n m
    using that s keep by (auto simp: wf_mount_def ls_struct_def t)
qed (use s in \<open>auto simp: ls_struct_def t\<close>)

lemma load_inv_insert:
  assumes inv: "load_inv D s" and new: "ls_layerMap s (ro_chainID l) = None" and a: "ro_addr l = ls_next s"
    and p: "\<And>p. ro_parent l = Some p \<Longrightarrow> ls_layerMap s (ro_chainID p) = Some p"
    and t: "t = s\<lparr>ls_next := Suc (ls_next s), ls_refCount := (ls_refCount s)(ls_next s := 0),
      ls_refs := (ls_refs s)(ls_next s := {}), ls_layerMap := (ls_layerMap s)(ro_chainID l \<mapsto> l)\<rparr>"
  shows "load_inv D t"
  unfolding load_inv_def
proof (intro conjI allI impI)
  have str: "ls_struct s" using inv by (simp add: load_inv_def)
  show "ls_struct t" by (rule ls_struct_insert [OF str new a p t])
  show "ls_mounts t = Map.empty" "D \<subseteq> dom (ls_layerMap t)" using inv by (auto simp: load_inv_def t)
  have nD: "ro_chainID l \<notin> D" using inv new by (auto simp: load_inv_def)
  have ch: "children t x \<inter> D = children s x \<inter> D" for x
    using new nD by (auto simp: children_def t)
  have lt: "ro_addr x < ls_next s" if "ls_layerMap s c = Some x" for c x
    using str that by (auto simp: ls_struct_def wf_layer_def)
  have nl: "children s l = {}"
  proof -
    have "ls_layerMap s d \<noteq> Some l" for d using lt [of d l] a by auto
    then show ?thesis using str by (fastforce simp: children_def ls_struct_def wf_layer_def)
  qed
  fix c x assume x: "ls_layerMap t c = Some x"
  show "ls_refs t (ro_addr x) = {}" "ls_refCount t (ro_addr x) = card (children t x \<inter> D)"
    using x inv lt [of c x] a nl by (auto simp: load_inv_def ch, auto simp: t split: if_splits)
qed

section \<open>What the metadata says\<close>

text \<open>
  Reading metadata does not change it. This is what \<open>MetadataStore\<close> promises of its getters and
  of \<open>List\<close>.
\<close>

definition pure_getters :: "('d, 'm, 't) lenv \<Rightarrow> bool" where
  "pure_getters env \<longleftrightarrow> (\<forall>c m. snd (md_GetDiffID env c m) = m \<and> snd (md_GetSize env c m) = m \<and>
     snd (md_GetCacheID env c m) = m \<and> snd (md_GetParent env c m) = m \<and>
     snd (md_GetDescriptor env c m) = m \<and> snd (md_GetMountID env c m) = m \<and>
     snd (md_GetInitID env c m) = m \<and> snd (md_GetMountParent env c m) = m \<and>
     snd (md_List env m) = m)"

text \<open>The parent recorded for a layer all of whose metadata is readable.\<close>

definition meta_parent :: "('d, 'm, 't) lenv \<Rightarrow> 'm \<Rightarrow> string \<Rightarrow> string option" where
  "meta_parent env m c =
     (case (fst (md_GetDiffID env c m), fst (md_GetSize env c m), fst (md_GetCacheID env c m),
            fst (md_GetParent env c m), fst (md_GetDescriptor env c m)) of
        (Inr _, Inr _, Inr _, Inr p, Inr _) \<Rightarrow> Some p
      | _ \<Rightarrow> None)"

inductive chain_ok :: "('d, 'm, 't) lenv \<Rightarrow> 'm \<Rightarrow> string \<Rightarrow> bool" for env m where
  base: "meta_parent env m c = Some '''' \<Longrightarrow> chain_ok env m c"
| step: "meta_parent env m c = Some p \<Longrightarrow> p \<noteq> '''' \<Longrightarrow> chain_ok env m p \<Longrightarrow> chain_ok env m c"

lemma on_store_msg_pure:
  assumes "snd (f (ls_store s)) = ls_store s"
  shows "on_store_msg pre f s = (case fst (f (ls_store s)) of
      Inl msg \<Rightarrow> (Fail (ErrBackend (pre @ msg)), s) | Inr x \<Rightarrow> (Ret x, s))"
  using assms by (cases "f (ls_store s)") (auto simp: on_store_msg_def call_def split: sum.split)

lemma on_store_pure:
  assumes "snd (f (ls_store s)) = ls_store s"
  shows "on_store f s = (case fst (f (ls_store s)) of
      Inl msg \<Rightarrow> (Fail (ErrBackend msg), s) | Inr x \<Rightarrow> (Ret x, s))"
  using assms by (cases "f (ls_store s)") (auto simp: on_store_def call_def split: sum.split)

definition insertLoaded :: "roLayer \<Rightarrow> ('d, 'm) layerStore \<Rightarrow> ('d, 'm) layerStore" where
  "insertLoaded l s = s\<lparr>ls_next := Suc (ls_next s), ls_refCount := (ls_refCount s)(ls_next s := 0),
      ls_refs := (ls_refs s)(ls_next s := {}), ls_layerMap := (ls_layerMap s)(ro_chainID l \<mapsto> l)\<rparr>"

text \<open>One unfolding of \<open>loadLayer\<close> for a layer that is not in the map yet.\<close>

lemma loadLayer_step:
  assumes "pure_getters env" and "ls_layerMap s c = None"
  shows loadLayer_unreadable:
      "meta_parent env (ls_store s) c = None \<Longrightarrow> \<exists>e. loadLayer env (Suc fuel) c s = (Fail e, s)"
    and loadLayer_base:
      "meta_parent env (ls_store s) c = Some '''' \<Longrightarrow>
       \<exists>l. loadLayer env (Suc fuel) c s = (Ret l, insertLoaded l s) \<and>
         ro_chainID l = c \<and> ro_addr l = ls_next s \<and> ro_parent l = None"
    and loadLayer_parent:
      "meta_parent env (ls_store s) c = Some p \<Longrightarrow> p \<noteq> '''' \<Longrightarrow> loadLayer env fuel p s = (Ret q, t) \<Longrightarrow>
       \<exists>l. loadLayer env (Suc fuel) c s = (Ret l, insertLoaded l t) \<and>
         ro_chainID l = c \<and> ro_addr l = ls_next t \<and> ro_parent l = Some q"
    and loadLayer_fail:
      "meta_parent env (ls_store s) c = Some p \<Longrightarrow> p \<noteq> '''' \<Longrightarrow> loadLayer env fuel p s = (Fail e, t) \<Longrightarrow>
       loadLayer env (Suc fuel) c s = (Fail e, t)"
  using assms
  by (auto simp: pure_getters_def meta_parent_def go_defs on_store_msg_pure Let_def insertLoaded_def allocLoaded_def
      split: sum.splits)

section \<open>Loading the layers\<close>

text \<open>
  The parents recorded in the metadata are ranked: a parent has a smaller rank than its child.
  Metadata written by the store is, since a chain identifier is a digest of its parent's.
\<close>

definition ranked :: "('d, 'm, 't) lenv \<Rightarrow> 'm \<Rightarrow> (string \<Rightarrow> nat) \<Rightarrow> bool" where
  "ranked env m rank \<longleftrightarrow> (\<forall>c p. meta_parent env m c = Some p \<and> p \<noteq> '''' \<longrightarrow> rank p < rank c)"

text \<open>The identifiers listed are closed under recorded parents.\<close>

definition parents_listed :: "('d, 'm, 't) lenv \<Rightarrow> 'm \<Rightarrow> string set \<Rightarrow> bool" where
  "parents_listed env m ids \<longleftrightarrow> (\<forall>c\<in>ids. \<forall>p. meta_parent env m c = Some p \<and> p \<noteq> '''' \<longrightarrow> p \<in> ids)"

definition loaded :: "('d, 'm, 't) lenv \<Rightarrow> 'm \<Rightarrow> string set \<Rightarrow> ('d, 'm) layerStore \<Rightarrow> bool" where
  "loaded env m ids s \<longleftrightarrow> ls_store s = m \<and> dom (ls_layerMap s) \<subseteq> {c \<in> ids. chain_ok env m c}"

text \<open>Inserting a layer after its parent.\<close>

lemma loaded_insert:
  fixes rank :: "string \<Rightarrow> nat"
  assumes "load_inv D t" and "loaded env m ids t" and "ls_layerMap s \<subseteq>\<^sub>m ls_layerMap t"
    and "\<forall>x\<in>dom (ls_layerMap t). x \<in> dom (ls_layerMap s) \<or> rank x < rank c"
    and "ro_chainID l = c" and "ro_addr l = ls_next t" and "chain_ok env m c"
    and "\<And>p. ro_parent l = Some p \<Longrightarrow> ls_layerMap t (ro_chainID p) = Some p"
    and none: "ls_layerMap s c = None" and c: "c \<in> ids"
  shows "load_inv D (insertLoaded l t) \<and> loaded env m ids (insertLoaded l t) \<and>
    ls_layerMap (insertLoaded l t) c = Some l \<and> ls_layerMap s \<subseteq>\<^sub>m ls_layerMap (insertLoaded l t) \<and>
    (\<forall>x\<in>dom (ls_layerMap (insertLoaded l t)). x \<in> dom (ls_layerMap s) \<or> rank x \<le> rank c)"
proof -
  have "ls_layerMap t c = None" using assms(4) none by auto
  then have "load_inv D (insertLoaded l t)"
    using assms load_inv_insert [of D t l "insertLoaded l t"] by (simp add: insertLoaded_def)
  then show ?thesis using assms by (auto simp: loaded_def insertLoaded_def map_le_def)
qed

lemma loadLayer_spec:
  assumes env: "pure_getters env" "ranked env m rank" "parents_listed env m ids"
    and "c \<in> ids" and "rank c < fuel" and "load_inv D s" and "loaded env m ids s"
  shows "if chain_ok env m c
    then \<exists>l t. loadLayer env fuel c s = (Ret l, t) \<and> load_inv D t \<and> loaded env m ids t \<and>
      ls_layerMap t c = Some l \<and> ls_layerMap s \<subseteq>\<^sub>m ls_layerMap t \<and>
      (\<forall>x\<in>dom (ls_layerMap t). x \<in> dom (ls_layerMap s) \<or> rank x \<le> rank c)
    else \<exists>e. loadLayer env fuel c s = (Fail e, s)"
  using assms(4-)
proof (induction fuel arbitrary: c s)
  case 0
  then show ?case by simp
next
  case (Suc fuel)
  have m: "ls_store s = m" and inv: "load_inv D s" using Suc.prems by (auto simp: loaded_def)
  show ?case
  proof (cases "ls_layerMap s c")
    case (Some l)
    then have "chain_ok env m c" using Suc.prems(4) by (auto simp: loaded_def)
    with Some Suc.prems show ?thesis by (auto simp: go_defs)
  next
    case None
    note step = loadLayer_step [OF env(1) None, unfolded m]
    note ins = loaded_insert [OF _ _ _ _ _ _ _ _ None Suc.prems(1)]
    consider (none) "meta_parent env m c = None" | (base) "meta_parent env m c = Some ''''"
      | (parent) p where "meta_parent env m c = Some p" "p \<noteq> ''''" by fastforce
    then show ?thesis
    proof cases
      case none
      then show ?thesis using step(1) [OF none] by (auto elim: chain_ok.cases)
    next
      case base
      then have ok: "chain_ok env m c" by (rule chain_ok.base)
      from step(2) [OF base] obtain l where l: "loadLayer env (Suc fuel) c s = (Ret l, insertLoaded l s)"
        "ro_chainID l = c" "ro_addr l = ls_next s" "ro_parent l = None" by blast
      from ins [OF inv Suc.prems(4) map_le_refl _ l(2,3) ok] l ok show ?thesis by auto
    next
      case (parent p)
      have less: "rank p < rank c" using parent env(2) by (auto simp: ranked_def)
      then have p: "p \<in> ids" "rank p < fuel"
        using parent env(3) Suc.prems(1,2) by (auto simp: parents_listed_def)
      note IH = Suc.IH [OF p inv Suc.prems(4)]
      show ?thesis
      proof (cases "chain_ok env m p")
        case True
        with IH obtain q t where t: "loadLayer env fuel p s = (Ret q, t)" "load_inv D t" "loaded env m ids t"
          "ls_layerMap t p = Some q" "ls_layerMap s \<subseteq>\<^sub>m ls_layerMap t"
          "\<forall>x\<in>dom (ls_layerMap t). x \<in> dom (ls_layerMap s) \<or> rank x \<le> rank p" by auto
        have q: "ls_layerMap t (ro_chainID q) = Some q"
          using t(2,4) by (auto simp: load_inv_def ls_struct_def wf_layer_def)
        have ok: "chain_ok env m c" using parent True by (blast intro: chain_ok.step)
        from step(3) [OF parent t(1)] obtain l where l: "loadLayer env (Suc fuel) c s = (Ret l, insertLoaded l t)"
          "ro_chainID l = c" "ro_addr l = ls_next t" "ro_parent l = Some q" by blast
        have "\<forall>x\<in>dom (ls_layerMap t). x \<in> dom (ls_layerMap s) \<or> rank x < rank c"
          using t(6) less by (auto dest!: bspec)
        from ins [OF t(2,3,5) this l(2,3) ok] l q ok show ?thesis by auto
      next
        case False
        then have "\<not> chain_ok env m c" using parent by (auto elim: chain_ok.cases)
        then show ?thesis using IH False step(4) [OF parent] by auto
      qed
    qed
  qed
qed

text \<open>The turn of a layer in the list adds it to its parent's count.\<close>

lemma load_inv_incRef:
  assumes inv: "load_inv D s" and c: "ls_layerMap s c = Some l" "c \<notin> D"
  shows "load_inv (insert c D) (snd (incRef (ro_parent l) s)) \<and> fst (incRef (ro_parent l) s) = Ret () \<and>
    ls_layerMap (snd (incRef (ro_parent l) s)) = ls_layerMap s \<and> ls_store (snd (incRef (ro_parent l) s)) = ls_store s"
proof -
  have str: "ls_struct s" using inv by (simp add: load_inv_def)
  have fin: "finite (children s x \<inter> D)" for x
    using str by (auto simp: ls_struct_def children_def intro: finite_subset [of _ "dom (ls_layerMap s)"])
  have in_ch: "c \<in> children s x \<longleftrightarrow> ro_parent l = Some x" for x using c by (simp add: children_def)
  have cnt: "card (children s x \<inter> insert c D) =
      card (children s x \<inter> D) + (if ro_parent l = Some x then 1 else 0)" for x
    using c(2) fin [of x] in_ch [of x] by (simp add: Int_insert_right)
  show ?thesis
  proof (cases "ro_parent l")
    case None
    then show ?thesis using inv c cnt by (auto simp: incRef_def ret_def load_inv_def)
  next
    case (Some p)
    have p: "ls_layerMap s (ro_chainID p) = Some p"
      using str c(1) Some by (auto simp: ls_struct_def wf_layer_def)
    have uniq: "ro_addr x = ro_addr p \<longleftrightarrow> x = p" if "ls_layerMap s d = Some x" for d x
      using str that p unfolding ls_struct_def by blast
    have ch: "children (s\<lparr>ls_refCount := f\<rparr>) x = children s x" for f x by (simp add: children_def)
    have "ls_struct (s\<lparr>ls_refCount := f\<rparr>)" for f
      using str by (simp add: ls_struct_def wf_layer_def wf_mount_def)
    then show ?thesis
      using inv c cnt Some uniq by (auto simp: incRef_def modify_def load_inv_def ch)
  qed
qed

lemma loadLayers_spec:
  assumes env: "pure_getters env" "ranked env m rank" "parents_listed env m ids" "\<forall>c\<in>ids. rank c < fuel"
    and "set cs \<subseteq> ids" "distinct cs" "D \<inter> set cs = {}" "load_inv D s" "loaded env m ids s"
  shows "\<exists>t. loadLayers env fuel cs s = (Ret (), t) \<and> load_inv (D \<union> {c \<in> set cs. chain_ok env m c}) t \<and>
    loaded env m ids t"
  using assms(5-)
proof (induction cs arbitrary: D s)
  case Nil
  then show ?case by (simp add: ret_def)
next
  case (Cons c cs)
  have c: "c \<in> ids" "rank c < fuel" using Cons.prems(1) env(4) by auto
  note spec = loadLayer_spec [OF env(1-3) c Cons.prems(4,5)]
  let ?step = "ignore_err (seq (loadLayer env fuel c) (\<lambda>l. incRef (ro_parent l)))"
  have "\<exists>t. ?step s = (Ret (), t) \<and> load_inv (D \<union> (if chain_ok env m c then {c} else {})) t \<and> loaded env m ids t"
  proof (cases "chain_ok env m c")
    case True
    with spec obtain l t where t: "loadLayer env fuel c s = (Ret l, t)" "load_inv D t" "loaded env m ids t"
      "ls_layerMap t c = Some l" by auto
    have "c \<notin> D" using Cons.prems(3) by auto
    from load_inv_incRef [OF t(2,4) this] t True show ?thesis
      by (cases "incRef (ro_parent l) t") (auto simp: ignore_err_def seq_def loaded_def)
  next
    case False
    with spec Cons.prems(4,5) show ?thesis by (auto simp: ignore_err_def seq_def)
  qed
  then obtain t where t: "?step s = (Ret (), t)" "load_inv (D \<union> (if chain_ok env m c then {c} else {})) t" "loaded env m ids t"
    by blast
  have "\<exists>u. loadLayers env fuel cs t = (Ret (), u) \<and>
      load_inv (D \<union> (if chain_ok env m c then {c} else {}) \<union> {c \<in> set cs. chain_ok env m c}) u \<and> loaded env m ids u"
    using Cons.prems by (intro Cons.IH [OF _ _ _ t(2,3)]) auto
  moreover have "D \<union> (if chain_ok env m c then {c} else {}) \<union> {c \<in> set cs. chain_ok env m c} =
      D \<union> {x \<in> set (c # cs). chain_ok env m x}" by auto
  ultimately show ?case using t(1) by (auto simp: seq_def)
qed

lemma load_inv_done:
  assumes "load_inv D s" and "dom (ls_layerMap s) \<subseteq> D"
  shows "ls_inv (\<lambda>_. 0) s"
proof -
  have "children s l \<subseteq> D" for l using assms(2) by (auto simp: children_def)
  then have "children s l \<inter> D = children s l" for l by blast
  then show ?thesis
    using assms(1) by (auto simp: ls_inv_struct load_inv_def holders_def mountsOn_def)
qed

section \<open>Loading the mounts\<close>

definition mount_parents_listed :: "('d, 'm, 't) lenv \<Rightarrow> 'm \<Rightarrow> string set \<Rightarrow> string set \<Rightarrow> bool" where
  "mount_parents_listed env m mounts ids \<longleftrightarrow> (\<forall>n\<in>mounts. \<forall>p. fst (md_GetMountParent env n m) = Inr p \<and>
     p \<noteq> '''' \<longrightarrow> p \<in> ids)"

text \<open>All readable layers are in the map: loading one of them again finds it.\<close>

definition all_loaded :: "('d, 'm, 't) lenv \<Rightarrow> 'm \<Rightarrow> string set \<Rightarrow> ('d, 'm) layerStore \<Rightarrow> bool" where
  "all_loaded env m ids s \<longleftrightarrow> ls_store s = m \<and> dom (ls_layerMap s) = {c \<in> ids. chain_ok env m c}"

lemma loadLayer_all_loaded:
  assumes env: "pure_getters env" "ranked env m rank" "parents_listed env m ids"
    and "c \<in> ids" and "rank c < fuel" and "all_loaded env m ids s"
  shows "(\<exists>l. loadLayer env fuel c s = (Ret l, s) \<and> ls_layerMap s c = Some l) \<or> (\<exists>e. loadLayer env fuel c s = (Fail e, s))"
  using assms(4-)
proof (induction fuel arbitrary: c)
  case 0
  then show ?case by simp
next
  case (Suc fuel)
  have m: "ls_store s = m" using Suc.prems by (simp add: all_loaded_def)
  show ?case
  proof (cases "ls_layerMap s c")
    case (Some l)
    then show ?thesis by (simp add: go_defs)
  next
    case None
    then have bad: "\<not> chain_ok env m c" using Suc.prems by (auto simp: all_loaded_def)
    note step = loadLayer_step [OF env(1) None, unfolded m]
    show ?thesis
    proof (cases "meta_parent env m c")
      case None
      then show ?thesis using step(1) by blast
    next
      case (Some p)
      then have ne: "p \<noteq> ''''" using bad chain_ok.base by fastforce
      have "rank p < rank c" using Some ne env(2) by (auto simp: ranked_def)
      moreover have pi: "p \<in> ids" using Some ne env(3) Suc.prems(1) by (auto simp: parents_listed_def)
      ultimately have IH: "(\<exists>l. loadLayer env fuel p s = (Ret l, s) \<and> ls_layerMap s p = Some l) \<or>
          (\<exists>e. loadLayer env fuel p s = (Fail e, s))"
        using Suc.prems by (intro Suc.IH) auto
      have "\<not> chain_ok env m p" using chain_ok.step [OF Some ne] bad by blast
      then have "ls_layerMap s p = None" using Suc.prems(3) by (auto simp: all_loaded_def)
      then show ?thesis using IH step(4) [OF Some ne] by auto
    qed
  qed
qed

lemma loadMount_spec:
  assumes env: "pure_getters env" "ranked env m rank" "parents_listed env m ids" "\<forall>c\<in>ids. rank c < fuel"
    and n: "mount_parents_listed env m {n} ids"
    and inv: "ls_inv (\<lambda>_. 0) s" and s: "all_loaded env m ids s"
  shows "\<exists>t. ignore_err (loadMount env fuel n) s = (Ret (), t) \<and> ls_inv (\<lambda>_. 0) t \<and> all_loaded env m ids t \<and>
    ls_layerMap t = ls_layerMap s"
proof (cases "ls_mounts s n")
  case (Some x)
  then show ?thesis using inv s by (auto simp: loadMount_def go_defs)
next
  case None
  have m: "ls_store s = m" using s by (simp add: all_loaded_def)
  let ?m = "\<lambda>mid iid p. \<lparr>ml_name = n, ml_mountID = mid, ml_initID = iid, ml_parent = p, ml_references = {}\<rparr>"
  have add: "ls_inv (\<lambda>_. 0) (u\<lparr>ls_mounts := (ls_mounts u)(n \<mapsto> ?m mid iid p)\<rparr>)"
    if "ls_inv (retain_opt p (\<lambda>_. 0)) u" "ls_mounts u n = None" for p u mid iid
    using that ls_inv_addMount [of "?m mid iid p" "\<lambda>_. 0" u] by simp
  have inc: "ls_inv (retain_opt (Some l) (\<lambda>_. 0))
      (s\<lparr>ls_refCount := (ls_refCount s)(ro_addr l := Suc (ls_refCount s (ro_addr l)))\<rparr>)"
    if "ls_layerMap s p = Some l" for p l
    using ls_inv_retain [OF inv that] by (simp add: retain_opt_def)
  have load: "(\<exists>l. loadLayer env fuel p s = (Ret l, s) \<and> ls_layerMap s p = Some l) \<or>
      (\<exists>e. loadLayer env fuel p s = (Fail e, s))" if "fst (md_GetMountParent env n m) = Inr p" "p \<noteq> ''''" for p
    using loadLayer_all_loaded [OF env(1-3) _ _ s, of p fuel] that n env(4) by (auto simp: mount_parents_listed_def)
  have get: "on_store (md_GetMountID env n) s = (case fst (md_GetMountID env n m) of
        Inl msg \<Rightarrow> (Fail (ErrBackend msg), s) | Inr x \<Rightarrow> (Ret x, s))"
      "on_store (md_GetInitID env n) s = (case fst (md_GetInitID env n m) of
        Inl msg \<Rightarrow> (Fail (ErrBackend msg), s) | Inr x \<Rightarrow> (Ret x, s))"
      "on_store (md_GetMountParent env n) s = (case fst (md_GetMountParent env n m) of
        Inl msg \<Rightarrow> (Fail (ErrBackend msg), s) | Inr x \<Rightarrow> (Ret x, s))"
    using env(1) by (simp_all add: pure_getters_def on_store_pure m)
  note ex = ignore_err_def loadMount_def seq_def gets_def modify_def ret_def incRef_def get None all_loaded_def retain_opt_def
  show ?thesis
  proof (cases "fst (md_GetMountParent env n m)")
    case (Inr p)
    show ?thesis
    proof (cases "p = ''''")
      case True
      then show ?thesis using add [of None s] inv s Inr None by (auto simp: ex split: sum.splits)
    next
      case False
      from load [OF Inr False] show ?thesis
      proof (elim disjE exE conjE)
        fix l assume l: "loadLayer env fuel p s = (Ret l, s)" "ls_layerMap s p = Some l"
        then show ?thesis using add [OF inc [OF l(2)]] inv s Inr False by (auto simp: ex split: sum.splits)
      qed (use inv s Inr False in \<open>auto simp: ex split: sum.splits\<close>)
    qed
  qed (use inv s in \<open>auto simp: ex split: sum.splits\<close>)
qed

lemma loadMounts_spec:
  assumes env: "pure_getters env" "ranked env m rank" "parents_listed env m ids" "\<forall>c\<in>ids. rank c < fuel"
    and "mount_parents_listed env m (set ns) ids" and "ls_inv (\<lambda>_. 0) s" and "all_loaded env m ids s"
  shows "\<exists>t. loadMounts env fuel ns s = (Ret (), t) \<and> ls_inv (\<lambda>_. 0) t \<and> ls_layerMap t = ls_layerMap s"
  using assms(5-)
proof (induction ns arbitrary: s)
  case (Cons n ns)
  have "mount_parents_listed env m {n} ids" "mount_parents_listed env m (set ns) ids"
    using Cons.prems(1) by (auto simp: mount_parents_listed_def)
  with Cons loadMount_spec [OF env, of n s] obtain t
    where "ignore_err (loadMount env fuel n) s = (Ret (), t)" "ls_inv (\<lambda>_. 0) t" "all_loaded env m ids t"
      "ls_layerMap t = ls_layerMap s" by auto
  with Cons.IH [of t] \<open>mount_parents_listed env m (set ns) ids\<close> show ?case by (auto simp: seq_def)
qed (simp add: ret_def)

end
