(* ===== verification/LayerStoreProps.thy ===== *)
theory LayerStoreProps
  imports LayerStoreLoad
begin

text \<open>
  The properties of the layer store: sequences of calls on it, what a release removes, the
  content addresses and the depth of the layers it holds, and the store that a restart gives.
\<close>

section \<open>Sequences of calls\<close>

datatype lsOp =
    OpRegister string string Descriptor string
  | OpGet string
  | OpRelease layerRef
  | OpCreateRWLayer string string string "(string \<Rightarrow> string option) option" "string \<rightharpoonup> string" string
  | OpGetRWLayer string
  | OpGetMountID string
  | OpReleaseRWLayer rwRef

datatype lsVal = VLayer layerRef | VRW rwRef | VMetadata "Metadata list" | VMountID string

fun lsStep :: "('d, 'm, 't) lenv \<Rightarrow> lsOp \<Rightarrow> ('d, 'm, lsVal) lsM" where
  "lsStep env (OpRegister ts parent descriptor cacheID) =
     seq (registerWithDescriptor env ts parent descriptor cacheID) (\<lambda>r. ret (VLayer r))"
| "lsStep env (OpGet c) = seq (Get c) (\<lambda>r. ret (VLayer r))"
| "lsStep env (OpRelease r) = seq (Release env r) (\<lambda>m. ret (VMetadata m))"
| "lsStep env (OpCreateRWLayer name parent label f opts mountID) =
     seq (CreateRWLayer env name parent label f opts mountID) (\<lambda>r. ret (VRW r))"
| "lsStep env (OpGetRWLayer name) = seq (GetRWLayer name) (\<lambda>r. ret (VRW r))"
| "lsStep env (OpGetMountID name) = seq (GetMountID name) (\<lambda>r. ret (VMountID r))"
| "lsStep env (OpReleaseRWLayer r) = seq (ReleaseRWLayer env r) (\<lambda>m. ret (VMetadata m))"

lemma GetMountID_inv: "triple (ls_inv pend) (GetMountID n) (\<lambda>_. ls_inv pend) (\<lambda>_. ls_inv pend)"
  unfolding GetMountID_def by (rule triple_gets) (auto intro!: triple_option triple_ret triple_fail)

lemma lsStep_inv: "triple (ls_inv pend) (lsStep env op) (\<lambda>_. ls_inv pend) (\<lambda>_. ls_inv pend)"
  by (cases op)
    (auto intro!: triple_ret triple_seq [OF registerWithDescriptor_inv] triple_seq [OF Get_inv]
       triple_seq [OF Release_inv] triple_seq [OF CreateRWLayer_inv] triple_seq [OF GetRWLayer_inv]
       triple_seq [OF GetMountID_inv] triple_seq [OF ReleaseRWLayer_inv])

interpretation layer_service: go_service "lsStep env" "ls_inv pend"
  by unfold_locales (rule lsStep_inv)

lemma emptyStore_inv: "ls_inv (\<lambda>_. 0) (emptyStore d m)"
  by (rule ls_invI) (auto simp: emptyStore_def)

section \<open>Properties of every layer a store holds\<close>

definition all_layers :: "(roLayer \<Rightarrow> bool) \<Rightarrow> ('d, 'm) layerStore \<Rightarrow> bool" where
  "all_layers Q ls \<longleftrightarrow> (\<forall>c l. ls_layerMap ls c = Some l \<longrightarrow> c = ro_chainID l \<and> Q l)"

text \<open>
  \<open>inherited env Q\<close>: a base layer made from any stream has \<open>Q\<close>, and so has a layer made on a
  parent that has \<open>Q\<close> and is below the depth limit.
\<close>

definition inherited :: "('d, 'm, 't) lenv \<Rightarrow> (roLayer \<Rightarrow> bool) \<Rightarrow> bool" where
  "inherited env Q \<longleftrightarrow> (\<forall>a k desc sz ts p.
     (\<forall>l. p = Some l \<longrightarrow> Q l \<and> depth l < maxLayerDepth) \<longrightarrow>
     Q (mkLayer env a p k desc sz (digest_FromBytes env ts)))"

lemma all_layers_cong: "ls_layerMap t = ls_layerMap s \<Longrightarrow> all_layers Q t = all_layers Q s"
  by (simp add: all_layers_def)

lemma all_layers_simps [simp]:
  "all_layers Q (s\<lparr>ls_driver := d\<rparr>) = all_layers Q s"
  "all_layers Q (s\<lparr>ls_store := m\<rparr>) = all_layers Q s"
  "all_layers Q (s\<lparr>ls_refCount := x\<rparr>) = all_layers Q s"
  "all_layers Q (s\<lparr>ls_refs := y\<rparr>) = all_layers Q s"
  "all_layers Q (s\<lparr>ls_next := n\<rparr>) = all_layers Q s"
  "all_layers Q (s\<lparr>ls_mounts := z\<rparr>) = all_layers Q s"
  by (simp_all add: all_layers_def)

lemma all_layers_delete: "all_layers Q s \<Longrightarrow> all_layers Q (s\<lparr>ls_layerMap := (ls_layerMap s)(c := None)\<rparr>)"
  by (simp add: all_layers_def)

lemma all_layers_insert:
  "all_layers Q s \<Longrightarrow> Q l \<Longrightarrow> all_layers Q (s\<lparr>ls_layerMap := (ls_layerMap s)(ro_chainID l \<mapsto> l)\<rparr>)"
  by (simp add: all_layers_def)

lemma ens_on_driver [ens_intros]: "(\<And>x. R x) \<Longrightarrow> ens (all_layers Q) (on_driver f) R"
  unfolding on_driver_def by (rule ens_call) simp_all

lemma ens_on_store [ens_intros]: "(\<And>x. R x) \<Longrightarrow> ens (all_layers Q) (on_store f) R"
  unfolding on_store_def by (rule ens_call) simp_all

lemma ens_getWithoutLock:
  "ens (all_layers Q) (getWithoutLock c) (\<lambda>r. \<forall>l. r = Some l \<longrightarrow> Q l \<and> ro_chainID l = c)"
  unfolding getWithoutLock_def
  by (rule ens_seq [of _ _ "\<lambda>r. \<forall>l. r = Some l \<longrightarrow> Q l \<and> ro_chainID l = c"])
    (auto intro!: ens_intros ens_gets ens_seq [of _ _ "\<lambda>_. True"] ens_modify simp: all_layers_def)

lemmas ens_step = ens_seq [of _ _ "\<lambda>_. True"]

lemma ens_getReference: "R (LayerRef 0 l) \<Longrightarrow> (\<And>n. R (LayerRef n l)) \<Longrightarrow> ens (all_layers Q) (getReference l) R"
  unfolding getReference_def by (auto intro!: ens_intros ens_step ens_gets ens_modify)

lemma ens_Get: "ens (all_layers Q) (Get c) (\<lambda>r. Q (lr_layer r) \<and> ro_chainID (lr_layer r) = c)"
  unfolding Get_def by (rule ens_seq [OF ens_getWithoutLock]) (auto intro!: ens_intros ens_getReference)

lemma ens_releaseLoop: "ens (all_layers Q) (releaseLoop env dep removed l) (\<lambda>_. True)"
proof (induction l arbitrary: dep removed)
  case (RoLayer a c d k sz desc parent)
  then show ?case
    by (cases parent)
      (auto simp: deleteLayer_def seq_assoc
        intro!: ens_intros ens_step ens_gets ens_modify all_layers_delete)
qed

lemma ens_releaseLayer: "ens (all_layers Q) (releaseLayer env l) (\<lambda>_. True)"
  unfolding releaseLayer_def by (rule ens_releaseLoop)

lemma ens_Release: "ens (all_layers Q) (Release env l) (\<lambda>_. True)"
  unfolding Release_def
  by (auto intro!: ens_intros ens_step ens_gets ens_modify ens_releaseLayer simp: deleteReference_def)

lemma ens_retainParent:
  "ens (all_layers Q) (retainParent c)
     (\<lambda>p. (c = '''' \<longrightarrow> p = None) \<and> (c \<noteq> '''' \<longrightarrow> (\<exists>l. p = Some l \<and> Q l \<and> ro_chainID l = c)))"
  unfolding retainParent_def
  by (auto intro!: ens_intros ens_seq [OF ens_getWithoutLock])

lemma ens_releaseParent: "ens (all_layers Q) (releaseParent env p) (\<lambda>_. True)"
  unfolding releaseParent_def by (auto intro!: ens_intros ens_ignore_err ens_releaseLayer)

lemma ens_applyTar: "ens (all_layers Q) (applyTar env tx ts pid k) (\<lambda>r. snd r = digest_FromBytes env ts)"
  unfolding applyTar_def by (auto intro!: ens_intros ens_step ens_ignore_err ens_defer_err)

lemma ens_storeLayer: "ens (all_layers Q) (storeLayer env tx l) (\<lambda>_. True)"
  unfolding storeLayer_def by (auto intro!: ens_intros ens_step)

lemma ens_publishLayer:
  assumes "Q l"
  shows "ens (all_layers Q) (publishLayer env tx l)
    (\<lambda>r. Q (lr_layer (fst r)) \<and> ro_chainID (lr_layer (fst r)) = ro_chainID l)"
  unfolding publishLayer_def
  by (rule ens_seq [OF ens_getWithoutLock])
    (auto intro!: ens_intros ens_step [OF ens_on_store] ens_step [OF ens_modify] all_layers_insert assms
       ens_seq [OF ens_getReference [where R = "\<lambda>r. lr_layer r = _"]])

lemma ens_registerBody:
  assumes Q: "inherited env Q" and p: "\<forall>l. p = Some l \<longrightarrow> Q l"
  shows "ens (all_layers Q) (registerBody env ts p desc k) (\<lambda>r. Q (lr_layer (fst r)) \<and>
    ro_chainID (lr_layer (fst r)) = ro_chainID (mkLayer env 0 p k desc 0 (digest_FromBytes env ts)))"
proof -
  have Q': "Q (mkLayer env a p k desc sz (digest_FromBytes env ts))"
    if "\<not> (case p of None \<Rightarrow> False | Some l \<Rightarrow> depth l \<ge> maxLayerDepth)" for a sz
    using Q p that unfolding inherited_def by (auto split: option.splits)
  have cid: "ro_chainID (mkLayer env a p k desc sz x) = ro_chainID (mkLayer env 0 p k desc 0 x)" for a sz x
    by (simp add: mkLayer_def)
  have clean: "ens (all_layers Q) (seq (ignore_err (on_driver f)) (\<lambda>_. ignore_err (on_store g))) (\<lambda>_. True)" for f g
    by (intro ens_step [OF ens_ignore_err] ens_ignore_err ens_on_driver ens_on_store TrueI)
  have alloc: "ens (all_layers Q) allocLayer (\<lambda>_. True)"
    unfolding allocLayer_def by (auto intro!: ens_ret ens_step ens_gets ens_modify)
  have body: "ens (all_layers Q)
      (seq (applyTar env tx ts pid k) (\<lambda>(sz, diffID). let layer = mkLayer env a p k desc sz diffID in
         seq (storeLayer env tx layer) (\<lambda>_. publishLayer env tx layer)))
      (\<lambda>r. Q (lr_layer (fst r)) \<and>
        ro_chainID (lr_layer (fst r)) = ro_chainID (mkLayer env 0 p k desc 0 (digest_FromBytes env ts)))"
    if "\<not> (case p of None \<Rightarrow> False | Some l \<Rightarrow> depth l \<ge> maxLayerDepth)" for a tx pid
    unfolding Let_def
    by (rule ens_seq [OF ens_applyTar], rule ens_prod, rule ens_seq [OF ens_storeLayer],
        rule ens_weaken [OF ens_publishLayer]) (use Q' [OF that] cid in auto)
  show ?thesis
    unfolding registerBody_def Let_def
    by (rule ens_if, rule ens_fail, rule ens_seq [OF alloc], rule ens_step [OF ens_on_driver], simp,
        rule ens_step [OF ens_on_store], simp, rule ens_defer_set [OF clean],
        rule body [unfolded Let_def]) simp
qed

lemma ens_registerWithDescriptor:
  assumes "inherited env Q"
  shows "ens (all_layers Q) (registerWithDescriptor env ts parent desc k) (\<lambda>r. Q (lr_layer r) \<and>
    ro_chainID (lr_layer r) = createChainIDFromParent (digest_FromBytes env) parent [digest_FromBytes env ts])"
  unfolding registerWithDescriptor_def
proof (rule ens_seq [OF ens_retainParent])
  fix p :: "roLayer option"
  assume p: "(parent = '''' \<longrightarrow> p = None) \<and> (parent \<noteq> '''' \<longrightarrow> (\<exists>l. p = Some l \<and> Q l \<and> ro_chainID l = parent))"
  then have "\<forall>l. p = Some l \<longrightarrow> Q l" by auto
  note body = ens_defer_set [OF ens_releaseParent ens_registerBody [OF assms this]]
  show "ens (all_layers Q)
      (seq (defer_set (releaseParent env p) (registerBody env ts p desc k)) (\<lambda>(r, _). ret r)) (\<lambda>r. Q (lr_layer r) \<and>
    ro_chainID (lr_layer r) = createChainIDFromParent (digest_FromBytes env) parent [digest_FromBytes env ts])"
    by (rule ens_seq [OF body]) (use p in \<open>auto intro!: ens_intros simp: mkLayer_def\<close>)
qed

lemma ens_saveMount: "ens (all_layers Q) (saveMount env m) (\<lambda>_. True)"
  unfolding saveMount_def by (auto intro!: ens_intros ens_step ens_modify)

lemma ens_ml_getReference: "ens (all_layers Q) (ml_getReference n m) (\<lambda>_. True)"
  unfolding ml_getReference_def by (auto intro!: ens_intros ens_step ens_gets ens_modify)

lemma ens_initMount: "ens (all_layers Q) (initMount env g p label f opts) (\<lambda>_. True)"
  unfolding initMount_def Let_def by (auto intro!: ens_intros ens_step ens_ignore_err)

lemma ens_createRWBody: "ens (all_layers Q) (createRWBody env n p label f opts k) (\<lambda>_. True)"
  unfolding createRWBody_def Let_def
  by (auto intro!: ens_intros ens_step ens_saveMount ens_ml_getReference ens_initMount)

lemma ens_CreateRWLayer: "ens (all_layers Q) (CreateRWLayer env n parent label f opts k) (\<lambda>_. True)"
  unfolding CreateRWLayer_def
  by (auto intro!: ens_intros ens_step ens_gets ens_weaken [OF ens_retainParent] ens_defer_err
       ens_releaseParent ens_createRWBody)

lemma ens_GetRWLayer: "ens (all_layers Q) (GetRWLayer n) (\<lambda>_. True)"
  unfolding GetRWLayer_def by (auto intro!: ens_intros ens_step ens_gets ens_ml_getReference)

lemma ens_GetMountID: "ens (all_layers Q) (GetMountID n) (\<lambda>_. True)"
  unfolding GetMountID_def by (auto intro!: ens_intros ens_step ens_gets)

lemma ens_ReleaseRWLayer: "ens (all_layers Q) (ReleaseRWLayer env r) (\<lambda>_. True)"
  unfolding ReleaseRWLayer_def
  by (auto intro!: ens_intros ens_step ens_gets ens_modify ens_defer_err ens_releaseLayer
       simp: setMount_def retakeReference_def split: option.split)

lemma ens_True: "ens I m R \<Longrightarrow> ens I (seq m (\<lambda>x. ret (f x))) (\<lambda>_. True)"
  by (erule ens_seq) (rule ens_ret, simp)

lemma ens_lsStep: "inherited env Q \<Longrightarrow> ens (all_layers Q) (lsStep env op) (\<lambda>_. True)"
  by (cases op)
    (simp_all add: ens_True [OF ens_registerWithDescriptor] ens_True [OF ens_Get] ens_True [OF ens_Release]
      ens_True [OF ens_CreateRWLayer] ens_True [OF ens_GetRWLayer] ens_True [OF ens_ReleaseRWLayer]
      ens_True [OF ens_GetMountID])

section \<open>What a release removes\<close>

fun chain :: "roLayer \<Rightarrow> roLayer list" where
  "chain (RoLayer a c d k sz desc None) = [RoLayer a c d k sz desc None]"
| "chain (RoLayer a c d k sz desc (Some p)) = RoLayer a c d k sz desc (Some p) # chain p"

definition layerMetadata :: "roLayer \<Rightarrow> Metadata" where
  "layerMetadata l = \<lparr>m_ChainID = ro_chainID l, m_DiffID = ro_diffID l, m_Size = Size l, m_DiffSize = ro_size l\<rparr>"

definition same_tables :: "('d, 'm) layerStore \<Rightarrow> ('d, 'm) layerStore \<Rightarrow> bool" where
  "same_tables s t \<longleftrightarrow> ls_refs t = ls_refs s \<and> ls_mounts t = ls_mounts s \<and> ls_next t = ls_next s"

lemma length_chain: "length (chain l) = depth l"
  by (induction l rule: chain.induct) simp_all

lemma chain_eq: "chain l = l # (case ro_parent l of None \<Rightarrow> [] | Some p \<Rightarrow> chain p)"
  by (cases l; cases "ro_parent l") auto

lemma size_chain: "y \<in> set (chain l) \<Longrightarrow> size y \<le> size l"
  by (induction l rule: chain.induct) auto

lemma inv_chain:
  assumes inv: "ls_inv pend s"
  shows "ls_layerMap s c = Some l \<Longrightarrow> y \<in> set (chain l) \<Longrightarrow> ls_layerMap s (ro_chainID y) = Some y"
proof (induction l arbitrary: c rule: chain.induct)
  case (1 a c d k sz desc)
  then show ?case using inv_chainID [OF inv "1.prems"(1)] by simp
next
  case (2 a c' d k sz desc p)
  have "ls_layerMap s (ro_chainID p) = Some p" using inv_layer [OF inv "2.prems"(1)] by (simp add: wf_layer_def)
  then show ?case using 2 inv_chainID [OF inv "2.prems"(1)] by auto
qed

lemma inv_chain_addr: "ls_inv pend s \<Longrightarrow> ls_layerMap s c = Some l \<Longrightarrow> inj_on ro_addr (set (chain l))"
  unfolding inj_on_def by (blast intro: inv_addr inv_chain)

lemma deleteLayer_cases:
  obtains e u where "deleteLayer env l s = (Fail e, u)" "ls_layerMap u = ls_layerMap s" "ls_refCount u = ls_refCount s"
      "same_tables s u"
    | u where "deleteLayer env l s = (Ret (layerMetadata l), u)" "ls_layerMap u = ls_layerMap s"
      "ls_refCount u = ls_refCount s" "same_tables s u"
proof (cases "deleteLayer env l s")
  case (Pair r u)
  then have "(\<exists>e. r = Fail e) \<or> r = Ret (layerMetadata l)" "ls_layerMap u = ls_layerMap s"
    "ls_refCount u = ls_refCount s" "same_tables s u"
    by (auto simp: deleteLayer_def go_defs on_driver_def on_store_def call_def layerMetadata_def same_tables_def
        split: prod.splits sum.splits)
  with Pair that show ?thesis by blast
qed

text \<open>The prefix of the chain that a run of the loop takes out of the table.\<close>

definition removes :: "nat \<Rightarrow> roLayer \<Rightarrow> ('d, 'm) layerStore \<Rightarrow> ('d, 'm) layerStore \<Rightarrow> bool" where
  "removes k l s t \<longleftrightarrow> k \<le> depth l \<and> same_tables s t \<and>
     ls_layerMap t = ls_layerMap s |` (- set (map ro_chainID (take k (chain l)))) \<and>
     (\<forall>y\<in>set (take k (chain l)). ls_refs s (ro_addr y) = {} \<and> ls_refCount s (ro_addr y) = 1)"

lemma removes_0: "same_tables s t \<Longrightarrow> ls_layerMap t = ls_layerMap s \<Longrightarrow> removes 0 l s t"
  by (simp add: removes_def restrict_map_def fun_eq_iff)

lemma removes_Suc:
  assumes "ro_parent l = Some p" and "removes k p u t" and "same_tables s u"
    and "ls_layerMap u = (ls_layerMap s)(ro_chainID l := None)"
    and "\<And>y. y \<in> set (chain p) \<Longrightarrow> ls_refCount u (ro_addr y) = ls_refCount s (ro_addr y)"
    and "ls_refs s (ro_addr l) = {}" and "ls_refCount s (ro_addr l) = 1"
  shows "removes (Suc k) l s t"
proof -
  have "set (take k (chain p)) \<subseteq> set (chain p)" by (rule set_take_subset)
  moreover have "m(x := None) |` (- A) = m |` (- insert x A)" for m :: "string \<rightharpoonup> roLayer" and x A
    by (auto simp: restrict_map_def fun_eq_iff)
  ultimately show ?thesis using assms chain_eq [of l] length_chain [of l] length_chain [of p]
    by (auto simp: removes_def same_tables_def subset_eq)
qed

lemma removes_last:
  assumes "ro_parent l = None" and "same_tables s t"
    and "ls_layerMap t = (ls_layerMap s)(ro_chainID l := None)"
    and "ls_refs s (ro_addr l) = {}" and "ls_refCount s (ro_addr l) = 1"
  shows "removes 1 l s t"
  using assms chain_eq [of l] length_chain [of l]
  by (auto simp: removes_def same_tables_def restrict_map_def fun_eq_iff)

text \<open>Removing the top of a chain leaves the rest of it as it was.\<close>

lemma chain_parent:
  assumes "ro_parent l = Some p" and "\<forall>y\<in>set (chain l). ls_layerMap s (ro_chainID y) = Some y"
    and "inj_on ro_addr (set (chain l))" and "ls_layerMap u = (ls_layerMap s)(ro_chainID l := None)"
    and "ls_refCount u = (ls_refCount s)(ro_addr l := n)"
  shows "\<forall>y\<in>set (chain p). ls_layerMap u (ro_chainID y) = Some y"
    and "\<forall>y\<in>set (chain p). ls_refCount u (ro_addr y) = ls_refCount s (ro_addr y)" and "inj_on ro_addr (set (chain p))"
proof -
  have c: "set (chain l) = insert l (set (chain p))" using chain_eq [of l] assms(1) by simp
  have "l \<notin> set (chain p)" using size_chain [of l p] assms(1) by (cases l) auto
  then show "\<forall>y\<in>set (chain p). ls_layerMap u (ro_chainID y) = Some y"
    using assms(2,4) c by (metis fun_upd_other insertCI option.inject)
  show "\<forall>y\<in>set (chain p). ls_refCount u (ro_addr y) = ls_refCount s (ro_addr y)"
    using assms(3,5) c \<open>l \<notin> set (chain p)\<close> by (auto simp: inj_on_def)
  show "inj_on ro_addr (set (chain p))" using assms(3) c by (auto intro: inj_on_subset)
qed

lemma releaseLoop_spec:
  assumes "\<forall>y\<in>set (chain l). ls_layerMap s (ro_chainID y) = Some y" and "inj_on ro_addr (set (chain l))"
    and "releaseLoop env dep removed l s = (r, t)"
  shows "\<exists>k. removes k l s t \<and> (\<forall>ms. r = Ret ms \<longrightarrow> ms = removed @ map layerMetadata (take k (chain l)) \<and>
    (k < depth l \<longrightarrow> 1 < ls_refCount s (ro_addr (chain l ! k))))"
  using assms
proof (induction l arbitrary: dep removed s r t)
  case (RoLayer a c d k sz desc parent)
  let ?l = "RoLayer a c d k sz desc parent" and ?n = "ls_refCount s a"
  let ?s = "s\<lparr>ls_refCount := (ls_refCount s)(a := ?n - 1)\<rparr>"
  have same: "same_tables s ?s" "ls_layerMap ?s = ls_layerMap s" by (simp_all add: same_tables_def)
  have ch: "chain ?l ! 0 = ?l" by (subst chain_eq) simp
  note run = RoLayer.prems(3) [symmetric]
  consider "?n = 0" | "?n > 1" | "?n = 1" "removed = [] \<and> dep > 0" | "?n = 1" "ls_refs s a \<noteq> {}"
    | (del) "?n = 1" "\<not> (removed = [] \<and> dep > 0)" "ls_refs s a = {}" by linarith
  then show ?case
  proof cases
    case del
    note step = run del hasReferences_def gets_def modify_def seq_def
    show ?thesis
    proof (cases rule: deleteLayer_cases [of env ?l ?s])
      case (1 e u)
      then have "(r, t) = (Fail e, u)" using 1 by (simp add: step)
      with 1 same show ?thesis by (auto intro!: exI [of _ 0] removes_0 simp: same_tables_def)
    next
      case (2 u)
      let ?u = "u\<lparr>ls_layerMap := (ls_layerMap u)(c := None)\<rparr>"
      have u: "same_tables s ?u" "ls_layerMap ?u = (ls_layerMap s)(c := None)"
        using 2 by (simp_all add: same_tables_def)
      show ?thesis
      proof (cases parent)
        case None
        then have "(r, t) = (Ret (removed @ [layerMetadata ?l]), ?u)" using 2 by (simp add: step ret_def)
        moreover have "removes 1 ?l s ?u" by (rule removes_last) (use u None del in simp_all)
        ultimately show ?thesis using None by (auto intro!: exI [of _ 1])
      next
        case (Some p)
        then have r: "releaseLoop env (dep + 1) (removed @ [layerMetadata ?l]) p ?u = (r, t)"
          using 2 by (simp add: step)
        have cp: "ro_parent ?l = Some p" "ls_layerMap ?u = (ls_layerMap s)(ro_chainID ?l := None)"
          "ls_refCount ?u = (ls_refCount s)(ro_addr ?l := ?n - 1)" using Some u(2) 2 by simp_all
        note keep = chain_parent [OF cp(1) RoLayer.prems(1,2) cp(2,3)]
        have cnt: "ls_refCount ?u (ro_addr y) = ls_refCount s (ro_addr y)" if "y \<in> set (chain p)" for y
          using keep(2) that by blast
        obtain j where j: "removes j p ?u t" "\<forall>ms. r = Ret ms \<longrightarrow>
            ms = (removed @ [layerMetadata ?l]) @ map layerMetadata (take j (chain p)) \<and>
            (j < depth p \<longrightarrow> 1 < ls_refCount ?u (ro_addr (chain p ! j)))"
          using RoLayer.IH [OF _ keep(1,3) r] Some by auto
        have "removes (Suc j) ?l s t"
          by (rule removes_Suc [OF _ j(1) u(1)]) (use u cnt Some del in simp_all)
        moreover have "j < depth p \<Longrightarrow> chain p ! j \<in> set (chain p)" by (simp add: length_chain)
        ultimately show ?thesis using j(2) Some cnt by (auto intro!: exI [of _ "Suc j"])
      qed
    qed
  qed (use same ch RoLayer.prems(3) in \<open>auto intro!: exI [of _ 0] removes_0
      simp: gets_def modify_def seq_def gopanic_def ret_def hasReferences_def same_tables_def split: if_splits\<close>)
qed

lemma releaseLayer_spec:
  assumes "ls_inv pend s" and "ls_layerMap s c = Some l" and "releaseLayer env l s = (r, t)"
  shows "\<exists>k. removes k l s t \<and> (\<forall>ms. r = Ret ms \<longrightarrow> ms = map layerMetadata (take k (chain l)) \<and>
    (k < depth l \<longrightarrow> 1 < ls_refCount s (ro_addr (chain l ! k))))"
  using releaseLoop_spec [of l s env 0 "[]" r t] inv_chain [OF assms(1,2)] inv_chain_addr [OF assms(1,2)] assms(3)
  by (simp add: releaseLayer_def)

text \<open>A layer with a reference stays in the table whatever is released.\<close>

lemma removes_held:
  assumes "ls_inv pend s" and "ls_layerMap s c = Some l" and "removes k l s t" and "held r s"
  shows "held r t"
proof -
  have "ro_chainID (lr_layer r) \<notin> ro_chainID ` set (take k (chain l))"
  proof
    assume "ro_chainID (lr_layer r) \<in> ro_chainID ` set (take k (chain l))"
    then obtain y where "y \<in> set (take k (chain l))" "ro_chainID (lr_layer r) = ro_chainID y" by blast
    then show False using inv_chain [OF assms(1,2), of y] assms(3,4) in_set_takeD [of y k "chain l"]
      by (auto simp: held_def removes_def)
  qed
  then show ?thesis using assms(3,4) by (auto simp: held_def removes_def same_tables_def)
qed

lemma releaseLayer_held:
  assumes "ls_inv pend s" and "ls_layerMap s c = Some l" and "held r s"
  shows "held r (snd (releaseLayer env l s))"
  using releaseLayer_spec [OF assms(1,2)] removes_held [OF assms(1,2) _ assms(3)] by (metis prod.collapse)

section \<open>Content addresses and depth\<close>

text \<open>A layer whose chain IDs, and those of its ancestors, are computed from digests of streams.\<close>

fun addressed :: "(string \<Rightarrow> string) \<Rightarrow> roLayer \<Rightarrow> bool" where
  "addressed h (RoLayer a c d k sz desc None) \<longleftrightarrow> c = d \<and> d \<in> range h"
| "addressed h (RoLayer a c d k sz desc (Some p)) \<longleftrightarrow>
     c = createChainIDFromParent h (ro_chainID p) [d] \<and> d \<in> range h \<and> addressed h p"

lemma inherited_addressed: "inherited env (addressed (digest_FromBytes env))"
  by (auto simp: inherited_def mkLayer_def split: option.splits)

lemma inherited_depth: "inherited env (\<lambda>l. depth l \<le> maxLayerDepth)"
  by (auto simp: inherited_def mkLayer_def maxLayerDepth_def split: option.splits)

interpretation layer_depth: go_keeps "lsStep env" "all_layers (\<lambda>l. depth l \<le> maxLayerDepth)"
  by unfold_locales (rule ens_lsStep [OF inherited_depth])

interpretation layer_address: go_keeps "lsStep env" "all_layers (addressed (digest_FromBytes env))"
  by unfold_locales (rule ens_lsStep [OF inherited_addressed])

lemma emptyStore_all_layers: "all_layers Q (emptyStore d m)"
  by (simp add: all_layers_def emptyStore_def)

lemma createChainIDFromParent_snoc:
  assumes "\<And>x. h x \<noteq> ''''" and "c \<noteq> ''''"
  shows "createChainIDFromParent h c (ds @ [d]) = h (createChainIDFromParent h c ds @ '' '' @ d)"
  using assms(2) by (induction ds arbitrary: c) (simp_all add: assms(1))

lemma addressed_diffID: "addressed h l \<Longrightarrow> set (map ro_diffID (rev (chain l))) \<subseteq> range h"
  by (induction l rule: chain.induct) auto

lemma addressed_chainID:
  assumes h: "\<And>x. h x \<noteq> ''''"
  shows "addressed h l \<Longrightarrow> ro_chainID l \<noteq> '''' \<and> ro_chainID l = CreateChainID h (map ro_diffID (rev (chain l)))"
proof (induction l rule: chain.induct)
  case (2 a c d k sz desc p)
  then have p: "ro_chainID p \<noteq> ''''" "ro_chainID p = CreateChainID h (map ro_diffID (rev (chain p)))" by auto
  have "chain p \<noteq> []" by (subst chain_eq) simp
  then obtain e es where es: "map ro_diffID (rev (chain p)) = e # es"
    by (cases "map ro_diffID (rev (chain p))") auto
  have "e \<in> range h" using 2(2) addressed_diffID [of h p] es by auto
  then have "e \<noteq> ''''" using h by auto
  then have "CreateChainID h ((e # es) @ [d]) = h (CreateChainID h (e # es) @ '' '' @ d)"
    using createChainIDFromParent_snoc [of h e es d] h by (simp add: CreateChainID_def)
  moreover have "c = h (ro_chainID p @ '' '' @ d)" using 2(2) p(1) by simp
  ultimately show ?case using p(2) es h by simp
qed (use h in \<open>auto simp: CreateChainID_def\<close>)

section \<open>The properties\<close>

lemma releaseParent_held:
  "triple (\<lambda>s. ls_inv (retain_opt p pend) s \<and> held r s) (releaseParent env p) (\<lambda>_ s. ls_inv pend s \<and> held r s)
     (\<lambda>_ _. False)"
proof (cases p)
  case (Some l)
  have "triple (\<lambda>s. ls_inv (retain l pend) s \<and> held r s) (releaseLayer env l)
      (\<lambda>_ s. ls_inv pend s \<and> held r s) (\<lambda>_ s. ls_inv pend s \<and> held r s)"
    unfolding triple_def
  proof (intro allI impI)
    fix s :: "('a, 'b) layerStore"
    assume s: "ls_inv (retain l pend) s \<and> held r s"
    then have "ls_layerMap s (ro_chainID l) = Some l" using inv_retained [of "retain l pend" s l] by simp
    then have "held r (snd (releaseLayer env l s))" using releaseLayer_held s by blast
    with s releaseLayer_inv [where l = l and pend = pend and env = env]
    show "(\<exists>x t. releaseLayer env l s = (Ret x, t) \<and> ls_inv pend t \<and> held r t) \<or>
        (\<exists>e t. releaseLayer env l s = (Fail e, t) \<and> ls_inv pend t \<and> held r t)"
      by (fastforce simp: triple_def)
  qed
  then show ?thesis using Some by (simp add: releaseParent_def retain_opt_def triple_ignore_err)
qed (simp add: releaseParent_def retain_opt_def triple_ret)

lemma registerWithDescriptor_held:
  "triple (ls_inv pend) (registerWithDescriptor env ts parent desc k) (\<lambda>r s. ls_inv pend s \<and> held r s) (\<lambda>_. ls_inv pend)"
  unfolding registerWithDescriptor_def
proof (rule triple_seq [OF retainParent_inv])
  fix p :: "roLayer option"
  have "triple (ls_inv (retain_opt p pend)) (defer_set (releaseParent env p) (registerBody env ts p desc k))
      (\<lambda>r s. ls_inv pend s \<and> held (fst r) s) (\<lambda>_. ls_inv pend)"
    by (rule triple_defer_set [OF registerBody_held])
      (auto intro: releaseParent_inv triple_weaken [OF releaseParent_held])
  then show "triple (ls_inv (retain_opt p pend))
     (seq (defer_set (releaseParent env p) (registerBody env ts p desc k)) (\<lambda>(r, _). ret r))
     (\<lambda>r s. ls_inv pend s \<and> held r s) (\<lambda>_. ls_inv pend)"
    by (rule triple_seq) (auto intro: triple_ret split: prod.split)
qed

text \<open>
  C1. However the methods of a new store are called, in any order and with any arguments,
  references that were never handed out included, no call panics, and afterwards the reference
  count of every layer is the number of references to it plus the layers built on it plus the
  mounts created from it, and the parent of every layer and of every mount is in the table.
\<close>

theorem layer_refcounts_exact:
  "(\<forall>r\<in>set (fst (runOps (lsStep env) ops (emptyStore d m))). \<not> is_Panic r) \<and>
   (\<forall>c l. ls_layerMap (snd (runOps (lsStep env) ops (emptyStore d m))) c = Some l \<longrightarrow>
      ls_refCount (snd (runOps (lsStep env) ops (emptyStore d m))) (ro_addr l) =
        holders (snd (runOps (lsStep env) ops (emptyStore d m))) l \<and>
      wf_layer (snd (runOps (lsStep env) ops (emptyStore d m))) c l) \<and>
   (\<forall>n mt. ls_mounts (snd (runOps (lsStep env) ops (emptyStore d m))) n = Some mt \<longrightarrow>
      wf_mount (snd (runOps (lsStep env) ops (emptyStore d m))) n mt)"
proof -
  note inv = layer_service.run_inv [OF emptyStore_inv, of env ops d m]
  show ?thesis
    using layer_service.run_no_panic [OF emptyStore_inv, of env ops d m] inv_count [OF inv] inv_layer [OF inv]
      inv_mount [OF inv] by auto
qed

text \<open>
  C2. Releasing a held reference takes exactly the longest unshared prefix of the layer's chain
  out of the store: the layers from the released one down its parents whose only holder was the
  reference or the layer removed just before. Their metadata is returned in that order, every
  other layer stays.
\<close>

theorem release_removes_unshared_prefix:
  assumes "ls_inv (\<lambda>_. 0) s" and "held r s" and "Release env r s = (Ret ms, t)"
  shows "ms = map layerMetadata (takeWhile (\<lambda>y. ls_refCount s (ro_addr y) = 1) (chain (lr_layer r))) \<and>
    ls_layerMap t = ls_layerMap s |` (- (m_ChainID ` set ms))"
proof -
  let ?l = "lr_layer r" and ?P = "\<lambda>y. ls_refCount s (ro_addr y) = 1"
  let ?s = "deleteReference ?l r s"
  have l: "ls_layerMap s (ro_chainID ?l) = Some ?l" "lr_id r \<in> ls_refs s (ro_addr ?l)"
    using assms(2) by (simp_all add: held_def)
  have run: "releaseLayer env ?l ?s = (Ret ms, t)"
    using assms(3) l by (simp add: Release_def go_defs hasReference_def)
  have inv: "ls_inv (retain ?l (\<lambda>_. 0)) ?s"
    using ls_inv_deleteReference [OF assms(1) l] by (simp add: deleteReference_def)
  have s: "ls_layerMap ?s = ls_layerMap s" "ls_refCount ?s = ls_refCount s" by (simp_all add: deleteReference_def)
  obtain k where k: "removes k ?l ?s t" "ms = map layerMetadata (take k (chain ?l))"
      "k < depth ?l \<longrightarrow> 1 < ls_refCount s (ro_addr (chain ?l ! k))"
    using releaseLayer_spec [OF inv _ run, of "ro_chainID ?l"] l s by auto
  have "takeWhile ?P (chain ?l) = take k (chain ?l)"
  proof (rule takeWhile_eq_take_P_nth)
    fix i assume "i < k" "i < length (chain ?l)"
    then have "chain ?l ! i \<in> set (take k (chain ?l))" by (force simp: in_set_conv_nth)
    then show "?P (chain ?l ! i)" using k(1) s by (auto simp: removes_def)
  qed (use k(3) in \<open>auto simp: length_chain\<close>)
  moreover have "m_ChainID ` set ms = set (map ro_chainID (take k (chain ?l)))"
    using k(2) by (simp add: layerMetadata_def image_image)
  ultimately show ?thesis using k s by (simp add: removes_def)
qed

text \<open>
  C5. The content address: if the digest function never returns the empty string, every layer of
  a store built by its methods is filed under the chain ID that \<open>CreateChainID\<close> gives for the
  diff IDs of its chain, base layer first.
\<close>

theorem layers_content_addressed:
  assumes "\<And>x. digest_FromBytes env x \<noteq> ''''"
    and "ls_layerMap (snd (runOps (lsStep env) ops (emptyStore d m))) c = Some l"
  shows "c = CreateChainID (digest_FromBytes env) (map ro_diffID (rev (chain l)))"
proof -
  have "all_layers (addressed (digest_FromBytes env)) (snd (runOps (lsStep env) ops (emptyStore d m)))"
    by (rule layer_address.run_keeps) (rule emptyStore_all_layers)
  then have "c = ro_chainID l" "addressed (digest_FromBytes env) l" using assms(2) by (auto simp: all_layers_def)
  then show ?thesis using addressed_chainID [of "digest_FromBytes env" l] assms(1) by simp
qed

text \<open>C6. No sequence of calls puts a layer into the store whose chain is longer than \<open>maxLayerDepth\<close>.\<close>

theorem layer_depth_bounded:
  assumes "ls_layerMap (snd (runOps (lsStep env) ops (emptyStore d m))) c = Some l"
  shows "depth l \<le> 125"
proof -
  have "all_layers (\<lambda>l. depth l \<le> maxLayerDepth) (snd (runOps (lsStep env) ops (emptyStore d m)))"
    by (rule layer_depth.run_keeps) (rule emptyStore_all_layers)
  then show ?thesis using assms by (simp add: all_layers_def maxLayerDepth_def)
qed

text \<open>
  C4. A registration that succeeds returns a reference whose layer is filed under the chain ID of
  its parent extended by the digest of the stream, whether the layer was created or was there
  before, and the reference is recorded: the layer is in the table and holds it, also after the
  clean-up that a duplicate registration runs.
\<close>

theorem register_returns_held_layer:
  assumes "ls_inv (\<lambda>_. 0) s" and "registerWithDescriptor env ts parent desc k s = (Ret r, t)"
  shows "held r t \<and> ls_inv (\<lambda>_. 0) t \<and>
    ro_chainID (lr_layer r) = createChainIDFromParent (digest_FromBytes env) parent [digest_FromBytes env ts]"
proof -
  have "all_layers (\<lambda>_. True) s" using inv_chainID [OF assms(1)] by (auto simp: all_layers_def)
  moreover have "inherited env (\<lambda>_. True)" by (simp add: inherited_def)
  ultimately show ?thesis
    using triple_Ret [OF registerWithDescriptor_held assms] ensD [OF ens_registerWithDescriptor _ assms(2)] by blast
qed

text \<open>
  C3. Restarting: a store restored from its metadata holds exactly the listed layers whose whole
  chain of records can be read, and satisfies the reference count invariant with no reference
  handed out. The getters do not change the metadata, the recorded parents are acyclic, and the
  list of layers is complete.
\<close>

theorem restored_store_consistent:
  assumes env: "pure_getters env" "ranked env m rank"
    and list: "fst (md_List env m) = Inr (ids, ns)" "distinct ids" "\<forall>c\<in>set ids. rank c < fuel"
    and listed: "parents_listed env m (set ids)" "mount_parents_listed env m (set ns) (set ids)"
  shows "\<exists>s. NewStoreFromGraphDriver env fuel d m = (Ret (), s) \<and> ls_inv (\<lambda>_. 0) s \<and>
    dom (ls_layerMap s) = {c \<in> set ids. chain_ok env m c}"
proof -
  let ?s = "emptyStore d m"
  have s: "load_inv {} ?s" "loaded env m (set ids) ?s"
    by (simp_all add: load_inv_def loaded_def ls_struct_def emptyStore_def)
  then obtain t where t: "loadLayers env fuel ids ?s = (Ret (), t)" "loaded env m (set ids) t"
      "load_inv ({} \<union> {c \<in> set ids. chain_ok env m c}) t"
    using loadLayers_spec [OF env listed(1) list(3), of ids "{}" ?s] list(2) by auto
  then have dom: "dom (ls_layerMap t) = {c \<in> set ids. chain_ok env m c}"
    by (auto simp: load_inv_def loaded_def)
  then have t': "ls_inv (\<lambda>_. 0) t" "all_loaded env m (set ids) t"
    using t load_inv_done [OF t(3)] by (auto simp: all_loaded_def loaded_def)
  from loadMounts_spec [OF env listed(1) list(3) listed(2) t'] dom t(1) list(1) env(1)
  show ?thesis
    by (auto simp: NewStoreFromGraphDriver_def seq_def on_store_pure pure_getters_def emptyStore_def)
qed

section \<open>A concrete environment\<close>

text \<open>
  A driver and a metadata store that accept every call and remember nothing but two records: the
  base layer \<open>a\<close>, the layer \<open>b\<close> on it, and the mount \<open>c1\<close> on \<open>b\<close>. The digest of a stream is the
  stream behind a prefix.
\<close>

definition demo_env :: "(unit, unit, unit) lenv" where
  "demo_env = \<lparr>
     drv_Create = (\<lambda>_ _ _ _ s. (Inr (), s)), drv_CreateReadWrite = (\<lambda>_ _ _ _ s. (Inr (), s)),
     drv_Remove = (\<lambda>_ s. (Inr (), s)), drv_Get = (\<lambda>i _ s. (Inr (''/'' @ i), s)), drv_Put = (\<lambda>_ s. (Inr (), s)),
     drv_ApplyDiff = (\<lambda>_ _ ts s. (Inr (of_nat (length ts)), s)),
     md_StartTransaction = (\<lambda>s. (Inr (), s)), tx_TarSplitWriter = (\<lambda>tx z s. (Inr (tx, z), s)), tsw_Close = (\<lambda>_ _ s. (Inr (), s)),
     tx_SetDiffID = (\<lambda>_ _ s. (Inr (), s)), tx_SetSize = (\<lambda>_ _ s. (Inr (), s)),
     tx_SetCacheID = (\<lambda>_ _ s. (Inr (), s)), tx_SetDescriptor = (\<lambda>_ _ s. (Inr (), s)),
     tx_SetParent = (\<lambda>_ _ s. (Inr (), s)), tx_Commit = (\<lambda>_ _ s. (Inr (), s)), tx_Cancel = (\<lambda>_ s. (Inr (), s)),
     md_GetDiffID = (\<lambda>c s. (Inr c, s)), md_GetSize = (\<lambda>_ s. (Inr 7, s)), md_GetCacheID = (\<lambda>c s. (Inr c, s)),
     md_GetParent = (\<lambda>c s. (Inr (if c = ''b'' then ''a'' else ''''), s)),
     md_GetDescriptor = (\<lambda>_ s. (Inr emptyDescriptor, s)),
     md_SetMountID = (\<lambda>_ _ s. (Inr (), s)), md_SetInitID = (\<lambda>_ _ s. (Inr (), s)),
     md_SetMountParent = (\<lambda>_ _ s. (Inr (), s)),
     md_GetMountID = (\<lambda>n s. (Inr n, s)), md_GetInitID = (\<lambda>_ s. (Inr '''', s)),
     md_GetMountParent = (\<lambda>_ s. (Inr ''b'', s)), md_List = (\<lambda>s. (Inr ([''a'', ''b''], [''c1'']), s)),
     md_Remove = (\<lambda>_ s. (Inr (), s)), md_RemoveMount = (\<lambda>_ s. (Inr (), s)),
     digest_FromBytes = (\<lambda>ts. CHR ''d'' # ts), asm_NewInputTarStream = (\<lambda>_. None), asm_Packed = (\<lambda>ts. ts), asm_Partial = (\<lambda>_. '''')\<rparr>"

definition demo_ops :: "lsOp list" where
  "demo_ops = [OpRegister ''x'' '''' emptyDescriptor ''k1'', OpRegister ''y'' ''dx'' emptyDescriptor ''k2'']"

abbreviation demo_store :: "(unit, unit) layerStore" where
  "demo_store \<equiv> snd (runOps (lsStep demo_env) demo_ops (emptyStore () ()))"

lemmas demo_eval = demo_ops_def demo_env_def emptyStore_def registerWithDescriptor_def retainParent_def
  getWithoutLock_def registerBody_def allocLayer_def on_driver_def on_store_def call_def applyTar_def
  storeLayer_def publishLayer_def mkLayer_def getReference_def go_defs emptyDescriptor_def maxLayerDepth_def Let_def

lemma demo_layers:
  "ls_layerMap demo_store ''dx'' = Some (RoLayer 0 ''dx'' ''dx'' ''k1'' 1 emptyDescriptor None)"
  "ls_layerMap demo_store ''ddx dy'' =
     Some (RoLayer 2 ''ddx dy'' ''dy'' ''k2'' 1 emptyDescriptor (Some (RoLayer 0 ''dx'' ''dx'' ''k1'' 1 emptyDescriptor None)))"
  by (simp_all add: demo_eval)

lemma demo_inv: "ls_inv (\<lambda>_. 0) demo_store"
  by (rule layer_service.run_inv) (rule emptyStore_inv)

lemma demo_held: "held (LayerRef 3 (the (ls_layerMap demo_store ''ddx dy''))) demo_store"
  by (simp add: held_def demo_eval)

theorem layer_refcounts_exact_witness:
  "\<exists>l. ls_layerMap demo_store ''dx'' = Some l \<and> ls_refCount demo_store (ro_addr l) = holders demo_store l"
  using layer_refcounts_exact [of demo_env demo_ops "()" "()"] demo_layers by blast

theorem release_removes_unshared_prefix_witness:
  "\<exists>ms t. Release demo_env (LayerRef 3 (the (ls_layerMap demo_store ''ddx dy''))) demo_store = (Ret ms, t) \<and>
     map m_ChainID ms = [''ddx dy''] \<and> ls_layerMap t ''dx'' \<noteq> None \<and> ls_layerMap t ''ddx dy'' = None"
proof -
  let ?r = "LayerRef 3 (the (ls_layerMap demo_store ''ddx dy''))"
  obtain ms t where run: "Release demo_env ?r demo_store = (Ret ms, t)"
    by (simp add: Release_def hasReference_def deleteReference_def releaseLayer_def deleteLayer_def hasReferences_def demo_eval)
  have "takeWhile (\<lambda>y. ls_refCount demo_store (ro_addr y) = 1) (chain (lr_layer ?r)) = [lr_layer ?r]"
    by (simp add: demo_eval)
  with release_removes_unshared_prefix [OF demo_inv demo_held run]
  have "ms = [layerMetadata (lr_layer ?r)]" "ls_layerMap t = ls_layerMap demo_store |` (- (m_ChainID ` set ms))"
    by simp_all
  with run demo_layers show ?thesis by (auto simp: layerMetadata_def)
qed

theorem layers_content_addressed_witness:
  "''ddx dy'' = CreateChainID (digest_FromBytes demo_env) [''dx'', ''dy'']"
  using layers_content_addressed [OF _ demo_layers(2)] by (simp add: demo_env_def)

theorem layer_depth_bounded_witness:
  "depth (the (ls_layerMap demo_store ''ddx dy'')) \<le> 125"
  using layer_depth_bounded [OF demo_layers(2)] demo_layers(2) by simp

theorem register_returns_held_layer_witness:
  "\<exists>r t. registerWithDescriptor demo_env ''y'' ''dx'' emptyDescriptor ''k3'' demo_store = (Ret r, t) \<and> held r t \<and>
     ro_chainID (lr_layer r) = ''ddx dy''"
proof -
  obtain r t where run: "registerWithDescriptor demo_env ''y'' ''dx'' emptyDescriptor ''k3'' demo_store = (Ret r, t)"
    by (simp add: demo_eval releaseParent_def releaseLayer_def)
  from register_returns_held_layer [OF demo_inv run] run show ?thesis by (simp add: demo_env_def)
qed

lemma demo_meta_parent: "meta_parent demo_env m c = Some (if c = ''b'' then ''a'' else '''')"
  by (simp add: meta_parent_def demo_env_def)

theorem restored_store_consistent_witness:
  "\<exists>s. NewStoreFromGraphDriver demo_env 2 () () = (Ret (), s) \<and> ls_inv (\<lambda>_. 0) s \<and>
     dom (ls_layerMap s) = {c \<in> {''a'', ''b''}. chain_ok demo_env () c}"
  using restored_store_consistent [of demo_env "()" "\<lambda>c. if c = ''b'' then 1 else 0" "[''a'', ''b'']" "[''c1'']" 2 "()"]
  by (simp add: ranked_def parents_listed_def mount_parents_listed_def demo_meta_parent)
    (simp add: pure_getters_def demo_env_def)

end
