(* ===== verification/GoStd.thy ===== *)
theory GoStd
  imports Prelude "HOL-Library.Sublist" "HOL-Library.List_Lexorder" "HOL-Library.Char_ord"
begin

text \<open>
  The parts of Go's standard library that the components use: \<open>strings\<close>, \<open>sort.Search\<close>,
  \<open>strconv\<close> and \<open>path/filepath\<close>, on strings as lists of bytes ordered as Go orders them.
\<close>

section \<open>Binary search\<close>

function searchLoop :: "(nat \<Rightarrow> bool) \<Rightarrow> nat \<Rightarrow> nat \<Rightarrow> nat" where
  "searchLoop f i j =
     (if i < j
      then let h = i + (j - i) div 2 in if \<not> f h then searchLoop f (h + 1) j else searchLoop f i h
      else i)"
  by pat_completeness auto
termination
  by (relation "measure (\<lambda>(f, i, j). j - i)") (auto simp: Let_def)

declare searchLoop.simps [simp del]

definition Search :: "nat \<Rightarrow> (nat \<Rightarrow> bool) \<Rightarrow> nat" where
  "Search n f = searchLoop f 0 n"

definition monotone_upto :: "nat \<Rightarrow> (nat \<Rightarrow> bool) \<Rightarrow> bool" where
  "monotone_upto n f \<longleftrightarrow> (\<forall>a b. f a \<longrightarrow> a \<le> b \<longrightarrow> b < n \<longrightarrow> f b)"

text \<open>\<open>splits_at n f r\<close>: the predicate is false below \<open>r\<close> and true from \<open>r\<close> on.\<close>

definition splits_at :: "nat \<Rightarrow> (nat \<Rightarrow> bool) \<Rightarrow> nat \<Rightarrow> bool" where
  "splits_at n f r \<longleftrightarrow> r \<le> n \<and> (\<forall>k<r. \<not> f k) \<and> (\<forall>k. r \<le> k \<and> k < n \<longrightarrow> f k)"

lemma searchLoop_splits:
  assumes "monotone_upto n f" and "i \<le> j" and "j \<le> n" and "\<forall>k<i. \<not> f k" and "\<forall>k. j \<le> k \<and> k < n \<longrightarrow> f k"
  shows "splits_at n f (searchLoop f i j)"
  using assms
proof (induction f i j rule: searchLoop.induct)
  case (1 f i j)
  show ?case
  proof (cases "i < j")
    case True
    define h where "h = i + (j - i) div 2"
    have h: "i \<le> h" "h < j" using True by (auto simp: h_def)
    show ?thesis
    proof (cases "f h")
      case f: True
      have "splits_at n f (searchLoop f i h)"
        using "1.IH"(2) [OF True h_def] f "1.prems" h by (auto simp: monotone_upto_def)
      then show ?thesis using True f by (subst searchLoop.simps) (simp add: Let_def h_def)
    next
      case f: False
      have "\<forall>k<h + 1. \<not> f k" using f "1.prems"(1,3) h by (force simp: monotone_upto_def)
      then have "splits_at n f (searchLoop f (h + 1) j)"
        using "1.IH"(1) [OF True h_def] f "1.prems" h by auto
      then show ?thesis using True f by (subst searchLoop.simps) (simp add: Let_def h_def)
    qed
  next
    case False
    then show ?thesis using "1.prems" by (subst searchLoop.simps) (simp add: splits_at_def)
  qed
qed

lemma Search_splits: "monotone_upto n f \<Longrightarrow> splits_at n f (Search n f)"
  unfolding Search_def by (rule searchLoop_splits) auto

section \<open>Strings\<close>

text \<open>\<open>strings.Index(s, c)\<close> for a one-byte \<open>c\<close>; \<open>None\<close> stands for -1.\<close>

fun indexByte :: "char \<Rightarrow> string \<Rightarrow> nat option" where
  "indexByte c [] = None"
| "indexByte c (x # xs) = (if x = c then Some 0 else map_option Suc (indexByte c xs))"

lemma indexByte_takeWhile:
  "indexByte c s = (if c \<in> set s then Some (length (takeWhile (\<lambda>x. x \<noteq> c) s)) else None)"
  by (induction s) auto

text \<open>\<open>strings.TrimSpace\<close> on ASCII text.\<close>

definition is_space :: "char \<Rightarrow> bool" where
  "is_space c \<longleftrightarrow> c \<in> {CHR '' '', CHR 0x09, CHR 0x0A, CHR 0x0B, CHR 0x0C, CHR 0x0D}"

definition TrimSpace :: "string \<Rightarrow> string" where
  "TrimSpace s = rev (dropWhile is_space (rev (dropWhile is_space s)))"

lemma dropWhile_none: "list_all (\<lambda>c. \<not> P c) s \<Longrightarrow> dropWhile P s = s"
  by (cases s) auto

lemma TrimSpace_id: "list_all (\<lambda>c. \<not> is_space c) s \<Longrightarrow> TrimSpace s = s"
  using dropWhile_none [of is_space s] dropWhile_none [of is_space "rev s"]
  by (simp add: TrimSpace_def list_all_iff)

fun splitOn :: "char \<Rightarrow> string \<Rightarrow> string list" where
  "splitOn c [] = [[]]"
| "splitOn c (x # xs) =
     (if x = c then [] # splitOn c xs
      else case splitOn c xs of [] \<Rightarrow> [[x]] | w # ws \<Rightarrow> (x # w) # ws)"

definition in_range :: "char \<Rightarrow> char \<Rightarrow> char \<Rightarrow> bool" where
  "in_range lo hi c \<longleftrightarrow> lo \<le> c \<and> c \<le> hi"

definition is_digit :: "char \<Rightarrow> bool" where
  "is_digit = in_range CHR ''0'' CHR ''9''"

definition is_lower :: "char \<Rightarrow> bool" where
  "is_lower = in_range CHR ''a'' CHR ''z''"

definition is_upper :: "char \<Rightarrow> bool" where
  "is_upper = in_range CHR ''A'' CHR ''Z''"

section \<open>Numbers\<close>

text \<open>\<open>fmt.Sprintf("%d", n)\<close> and \<open>strconv.ParseInt(s, 10, 64)\<close>.\<close>

definition digitChar :: "nat \<Rightarrow> char" where
  "digitChar d = char_of (48 + d)"

definition digitVal :: "char \<Rightarrow> nat" where
  "digitVal c = of_char c - 48"

fun showNat :: "nat \<Rightarrow> string" where
  "showNat n = (if n < 10 then [digitChar n] else showNat (n div 10) @ [digitChar (n mod 10)])"

declare showNat.simps [simp del]

definition showInt :: "int \<Rightarrow> string" where
  "showInt i = (if i < 0 then CHR ''-'' # showNat (nat (- i)) else showNat (nat i))"

definition parseNat :: "string \<Rightarrow> nat option" where
  "parseNat s = (if s = '''' \<or> \<not> list_all is_digit s then None
     else Some (foldl (\<lambda>acc c. acc * 10 + digitVal c) 0 s))"

definition ParseInt :: "string \<Rightarrow> int64 option" where
  "ParseInt s =
     (let neg = (s \<noteq> '''' \<and> hd s = CHR ''-''); body = (if s \<noteq> '''' \<and> hd s \<in> {CHR ''+'', CHR ''-''} then tl s else s) in
      case parseNat body of
        None \<Rightarrow> None
      | Some n \<Rightarrow> if (if neg then n > 2 ^ 63 else n \<ge> 2 ^ 63) then None
          else Some (if neg then - word_of_nat n else word_of_nat n))"

lemma is_digit_code: "is_digit c \<longleftrightarrow> 48 \<le> (of_char c :: nat) \<and> (of_char c :: nat) \<le> 57"
  by (simp add: is_digit_def in_range_def less_eq_char_def)

lemma digitChar [simp]: "d < 10 \<Longrightarrow> is_digit (digitChar d)" "d < 10 \<Longrightarrow> digitVal (digitChar d) = d"
  by (simp_all add: is_digit_code digitChar_def digitVal_def of_char_of)

lemma showNat_digits: "showNat n \<noteq> [] \<and> list_all is_digit (showNat n)"
proof (induction n rule: showNat.induct)
  case (1 n)
  then show ?case by (subst (1 2) showNat.simps) simp
qed

lemma showNat_value: "foldl (\<lambda>acc c. acc * 10 + digitVal c) 0 (showNat n) = n"
proof (induction n rule: showNat.induct)
  case (1 n)
  then show ?case by (subst showNat.simps) simp
qed

lemma parse_showNat [simp]: "parseNat (showNat n) = Some n"
  using showNat_digits [of n] by (simp add: parseNat_def showNat_value)

lemma showNat_hd: "hd (showNat n) \<notin> {CHR ''+'', CHR ''-''}"
  using showNat_digits [of n] by (cases "showNat n") (auto simp: is_digit_code)

text \<open>Printing a 64-bit number and parsing it again gives the number.\<close>

lemma ParseInt_showInt: "ParseInt (showInt (sint (w :: int64))) = Some w"
proof -
  have range: "- (2 ^ 63) \<le> sint w" "sint w < 2 ^ 63"
    using sint_greater_eq [of w] sint_less [of w] by simp_all
  show ?thesis
  proof (cases "sint w < 0")
    case True
    have "- word_of_nat (nat (- sint w)) = (word_of_int (sint w) :: int64)" using True by simp
    then show ?thesis using True range by (simp add: ParseInt_def showInt_def Let_def)
  next
    case False
    have "word_of_nat (nat (sint w)) = (word_of_int (sint w) :: int64)" using False by simp
    then show ?thesis using False range showNat_digits [of "nat (sint w)"] showNat_hd [of "nat (sint w)"]
      by (simp add: ParseInt_def showInt_def Let_def)
  qed
qed

end
