(* ===== verification/GoFS.thy ===== *)
theory GoFS
  imports GoStd "HOL-Library.AList"
begin

text \<open>
  The file system as the \<^verbatim>\<open>os\<close> and \<^verbatim>\<open>io/ioutil\<close> packages show it: a tree of directories and files, calls that
  change it, and failures. A path is the list of its components. Every changing call can fail at the
  whim of the disk (\<open>fs_fault\<close>), and a failing write or removal may have done a part of its work; a
  file may be unreadable (\<open>fs_unreadable\<close>).
\<close>

section \<open>The tree\<close>

type_synonym path = "string list"

datatype node = File string | Dir

type_synonym entries = "(path \<times> node) list"

definition look :: "entries \<Rightarrow> path \<Rightarrow> node option" where
  "look es p = map_of es p"

definition put :: "path \<Rightarrow> node \<Rightarrow> entries \<Rightarrow> entries" where
  "put p n es = AList.update p n es"

definition cut :: "path \<Rightarrow> entries \<Rightarrow> entries" where
  "cut p es = filter (\<lambda>(q, _). \<not> prefix p q) es"

definition move :: "path \<Rightarrow> path \<Rightarrow> entries \<Rightarrow> entries" where
  "move old new es =
     map (\<lambda>(q, n). (if prefix old q then new @ drop (length old) q else q, n)) (cut new es)"

definition childNames :: "path \<Rightarrow> entries \<Rightarrow> string list" where
  "childNames p es = sort (map last (filter (\<lambda>q. q \<noteq> [] \<and> butlast q = p) (map fst es)))"

text \<open>Every entry has a parent directory, the root is a directory, no path occurs twice.\<close>

definition wf_tree :: "entries \<Rightarrow> bool" where
  "wf_tree es \<longleftrightarrow> distinct (map fst es) \<and> look es [] = Some Dir \<and>
     (\<forall>p n. look es (p @ [n]) \<noteq> None \<longrightarrow> look es p = Some Dir)"

lemma look_put [simp]: "look (put p n es) q = (if q = p then Some n else look es q)"
  by (simp add: look_def put_def update_conv')

lemma look_cut [simp]: "look (cut p es) q = (if prefix p q then None else look es q)"
  by (induction es) (auto simp: look_def cut_def)

lemma look_move:
  assumes "\<not> prefix new old" and "\<not> prefix old new"
  shows "look (move old new es) q =
    (if prefix new q then look es (old @ drop (length new) q) else if prefix old q then None else look es q)"
proof (induction es)
  case Nil
  then show ?case by (simp add: look_def move_def cut_def)
next
  case (Cons e es)
  obtain p n where e: "e = (p, n)" by (cases e)
  have *: "prefix new q \<Longrightarrow> old @ drop (length new) q = p \<longleftrightarrow> prefix old p \<and> q = new @ drop (length old) p"
    by (auto simp: prefix_def)
  have **: "\<not> prefix old q \<Longrightarrow> prefix old p \<Longrightarrow> \<not> prefix new q \<Longrightarrow> q \<noteq> p" by auto
  have ***: "prefix new p \<Longrightarrow> \<not> prefix old p"
    using assms prefix_same_cases [of new p old] by blast
  have "\<not> prefix new q \<Longrightarrow> q \<noteq> new @ r" for r by auto
  then show ?case using Cons.IH * ** *** unfolding e
    by (auto simp: look_def move_def cut_def split: if_splits)
qed

lemma in_look: "distinct (map fst es) \<Longrightarrow> (p, n) \<in> set es \<longleftrightarrow> look es p = Some n"
  by (simp add: look_def)

lemma set_childNames: "set (childNames p es) = {n. look es (p @ [n]) \<noteq> None}"
proof -
  have "q \<noteq> [] \<and> butlast q = p \<longleftrightarrow> (\<exists>n. q = p @ [n])" for q by (metis append_butlast_last_id butlast_snoc snoc_eq_iff_butlast)
  then have "set (childNames p es) = {n. p @ [n] \<in> fst ` set es}" by (force simp: childNames_def)
  then show ?thesis by (simp add: look_def map_of_eq_None_iff)
qed

lemma distinct_childNames:
  assumes "distinct (map fst es)"
  shows "distinct (childNames p es)"
proof -
  have "inj_on last (set (filter (\<lambda>q. q \<noteq> [] \<and> butlast q = p) (map fst es)))"
    by (rule inj_onI) (simp, metis append_butlast_last_id)
  moreover have "distinct (filter (\<lambda>q. q \<noteq> [] \<and> butlast q = p) (map fst es))" using assms by (rule distinct_filter)
  ultimately have "distinct (map last (filter (\<lambda>q. q \<noteq> [] \<and> butlast q = p) (map fst es)))" by (simp only: distinct_map simp_thms)
  then show ?thesis unfolding childNames_def by (simp only: distinct_sort)
qed

lemma look_append: "wf_tree es \<Longrightarrow> look es (p @ q) \<noteq> None \<Longrightarrow> q \<noteq> [] \<Longrightarrow> look es p = Some Dir"
proof (induction q rule: rev_induct)
  case (snoc n q)
  then have "look es ((p @ q) @ [n]) \<noteq> None" by simp
  then have "look es (p @ q) = Some Dir" using snoc.prems(1) unfolding wf_tree_def by blast
  with snoc show ?case by (cases "q = []") simp_all
qed simp

section \<open>Paths\<close>

text \<open>
  \<open>filepath.Join\<close> of an absolute directory and further elements: each element is split at the
  slashes and the result is cleaned.
\<close>

fun cleanInto :: "path \<Rightarrow> string list \<Rightarrow> path" where
  "cleanInto p [] = p"
| "cleanInto p (c # cs) =
     (if c = '''' \<or> c = ''.'' then cleanInto p cs
      else if c = ''..'' then cleanInto (butlast p) cs else cleanInto (p @ [c]) cs)"

definition Join :: "path \<Rightarrow> string list \<Rightarrow> path" where
  "Join root elems = cleanInto root (concat (map (splitOn CHR ''/'') elems))"

definition plain :: "string \<Rightarrow> bool" where
  "plain s \<longleftrightarrow> s \<noteq> '''' \<and> s \<noteq> ''.'' \<and> s \<noteq> ''..'' \<and> CHR ''/'' \<notin> set s"

lemma splitOn_none: "c \<notin> set s \<Longrightarrow> splitOn c s = [s]"
  by (induction s) auto

lemma Join_plain: "list_all plain elems \<Longrightarrow> Join root elems = root @ elems"
proof (induction elems arbitrary: root)
  case (Cons e es)
  then have "Join root (e # es) = Join (root @ [e]) es" by (simp add: Join_def plain_def splitOn_none)
  then show ?case using Cons by simp
qed (simp add: Join_def)

section \<open>Calls\<close>

record fault =
  flt_written :: nat
  flt_removed :: "path \<Rightarrow> bool"

record filesys =
  fs_entries :: entries
  fs_fault :: "nat \<Rightarrow> fault option"
  fs_unreadable :: "path \<Rightarrow> bool"
  fs_random :: "nat \<Rightarrow> string"
  fs_calls :: nat

datatype os_err = ErrNotExist | ErrExist | ErrNotDir | ErrIsDir | ErrNotEmpty | ErrInvalid | ErrIO | ErrMsg string

type_synonym 'a fsM = "(filesys, os_err, 'a) go"

text \<open>One system call: what it does to the tree, and what it has done if the disk fails.\<close>

definition attempt :: "(fault \<Rightarrow> entries \<Rightarrow> entries) \<Rightarrow> (entries \<Rightarrow> os_err + 'a \<times> entries) \<Rightarrow> 'a fsM" where
  "attempt partly act fs =
     (let next_fs = fs\<lparr>fs_calls := Suc (fs_calls fs)\<rparr> in
      case fs_fault fs (fs_calls fs) of
        Some f \<Rightarrow> (Fail ErrIO, next_fs\<lparr>fs_entries := partly f (fs_entries fs)\<rparr>)
      | None \<Rightarrow> (case act (fs_entries fs) of
            Inl e \<Rightarrow> (Fail e, next_fs)
          | Inr (x, es) \<Rightarrow> (Ret x, next_fs\<lparr>fs_entries := es\<rparr>)))"

definition nothing :: "fault \<Rightarrow> entries \<Rightarrow> entries" where
  "nothing f es = es"

text \<open>\<open>os.MkdirAll\<close>: the missing directories of the path, from the top.\<close>

fun mkdirs :: "path \<Rightarrow> string list \<Rightarrow> entries \<Rightarrow> os_err + unit \<times> entries" where
  "mkdirs p cs es = (case look es p of
      Some (File _) \<Rightarrow> Inl ErrNotDir
    | Some Dir \<Rightarrow> (case cs of [] \<Rightarrow> Inr ((), es) | c # cs' \<Rightarrow> mkdirs (p @ [c]) cs' es)
    | None \<Rightarrow> (case cs of [] \<Rightarrow> Inr ((), put p Dir es) | c # cs' \<Rightarrow> mkdirs (p @ [c]) cs' (put p Dir es)))"

declare mkdirs.simps [simp del]

definition MkdirAll :: "path \<Rightarrow> unit fsM" where
  "MkdirAll p = attempt (\<lambda>f es. case mkdirs [] (take (flt_written f) p) es of Inl _ \<Rightarrow> es | Inr (_, es') \<Rightarrow> es')
     (mkdirs [] p)"

text \<open>Opening a file for writing: its directory must be there, and it must not be a directory.\<close>

definition create :: "path \<Rightarrow> string \<Rightarrow> entries \<Rightarrow> os_err + unit \<times> entries" where
  "create p content es =
     (case look es (butlast p) of
        None \<Rightarrow> Inl ErrNotExist
      | Some (File _) \<Rightarrow> Inl ErrNotDir
      | Some Dir \<Rightarrow> (case look es p of Some Dir \<Rightarrow> Inl ErrIsDir | _ \<Rightarrow> Inr ((), put p (File content) es)))"

text \<open>A failing \<open>ioutil.WriteFile\<close> has not opened the file, or has written the beginning of the data.\<close>

definition WriteFile :: "path \<Rightarrow> string \<Rightarrow> unit fsM" where
  "WriteFile p content = attempt
     (\<lambda>f es. if flt_written f = 0 then es
        else case create p (take (flt_written f - 1) content) es of Inl _ \<Rightarrow> es | Inr (_, es') \<Rightarrow> es')
     (create p content)"

definition ReadFile :: "path \<Rightarrow> string fsM" where
  "ReadFile p fs = (case look (fs_entries fs) p of
      None \<Rightarrow> (Fail ErrNotExist, fs)
    | Some Dir \<Rightarrow> (Fail ErrIsDir, fs)
    | Some (File s) \<Rightarrow> if fs_unreadable fs p then (Fail ErrIO, fs) else (Ret s, fs))"

text \<open>\<open>ioutil.ReadDir\<close>: the names in order, each with whether it is a directory.\<close>

definition ReadDir :: "path \<Rightarrow> (string \<times> bool) list fsM" where
  "ReadDir p fs = (case look (fs_entries fs) p of
      None \<Rightarrow> (Fail ErrNotExist, fs)
    | Some (File _) \<Rightarrow> (Fail ErrNotDir, fs)
    | Some Dir \<Rightarrow> if fs_unreadable fs p then (Fail ErrIO, fs)
        else (Ret (map (\<lambda>n. (n, look (fs_entries fs) (p @ [n]) = Some Dir)) (childNames p (fs_entries fs))), fs))"

definition Rename :: "path \<Rightarrow> path \<Rightarrow> unit fsM" where
  "Rename old new = attempt nothing (\<lambda>es.
     if old = new then Inr ((), es)
     else if prefix old new then Inl ErrInvalid
     else case look es old of
        None \<Rightarrow> Inl ErrNotExist
      | Some (File s) \<Rightarrow>
          (case look es (butlast new) of
             None \<Rightarrow> Inl ErrNotExist
           | Some (File _) \<Rightarrow> Inl ErrNotDir
           | Some Dir \<Rightarrow> if look es new = Some Dir then Inl ErrIsDir else Inr ((), move old new es))
      | Some Dir \<Rightarrow>
          (case look es (butlast new) of
             None \<Rightarrow> Inl ErrNotExist
           | Some (File _) \<Rightarrow> Inl ErrNotDir
           | Some Dir \<Rightarrow>
               (case look es new of
                  Some (File _) \<Rightarrow> Inl ErrNotDir
                | Some Dir \<Rightarrow> if childNames new es \<noteq> [] then Inl ErrNotEmpty else Inr ((), move old new es)
                | None \<Rightarrow> Inr ((), move old new es))))"

definition Remove :: "path \<Rightarrow> unit fsM" where
  "Remove p = attempt nothing (\<lambda>es.
     case look es p of
       None \<Rightarrow> Inl ErrNotExist
     | Some (File _) \<Rightarrow> Inr ((), cut p es)
     | Some Dir \<Rightarrow> if childNames p es \<noteq> [] then Inl ErrNotEmpty else Inr ((), cut p es))"

text \<open>A failing \<open>os.RemoveAll\<close> has removed some of the trees below the path, at least not the path itself.\<close>

definition RemoveAll :: "path \<Rightarrow> unit fsM" where
  "RemoveAll p = attempt
     (\<lambda>f es. filter (\<lambda>(q, _). \<not> (prefix p q \<and> q \<noteq> p \<and> (\<exists>k\<in>{length p<..length q}. flt_removed f (take k q)))) es)
     (\<lambda>es. Inr ((), cut p es))"

text \<open>\<open>ioutil.TempDir\<close> and \<open>ioutil.TempFile\<close>: random names are tried until one is free, at most 10000.\<close>

fun freshName :: "nat \<Rightarrow> path \<Rightarrow> string \<Rightarrow> (nat \<Rightarrow> string) \<Rightarrow> nat \<Rightarrow> entries \<Rightarrow> path option" where
  "freshName 0 dir pre rand i es = None"
| "freshName (Suc n) dir pre rand i es =
     (let p = Join dir [pre @ rand i] in if look es p = None then Some p else freshName n dir pre rand (Suc i) es)"

definition newNode :: "node \<Rightarrow> path \<Rightarrow> string \<Rightarrow> path fsM" where
  "newNode node dir pre fs = attempt nothing (\<lambda>es.
     case look es dir of
       None \<Rightarrow> Inl ErrNotExist
     | Some (File _) \<Rightarrow> Inl ErrNotDir
     | Some Dir \<Rightarrow>
         (case freshName 10000 dir pre (fs_random fs) (fs_calls fs) es of
            None \<Rightarrow> Inl ErrExist
          | Some p \<Rightarrow> Inr (p, put p node es))) fs"

definition TempDir :: "path \<Rightarrow> string \<Rightarrow> path fsM" where
  "TempDir dir pre = newNode Dir dir pre"

definition TempFile :: "path \<Rightarrow> string \<Rightarrow> path fsM" where
  "TempFile dir pre = newNode (File '''') dir pre"

text \<open>A call on an open file that changes nothing in the tree: \<open>Sync\<close>, \<open>Close\<close>, \<open>Chmod\<close>.\<close>

definition touch :: "unit fsM" where
  "touch = attempt nothing (\<lambda>es. Inr ((), es))"

section \<open>What the calls do to the tree\<close>

lemma attempt_cases:
  assumes "attempt partly act fs = (r, fs')"
  obtains (fault) f where "r = Fail ErrIO" and "fs_entries fs' = partly f (fs_entries fs)"
  | (err) e where "r = Fail e" and "act (fs_entries fs) = Inl e" and "fs_entries fs' = fs_entries fs"
  | (ok) x where "r = Ret x" and "act (fs_entries fs) = Inr (x, fs_entries fs')"
  using assms by (auto simp: attempt_def Let_def split: option.splits sum.splits prod.splits)

lemma attempt_rest:
  assumes "attempt partly act fs = (r, fs')"
  shows "fs_unreadable fs' = fs_unreadable fs" and "fs_random fs' = fs_random fs" and "\<nexists>m. r = Panic m"
  using assms by (auto simp: attempt_def Let_def split: option.splits sum.splits prod.splits)

text \<open>A call that keeps everything outside the tree at \<open>X\<close>, and cannot panic.\<close>

definition within :: "path \<Rightarrow> 'a fsM \<Rightarrow> bool" where
  "within X m \<longleftrightarrow> (\<forall>fs r fs'. m fs = (r, fs') \<longrightarrow>
     (\<forall>q. \<not> prefix X q \<longrightarrow> look (fs_entries fs') q = look (fs_entries fs) q) \<and>
     fs_unreadable fs' = fs_unreadable fs \<and> fs_random fs' = fs_random fs)"

named_theorems within_intros

lemma withinD:
  assumes "within X m" and "m fs = (r, fs')"
  shows "\<not> prefix X q \<Longrightarrow> look (fs_entries fs') q = look (fs_entries fs) q"
    and "fs_unreadable fs' = fs_unreadable fs" and "fs_random fs' = fs_random fs"
  using assms by (simp_all add: within_def)

lemma within_attempt:
  assumes "\<And>f es q. \<not> prefix X q \<Longrightarrow> look (partly f es) q = look es q"
    and "\<And>es x es' q. act es = Inr (x, es') \<Longrightarrow> \<not> prefix X q \<Longrightarrow> look es' q = look es q"
  shows "within X (attempt partly act)"
  unfolding within_def
proof (intro allI impI)
  fix fs r fs' assume a: "attempt partly act fs = (r, fs')"
  then show "(\<forall>q. \<not> prefix X q \<longrightarrow> look (fs_entries fs') q = look (fs_entries fs) q) \<and>
      fs_unreadable fs' = fs_unreadable fs \<and> fs_random fs' = fs_random fs"
    using attempt_rest [OF a] assms by (cases rule: attempt_cases) auto
qed

lemma within_pure: "(\<And>fs. snd (m fs) = fs) \<Longrightarrow> within X m"
  unfolding within_def by (metis snd_conv)

lemma within_ret [within_intros]: "within X (ret x)"
  by (rule within_pure) (simp add: ret_def)

lemma within_fail [within_intros]: "within X (fail e)"
  by (rule within_pure) (simp add: fail_def)

lemma within_seq [within_intros]:
  assumes m: "within X m" and f: "\<And>x. within X (f x)"
  shows "within X (seq m f)"
  unfolding within_def
proof (intro allI impI)
  fix fs r fs' assume a: "seq m f fs = (r, fs')"
  obtain r1 fs1 where 1: "m fs = (r1, fs1)" by (metis surj_pair)
  show "(\<forall>q. \<not> prefix X q \<longrightarrow> look (fs_entries fs') q = look (fs_entries fs) q) \<and>
      fs_unreadable fs' = fs_unreadable fs \<and> fs_random fs' = fs_random fs"
  proof (cases r1)
    case (Ret x)
    then have "f x fs1 = (r, fs')" using a 1 by (simp add: seq_def)
    from withinD [OF f this] withinD [OF m 1] show ?thesis by simp
  qed (use a 1 withinD [OF m 1] in \<open>auto simp: seq_def\<close>)
qed

lemma create_look: "create p s es = Inr (x, es') \<Longrightarrow> es' = put p (File s) es"
  by (auto simp: create_def split: option.splits node.splits)

lemma within_WriteFile [within_intros]: "prefix X p \<Longrightarrow> within X (WriteFile p s)"
  unfolding WriteFile_def
  by (rule within_attempt) (auto dest!: create_look split: sum.splits)

lemma look_filter: "look (filter (\<lambda>(q, _). P q) es) q = (if P q then look es q else None)"
  by (induction es) (auto simp: look_def)

lemma within_RemoveAll [within_intros]: "prefix X p \<Longrightarrow> within X (RemoveAll p)"
  unfolding RemoveAll_def
  by (rule within_attempt) (auto simp: look_filter)

lemma within_Remove [within_intros]: "prefix X p \<Longrightarrow> within X (Remove p)"
  unfolding Remove_def by (rule within_attempt) (auto simp: nothing_def split: option.splits node.splits if_splits)

lemma within_touch [within_intros]: "within X touch"
  unfolding touch_def by (rule within_attempt) (auto simp: nothing_def)

lemma within_ReadFile [within_intros]: "within X (ReadFile p)"
  by (rule within_pure) (auto simp: ReadFile_def split: option.splits node.splits)

lemma freshName_free: "freshName n dir pre rand i es = Some p \<Longrightarrow> look es p = None \<and> (\<exists>j. p = Join dir [pre @ rand j])"
  by (induction n arbitrary: i) (auto simp: Let_def split: if_splits)

text \<open>\<open>mkdirs\<close> only adds directories, on the path.\<close>

lemma mkdirs_look:
  assumes "mkdirs p cs es = Inr (x, es')"
  shows "look es' (p @ cs) = Some Dir"
    and "look es' q = (if look es q = None \<and> prefix p q \<and> prefix q (p @ cs) then Some Dir else look es q)"
  using assms
proof (atomize (full), induction cs arbitrary: p es)
  case Nil
  then show ?case by (subst (asm) mkdirs.simps) (auto split: option.splits node.splits dest: prefix_order.antisym)
next
  case (Cons c cs)
  define es1 where "es1 = (if look es p = None then put p Dir es else es)"
  have 1: "mkdirs (p @ [c]) cs es1 = Inr (x, es')"
    using Cons.prems by (subst (asm) mkdirs.simps) (auto simp: es1_def split: option.splits node.splits)
  have px: "prefix (p @ [c]) q \<and> prefix q (p @ c # cs) \<or> q = p \<longleftrightarrow> prefix p q \<and> prefix q (p @ c # cs)" for q
    by (auto simp: prefix_def Cons_eq_append_conv)
  from Cons.IH [OF 1] show ?case using px [of q] by (auto simp: es1_def)
qed

lemma MkdirAll_look:
  assumes "MkdirAll p fs = (r, fs')"
  shows "(look (fs_entries fs') q = look (fs_entries fs) q \<or>
      (look (fs_entries fs) q = None \<and> look (fs_entries fs') q = Some Dir \<and> prefix q p)) \<and>
    (r = Ret () \<longrightarrow> look (fs_entries fs') p = Some Dir)"
  using assms unfolding MkdirAll_def
proof (cases rule: attempt_cases)
  case (fault f)
  have "prefix q (take (flt_written f) p) \<Longrightarrow> prefix q p" by (meson prefix_order.trans take_is_prefix)
  then show ?thesis using fault mkdirs_look(2) [of "[]" "take (flt_written f) p" "fs_entries fs" _ _ q]
    by (auto split: sum.splits)
next
  case (ok x)
  from mkdirs_look(1) [OF ok(2)] mkdirs_look(2) [OF ok(2), of q] ok show ?thesis by auto
qed auto


section \<open>Calls keep the tree well-formed\<close>

definition fs_ok :: "filesys \<Rightarrow> bool" where
  "fs_ok fs \<longleftrightarrow> wf_tree (fs_entries fs) \<and> (\<forall>i. list_all is_digit (fs_random fs i))"

lemma wf_treeD:
  assumes "wf_tree es"
  shows "distinct (map fst es)" and "look es [] = Some Dir" and "look es (p @ [n]) \<noteq> None \<Longrightarrow> look es p = Some Dir"
  using assms unfolding wf_tree_def by blast+

lemma wf_put:
  assumes wf: "wf_tree es" and "p \<noteq> []" and "look es (butlast p) = Some Dir" and "n = Dir \<or> look es p \<noteq> Some Dir"
  shows "wf_tree (put p n es)"
proof -
  have "distinct (map fst (put p n es))" using wf_treeD(1) [OF wf] unfolding put_def by (rule distinct_update)
  moreover have "look (put p n es) q = Some Dir" if "look (put p n es) (q @ [m]) \<noteq> None" for q m
    using that wf_treeD(3) [OF wf, of q m] assms by (auto split: if_splits)
  ultimately show ?thesis using wf_treeD(2) [OF wf] \<open>p \<noteq> []\<close> unfolding wf_tree_def by simp
qed

lemma wf_filter:
  assumes wf: "wf_tree es" and "P []" and "\<And>p n. P (p @ [n]) \<Longrightarrow> P p"
  shows "wf_tree (filter (\<lambda>(q, _). P q) es)"
proof -
  have "distinct (map fst (filter (\<lambda>(q, _). P q) es))" using wf_treeD(1) [OF wf] by (rule distinct_map_filter)
  moreover have "look (filter (\<lambda>(q, _). P q) es) q = Some Dir" if "look (filter (\<lambda>(q, _). P q) es) (q @ [m]) \<noteq> None" for q m
    using that assms(3) [of q m] wf_treeD(3) [OF wf, of q m] by (auto simp: look_filter split: if_splits)
  ultimately show ?thesis using wf_treeD(2) [OF wf] assms(2) unfolding wf_tree_def by (simp add: look_filter)
qed

lemma wf_cut: "wf_tree es \<Longrightarrow> p \<noteq> [] \<Longrightarrow> wf_tree (cut p es)"
  unfolding cut_def by (rule wf_filter) (auto intro: prefix_order.trans)

lemma distinct_move:
  assumes "distinct (map fst es)"
  shows "distinct (map fst (move old new es))"
proof -
  let ?f = "\<lambda>q. if prefix old q then new @ drop (length old) q else q"
  have "distinct (map fst (cut new es))" unfolding cut_def using assms by (rule distinct_map_filter)
  moreover have "inj_on ?f (set (map fst (cut new es)))"
    by (rule inj_onI) (auto simp: cut_def prefix_def split: if_splits)
  ultimately have "distinct (map ?f (map fst (cut new es)))" by (simp only: distinct_map simp_thms)
  moreover have "map fst (move old new es) = map ?f (map fst (cut new es))" by (simp add: move_def split_beta)
  ultimately show ?thesis by simp
qed

lemma wf_move:
  assumes wf: "wf_tree es" and "\<not> prefix new old" and "\<not> prefix old new" and old: "look es old \<noteq> None"
    and dir: "look es (butlast new) = Some Dir"
  shows "wf_tree (move old new es)"
proof -
  note lk = look_move [OF assms(2,3)]
  have ne: "new \<noteq> []" using assms(2) by auto
  have nb: "\<not> prefix new (butlast new)" using ne prefix_length_le [of new "butlast new"] by (cases new) auto
  have ob: "\<not> prefix old (butlast new)" using assms(3) prefix_order.trans prefixeq_butlast by blast
  have "look (move old new es) q = Some Dir" if a: "look (move old new es) (q @ [m]) \<noteq> None" for q m
  proof (cases "prefix new (q @ [m])")
    case True
    show ?thesis
    proof (cases "new = q @ [m]")
      case True
      then have "q = butlast new" by simp
      then show ?thesis using dir nb ob by (simp add: lk)
    next
      case False
      with True have p: "prefix new q" by simp
      have "look es ((old @ drop (length new) q) @ [m]) \<noteq> None" using a True p by (auto simp: lk prefix_def)
      then show ?thesis using wf_treeD(3) [OF wf] p by (simp add: lk)
    qed
  next
    case False
    moreover have "\<not> prefix old (q @ [m])" "look es (q @ [m]) \<noteq> None" using a False by (auto simp: lk split: if_splits)
    ultimately show ?thesis using wf_treeD(3) [OF wf, of q m] by (auto simp: lk)
  qed
  moreover have "look (move old new es) [] = Some Dir" using wf_treeD(2) [OF wf] assms(2,3) ne by (auto simp: lk)
  ultimately show ?thesis using distinct_move [OF wf_treeD(1) [OF wf]] unfolding wf_tree_def by blast
qed

lemma wf_mkdirs: "mkdirs p cs es = Inr (x, es') \<Longrightarrow> wf_tree es \<Longrightarrow> p = [] \<or> look es (butlast p) = Some Dir \<Longrightarrow> wf_tree es'"
proof (induction cs arbitrary: p es)
  case Nil
  then have "look es p = None \<Longrightarrow> p \<noteq> []" using wf_treeD(2) [of es] by auto
  then show ?case using Nil wf_put [of es p Dir]
    by (subst (asm) mkdirs.simps) (auto split: option.splits node.splits)
next
  case (Cons c cs)
  define es1 where "es1 = (if look es p = None then put p Dir es else es)"
  have 1: "mkdirs (p @ [c]) cs es1 = Inr (x, es')" "look es1 p = Some Dir"
    using Cons.prems(1) by (subst (asm) mkdirs.simps, auto simp: es1_def split: option.splits node.splits)+
  have "look es p = None \<Longrightarrow> p \<noteq> []" using wf_treeD(2) [of es] Cons.prems(2) by auto
  then have "wf_tree es1" using Cons.prems(2,3) wf_put [of es p Dir] by (auto simp: es1_def)
  from Cons.IH [OF 1(1) this] 1(2) show ?case by simp
qed

lemma attempt_ok:
  assumes "attempt partly act fs = (r, fs')" and "fs_ok fs"
    and "\<And>f es. wf_tree es \<Longrightarrow> wf_tree (partly f es)"
    and "\<And>es x es'. wf_tree es \<Longrightarrow> act es = Inr (x, es') \<Longrightarrow> wf_tree es'"
  shows "fs_ok fs'"
proof -
  from assms(1) have "wf_tree (fs_entries fs')" using assms(2-) by (cases rule: attempt_cases) (auto simp: fs_ok_def)
  then show ?thesis using assms(2) attempt_rest(2) [OF assms(1)] by (simp add: fs_ok_def)
qed

lemma ens_attempt:
  assumes "\<And>f es. wf_tree es \<Longrightarrow> wf_tree (partly f es)"
    and "\<And>es x es'. wf_tree es \<Longrightarrow> act es = Inr (x, es') \<Longrightarrow> wf_tree es'"
  shows "ens fs_ok (attempt partly act) (\<lambda>_. True)"
proof (rule ensI)
  fix fs r fs' assume "fs_ok fs" and "attempt partly act fs = (r, fs')"
  from this(2,1) have "fs_ok fs'" by (rule attempt_ok) (fact assms)+
  then show "fs_ok fs' \<and> (\<forall>x. r = Ret x \<longrightarrow> True)" by simp
qed

lemma ens_MkdirAll [ens_intros]: "ens fs_ok (MkdirAll p) (\<lambda>_. True)"
  unfolding MkdirAll_def using wf_mkdirs [of "[]"] by (intro ens_attempt) (auto split: sum.splits)

lemma wf_create: "create p s es = Inr (x, es') \<Longrightarrow> wf_tree es \<Longrightarrow> wf_tree es'"
  using wf_put [of es p "File s"] wf_treeD(2) [of es]
  by (cases "p = []") (auto simp: create_def split: option.splits node.splits)

lemma ens_WriteFile [ens_intros]: "ens fs_ok (WriteFile p s) (\<lambda>_. True)"
  unfolding WriteFile_def by (rule ens_attempt) (auto dest: wf_create split: sum.splits)

lemma ens_Rename [ens_intros]: "ens fs_ok (Rename old new) (\<lambda>_. True)"
proof -
  have "wf_tree (move old new es)" if "wf_tree es" "look es old \<noteq> None" "look es (butlast new) = Some Dir" "\<not> prefix old new"
    "look es new \<noteq> Some Dir \<or> childNames new es = []" for es
  proof (cases "prefix new old")
    case True
    then obtain q where q: "old = new @ q" by (auto simp: prefix_def)
    with that(4) obtain c q' where c: "q = c # q'" by (cases q) auto
    have "look es ((new @ [c]) @ q') \<noteq> None" using that(2) q c by simp
    then have "look es (new @ [c]) \<noteq> None" using look_append [OF that(1), of "new @ [c]" q'] by (cases q') auto
    then have "c \<in> set (childNames new es)" "look es new = Some Dir" using wf_treeD(3) [OF that(1)] by (auto simp: set_childNames)
    then show ?thesis using that(5) by auto
  qed (use that in \<open>auto intro: wf_move\<close>)
  then show ?thesis unfolding Rename_def
    by (intro ens_attempt) (auto simp: nothing_def split: option.splits node.splits if_splits)
qed

lemma ens_Remove [ens_intros]: "p \<noteq> [] \<Longrightarrow> ens fs_ok (Remove p) (\<lambda>_. True)"
  unfolding Remove_def by (rule ens_attempt) (auto simp: nothing_def wf_cut split: option.splits node.splits if_splits)

lemma ens_RemoveAll [ens_intros]: "p \<noteq> [] \<Longrightarrow> ens fs_ok (RemoveAll p) (\<lambda>_. True)"
  unfolding RemoveAll_def
proof (rule ens_attempt)
  fix f es assume "wf_tree es" "p \<noteq> []"
  then show "wf_tree (filter (\<lambda>(q, _). \<not> (prefix p q \<and> q \<noteq> p \<and> (\<exists>k\<in>{length p<..length q}. flt_removed f (take k q)))) es)"
  proof (intro wf_filter)
    fix q n assume "\<not> (prefix p (q @ [n]) \<and> q @ [n] \<noteq> p \<and> (\<exists>k\<in>{length p<..length (q @ [n])}. flt_removed f (take k (q @ [n]))))"
    then show "\<not> (prefix p q \<and> q \<noteq> p \<and> (\<exists>k\<in>{length p<..length q}. flt_removed f (take k q)))"
      by (auto simp: prefix_def Ball_def)
  qed auto
qed (auto intro: wf_cut)

lemma plain_random: "plain pre \<Longrightarrow> list_all is_digit ds \<Longrightarrow> plain (pre @ ds)"
  by (cases ds rule: rev_cases) (auto simp: plain_def list_all_iff is_digit_code append_eq_Cons_conv)

lemma freshName_path:
  assumes "fs_ok fs" and "plain pre" and "freshName n dir pre (fs_random fs) i es = Some p"
  shows "look es p = None" and "\<exists>ds. list_all is_digit ds \<and> p = dir @ [pre @ ds] \<and> plain (pre @ ds)"
proof -
  from freshName_free [OF assms(3)] obtain j where "look es p = None" "p = Join dir [pre @ fs_random fs j]" by blast
  moreover have "list_all is_digit (fs_random fs j)" using assms(1) by (simp add: fs_ok_def)
  ultimately show "look es p = None" "\<exists>ds. list_all is_digit ds \<and> p = dir @ [pre @ ds] \<and> plain (pre @ ds)"
    using plain_random [OF assms(2), of "fs_random fs j"] by (auto simp: Join_plain)
qed

lemma ens_newNode [ens_intros]: "plain pre \<Longrightarrow> ens fs_ok (newNode n dir pre) (\<lambda>_. True)"
proof (rule ensI)
  fix fs r fs' assume pre: "plain pre" and ok: "fs_ok fs" and a: "newNode n dir pre fs = (r, fs')"
  note a' = a [unfolded newNode_def]
  have "fs_ok fs'"
  proof (rule attempt_ok [OF a' ok])
    fix es x es' assume "wf_tree es" and "(case look es dir of None \<Rightarrow> Inl ErrNotExist | Some (File _) \<Rightarrow> Inl ErrNotDir
      | Some Dir \<Rightarrow> case freshName 10000 dir pre (fs_random fs) (fs_calls fs) es of None \<Rightarrow> Inl ErrExist
          | Some p \<Rightarrow> Inr (p, put p n es)) = Inr (x, es')"
    then show "wf_tree es'" using freshName_path [OF ok pre, of 10000 dir "fs_calls fs" es]
      by (auto intro!: wf_put split: option.splits node.splits)
  qed (simp add: nothing_def)
  then show "fs_ok fs' \<and> (\<forall>x. r = Ret x \<longrightarrow> True)" by simp
qed

lemma newNode_spec:
  assumes "fs_ok fs" and "plain pre" and "newNode n dir pre fs = (Ret p, fs')"
  shows "\<exists>ds. list_all is_digit ds \<and> p = dir @ [pre @ ds]" and "look (fs_entries fs') (p @ q) = (if q = [] then Some n else None)"
    and "\<not> prefix p r \<Longrightarrow> look (fs_entries fs') r = look (fs_entries fs) r" and "fs_unreadable fs' = fs_unreadable fs"
proof -
  note a = assms(3) [unfolded newNode_def]
  have f: "freshName 10000 dir pre (fs_random fs) (fs_calls fs) (fs_entries fs) = Some p" "fs_entries fs' = put p n (fs_entries fs)"
    using a by (cases rule: attempt_cases; auto split: option.splits node.splits)+
  note p = freshName_path [OF assms(1,2) f(1)]
  have "look (fs_entries fs) (p @ q) = None"
  proof (rule ccontr)
    assume "look (fs_entries fs) (p @ q) \<noteq> None"
    then show False using p(1) look_append [of "fs_entries fs" p q] assms(1) by (cases "q = []") (auto simp: fs_ok_def)
  qed
  then show "look (fs_entries fs') (p @ q) = (if q = [] then Some n else None)" by (simp add: f(2))
  show "\<exists>ds. list_all is_digit ds \<and> p = dir @ [pre @ ds]" using p(2) by blast
  show "\<not> prefix p r \<Longrightarrow> look (fs_entries fs') r = look (fs_entries fs) r" by (auto simp: f(2))
  show "fs_unreadable fs' = fs_unreadable fs" using attempt_rest(1) [OF a] .
qed

lemma ens_touch [ens_intros]: "ens fs_ok touch (\<lambda>_. True)"
  unfolding touch_def by (rule ens_attempt) (auto simp: nothing_def)

lemma ens_pure: "(\<And>fs. snd (m fs) = fs) \<Longrightarrow> ens I m (\<lambda>_. True)"
  by (simp add: ens_def)

lemma ens_ReadFile [ens_intros]: "ens I (ReadFile p) (\<lambda>_. True)"
  by (rule ens_pure) (auto simp: ReadFile_def split: option.splits node.splits)

section \<open>Successful calls\<close>

lemma WriteFile_Ret:
  assumes "WriteFile p s fs = (Ret x, fs')"
  shows "fs_entries fs' = put p (File s) (fs_entries fs)" and "fs_unreadable fs' = fs_unreadable fs"
proof -
  note a = assms [unfolded WriteFile_def]
  from a show "fs_entries fs' = put p (File s) (fs_entries fs)" by (cases rule: attempt_cases) (auto dest: create_look)
  show "fs_unreadable fs' = fs_unreadable fs" using attempt_rest(1) [OF a] .
qed

lemma Rename_Ret:
  assumes "Rename old new fs = (Ret x, fs')" and "\<not> prefix new old" and "old \<noteq> new"
  shows "fs_entries fs' = move old new (fs_entries fs)" and "\<not> prefix old new" and "fs_unreadable fs' = fs_unreadable fs"
proof -
  note a = assms(1) [unfolded Rename_def]
  from a show "fs_entries fs' = move old new (fs_entries fs)" "\<not> prefix old new"
    using assms(2,3) by (cases rule: attempt_cases; auto split: option.splits node.splits if_splits)+
  show "fs_unreadable fs' = fs_unreadable fs" using attempt_rest(1) [OF a] .
qed

lemma Rename_file:
  assumes "Rename old new fs = (Ret x, fs')" and "look (fs_entries fs) old = Some (File s)" and "old \<noteq> new"
  shows "look (fs_entries fs) new \<noteq> Some Dir"
  using assms(1) unfolding Rename_def
  by (cases rule: attempt_cases) (use assms(2,3) in \<open>auto split: option.splits node.splits if_splits\<close>)

lemma look_below: "wf_tree es \<Longrightarrow> look es p \<noteq> Some Dir \<Longrightarrow> q \<noteq> [] \<Longrightarrow> look es (p @ q) = None"
  using look_append [of es p q] by (cases "look es (p @ q)") auto

lemma RemoveAll_cases:
  assumes "RemoveAll p fs = (r, fs')"
  obtains (ok) "r = Ret ()" and "fs_entries fs' = cut p (fs_entries fs)"
  | (fault) "r = Fail ErrIO" and "\<And>q. look (fs_entries fs') q = look (fs_entries fs) q \<or> (prefix p q \<and> q \<noteq> p \<and> look (fs_entries fs') q = None)"
  using assms unfolding RemoveAll_def by (elim attempt_cases) (auto simp: look_filter)

lemma Remove_cases:
  assumes "Remove p fs = (r, fs')"
  obtains (ok) "r = Ret ()" and "fs_entries fs' = cut p (fs_entries fs)"
  | (err) e where "r = Fail e" and "fs_entries fs' = fs_entries fs"
  using assms unfolding Remove_def
  by (elim attempt_cases) (auto simp: nothing_def split: option.splits node.splits if_splits)

end
