(* ===== verification/Digest.thy ===== *)
theory Digest
  imports GoStd
begin

text \<open>
  Digest strings, \<^verbatim>\<open>vendor/src/github.com/docker/distribution/digest/digest.go\<close>:
  their form, their validation and their two parts.
\<close>

section \<open>Digest strings\<close>

datatype digest_err = ErrDigestInvalidFormat | ErrDigestInvalidLength | ErrDigestUnsupported

text \<open>The two character classes of \<open>DigestRegexp\<close>.\<close>

definition alg_char :: "char \<Rightarrow> bool" where
  "alg_char c \<longleftrightarrow> is_lower c \<or> is_upper c \<or> is_digit c \<or> c \<in> set ''-_+.''"

definition hex_char :: "char \<Rightarrow> bool" where
  "hex_char c \<longleftrightarrow> in_range CHR ''a'' CHR ''f'' c \<or> in_range CHR ''A'' CHR ''F'' c \<or> is_digit c"

definition sep :: char where
  "sep = CHR '':''"

definition before_sep :: "string \<Rightarrow> string" where
  "before_sep s = takeWhile (\<lambda>c. c \<noteq> sep) s"

definition after_sep :: "string \<Rightarrow> string" where
  "after_sep s = drop 1 (dropWhile (\<lambda>c. c \<noteq> sep) s)"

text \<open>
  \<open>DigestRegexpAnchored.MatchString\<close>: one or more characters of the first class, a colon, one or
  more of the second. Neither class has the colon, so the colon of a match is the first one.
\<close>

definition digestRegexpAnchored :: "string \<Rightarrow> bool" where
  "digestRegexpAnchored s \<longleftrightarrow> sep \<in> set s \<and> before_sep s \<noteq> [] \<and> list_all alg_char (before_sep s) \<and>
     after_sep s \<noteq> [] \<and> list_all hex_char (after_sep s)"

definition algSize :: "string \<Rightarrow> nat option" where
  "algSize a = (if a = ''sha256'' then Some 32 else if a = ''sha384'' then Some 48
     else if a = ''sha512'' then Some 64 else None)"

definition Validate :: "string \<Rightarrow> digest_err option" where
  "Validate s =
     (if \<not> digestRegexpAnchored s then Some ErrDigestInvalidFormat else
      case indexByte sep s of
        None \<Rightarrow> Some ErrDigestInvalidFormat
      | Some i \<Rightarrow>
          if i + 1 = length s then Some ErrDigestInvalidFormat else
          (case algSize (take i s) of
             Some n \<Rightarrow> if n * 2 \<noteq> length (drop (i + 1) s) then Some ErrDigestInvalidLength else None
           | None \<Rightarrow> Some ErrDigestUnsupported))"

definition ParseDigest :: "string \<Rightarrow> string \<times> digest_err option" where
  "ParseDigest s = (s, Validate s)"

text \<open>\<open>sepIndex\<close> panics on a string without a colon, and with it \<open>Algorithm\<close> and \<open>Hex\<close>.\<close>

definition sepIndex :: "string \<Rightarrow> nat option" where
  "sepIndex d = indexByte sep d"

definition Algorithm :: "string \<Rightarrow> string option" where
  "Algorithm d = map_option (\<lambda>i. take i d) (sepIndex d)"

definition Hex :: "string \<Rightarrow> string option" where
  "Hex d = map_option (\<lambda>i. drop (i + 1) d) (sepIndex d)"

definition NewDigestFromHex :: "string \<Rightarrow> string \<Rightarrow> string" where
  "NewDigestFromHex alg hex = alg @ sep # hex"

lemma indexByte_sep: "sep \<in> set s \<Longrightarrow> indexByte sep s = Some (length (before_sep s))"
  by (simp add: indexByte_takeWhile before_sep_def)

lemma take_before_sep: "take (length (before_sep s)) s = before_sep s"
  by (simp add: before_sep_def takeWhile_eq_take [symmetric])

lemma drop_after_sep: "drop (length (before_sep s) + 1) s = after_sep s"
  unfolding before_sep_def after_sep_def
  by (simp add: dropWhile_eq_drop [of _ s] add.commute)

lemma sep_split: "sep \<in> set s \<Longrightarrow> s = before_sep s @ sep # after_sep s"
  unfolding before_sep_def after_sep_def
  by (induction s) auto

lemma Algorithm_eq: "Algorithm d = (if sep \<in> set d then Some (before_sep d) else None)"
  by (simp add: Algorithm_def sepIndex_def indexByte_sep take_before_sep indexByte_takeWhile before_sep_def [symmetric])

lemma Hex_eq: "Hex d = (if sep \<in> set d then Some (after_sep d) else None)"
  using drop_after_sep [of d]
  by (simp add: Hex_def sepIndex_def indexByte_takeWhile before_sep_def [symmetric])

lemma Validate_eq:
  "Validate s = (if \<not> digestRegexpAnchored s then Some ErrDigestInvalidFormat else
     (case algSize (before_sep s) of
        Some n \<Rightarrow> if n * 2 \<noteq> length (after_sep s) then Some ErrDigestInvalidLength else None
      | None \<Rightarrow> Some ErrDigestUnsupported))"
proof (cases "digestRegexpAnchored s")
  case True
  then have "sep \<in> set s" "after_sep s \<noteq> []" by (simp_all add: digestRegexpAnchored_def)
  moreover have "length (before_sep s) + 1 \<noteq> length s"
    using drop_after_sep [of s] \<open>after_sep s \<noteq> []\<close> by auto
  ultimately show ?thesis using True drop_after_sep [of s]
    by (simp add: Validate_def indexByte_sep take_before_sep split: option.split del: length_drop)
qed (simp add: Validate_def)

lemma Validate_None:
  "Validate s = None \<longleftrightarrow> digestRegexpAnchored s \<and> (\<exists>n. algSize (before_sep s) = Some n \<and> length (after_sep s) = n * 2)"
  by (auto simp: Validate_eq split: option.splits if_splits)

lemma before_sep_append: "sep \<notin> set a \<Longrightarrow> before_sep (a @ sep # h) = a"
  by (induction a) (auto simp: before_sep_def)

lemma after_sep_append: "sep \<notin> set a \<Longrightarrow> after_sep (a @ sep # h) = h"
  by (induction a) (auto simp: after_sep_def)

end
