(* ===== verification/DigestPath.thy ===== *)
theory DigestPath
  imports GoFS Digest
begin

text \<open>
  Digests as parts of paths: the algorithm and the value of a valid digest are plain file names, and a
  digest read from a file is not changed by trimming.
\<close>

lemma hex_char_plain: "list_all hex_char s \<Longrightarrow> s \<noteq> [] \<Longrightarrow> plain s"
  by (cases s) (auto simp: plain_def list_all_iff hex_char_def in_range_def is_digit_def less_eq_char_def)

lemma valid_parts:
  assumes "Validate c = None"
  shows "Algorithm c = Some (before_sep c)" and "Hex c = Some (after_sep c)" and "plain (before_sep c)" and "plain (after_sep c)"
    and "before_sep c \<in> {''sha256'', ''sha384'', ''sha512''}" and "c = before_sep c @ sep # after_sep c"
proof -
  have v: "digestRegexpAnchored c" "before_sep c \<in> {''sha256'', ''sha384'', ''sha512''}"
    using assms by (auto simp: Validate_None algSize_def split: if_splits)
  then have s: "sep \<in> set c" by (simp add: digestRegexpAnchored_def)
  from v(2) show "plain (before_sep c)" by (auto simp: plain_def)
  show "plain (after_sep c)" using v(1) by (auto simp: digestRegexpAnchored_def intro: hex_char_plain)
  show "Algorithm c = Some (before_sep c)" "Hex c = Some (after_sep c)" using s by (simp_all add: Algorithm_eq Hex_eq)
  show "before_sep c \<in> {''sha256'', ''sha384'', ''sha512''}" "c = before_sep c @ sep # after_sep c"
    using v(2) sep_split [OF s] by simp_all
qed

lemma digest_trim: "Validate d = None \<Longrightarrow> TrimSpace d = d"
proof -
  assume "Validate d = None"
  then have "digestRegexpAnchored d" by (simp add: Validate_None)
  then have parts: "list_all alg_char (before_sep d)" "list_all hex_char (after_sep d)" "before_sep d @ sep # after_sep d = d"
    using sep_split [of d] by (simp_all add: digestRegexpAnchored_def)
  have "alg_char c \<or> hex_char c \<or> c = sep \<Longrightarrow> \<not> is_space c" for c
    by (auto simp: alg_char_def hex_char_def sep_def is_space_def in_range_def is_digit_def is_lower_def is_upper_def less_eq_char_def)
  then have "list_all (\<lambda>c. \<not> is_space c) (before_sep d @ sep # after_sep d)" using parts(1,2) by (auto simp: list_all_iff)
  then have "list_all (\<lambda>c. \<not> is_space c) d" by (simp only: parts(3))
  then show ?thesis by (rule TrimSpace_id)
qed

section \<open>A small concrete tree\<close>

lemma freshName_first: "look es (Join dir [pre @ rand i]) = None \<Longrightarrow> 0 < n \<Longrightarrow> freshName n dir pre rand i es = Some (Join dir [pre @ rand i])"
  by (cases n) simp_all

definition demo_fs :: filesys where
  "demo_fs = \<lparr>fs_entries = [([], Dir)], fs_fault = (\<lambda>_. None), fs_unreadable = (\<lambda>_. False), fs_random = showNat, fs_calls = 0\<rparr>"

lemma demo_fs_ok: "fs_ok demo_fs"
  using showNat_digits by (auto simp: fs_ok_def demo_fs_def wf_tree_def look_def)

definition demo_dgst :: "char \<Rightarrow> string" where
  "demo_dgst c = ''sha256:'' @ replicate 64 c"

lemma demo_dgst_valid: "c \<in> {CHR ''a'', CHR ''b''} \<Longrightarrow> Validate (demo_dgst c) = None"
proof -
  assume c: "c \<in> {CHR ''a'', CHR ''b''}"
  have d: "demo_dgst c = ''sha256'' @ sep # replicate 64 c" by (simp add: demo_dgst_def sep_def)
  have parts: "before_sep (demo_dgst c) = ''sha256''" "after_sep (demo_dgst c) = replicate 64 c"
    unfolding d using before_sep_append [of "''sha256''" "replicate 64 c"] after_sep_append [of "''sha256''" "replicate 64 c"]
    by (simp_all add: sep_def)
  have "sep \<in> set (demo_dgst c)" by (simp add: d)
  then show ?thesis using c
    by (auto simp: Validate_None digestRegexpAnchored_def parts algSize_def alg_char_def hex_char_def list_all_iff
        is_lower_def is_digit_def in_range_def less_eq_char_def)
qed

lemma demo_parts: "before_sep (demo_dgst CHR ''a'') = ''sha256''" "after_sep (demo_dgst CHR ''a'') = replicate 64 CHR ''a''"
proof -
  have d: "demo_dgst CHR ''a'' = ''sha256'' @ sep # replicate 64 CHR ''a''" by (simp add: demo_dgst_def sep_def)
  show "before_sep (demo_dgst CHR ''a'') = ''sha256''" "after_sep (demo_dgst CHR ''a'') = replicate 64 CHR ''a''"
    unfolding d using before_sep_append [of "''sha256''" "replicate 64 CHR ''a''"] after_sep_append [of "''sha256''" "replicate 64 CHR ''a''"]
    by (simp_all add: sep_def)
qed

definition demo_hex :: string where "demo_hex = replicate 64 CHR ''a''"

end
