(* ===== verification/FileStore.thy ===== *)
theory FileStore
  imports LayerStore DigestPath
begin

text \<open>
  The metadata store of the layers, \<^verbatim>\<open>layer/filestore.go\<close>: one directory per layer and per mount, filled in a
  temporary directory and moved into place by the commit. JSON encoding of a descriptor is a
  parameter.
\<close>

section \<open>Paths and identifiers\<close>

definition supportedAlgorithms :: "string list" where
  "supportedAlgorithms = [''sha256'']"

text \<open>\<open>^[a-f0-9]{64}(-init)?$\<close>\<close>

definition stringIDRegexp :: "string \<Rightarrow> bool" where
  "stringIDRegexp s \<longleftrightarrow> length (take 64 s) = 64 \<and>
     list_all (\<lambda>c. in_range CHR ''a'' CHR ''f'' c \<or> is_digit c) (take 64 s) \<and> drop 64 s \<in> {'''', ''-init''}"

text \<open>\<open>Algorithm\<close> and \<open>Hex\<close> panic on a string that is not a digest.\<close>

definition getLayerDirectory :: "path \<Rightarrow> string \<Rightarrow> path fsM" where
  "getLayerDirectory root layer = (case (Algorithm layer, Hex layer) of
      (Some a, Some h) \<Rightarrow> ret (Join root [a, h])
    | _ \<Rightarrow> gopanic ''could not find ':' in digest'')"

definition getLayerFilename :: "path \<Rightarrow> string \<Rightarrow> string \<Rightarrow> path fsM" where
  "getLayerFilename root layer filename = seq (getLayerDirectory root layer) (\<lambda>d. ret (Join d [filename]))"

definition getMountDirectory :: "path \<Rightarrow> string \<Rightarrow> path" where
  "getMountDirectory root mount = Join root [''mounts'', mount]"

definition getMountFilename :: "path \<Rightarrow> string \<Rightarrow> string \<Rightarrow> path" where
  "getMountFilename root mount filename = Join (getMountDirectory root mount) [filename]"

definition NewFSMetadataStore :: "path \<Rightarrow> path fsM" where
  "NewFSMetadataStore root = seq (MkdirAll root) (\<lambda>_. ret root)"

section \<open>Transactions\<close>

text \<open>A transaction is its temporary directory.\<close>

definition StartTransaction :: "path \<Rightarrow> path fsM" where
  "StartTransaction root =
     (let tmpDir = Join root [''tmp''] in
      seq (MkdirAll tmpDir) (\<lambda>_. TempDir tmpDir ''layer-''))"

definition SetSize :: "path \<Rightarrow> int64 \<Rightarrow> unit fsM" where
  "SetSize tx size' = WriteFile (Join tx [''size'']) (showInt (sint size'))"

definition SetParent :: "path \<Rightarrow> string \<Rightarrow> unit fsM" where
  "SetParent tx parent = WriteFile (Join tx [''parent'']) parent"

definition SetDiffID :: "path \<Rightarrow> string \<Rightarrow> unit fsM" where
  "SetDiffID tx diff = WriteFile (Join tx [''diff'']) diff"

definition SetCacheID :: "path \<Rightarrow> string \<Rightarrow> unit fsM" where
  "SetCacheID tx cacheID = WriteFile (Join tx [''cache-id'']) cacheID"

definition SetDescriptor :: "(Descriptor \<Rightarrow> string) \<Rightarrow> path \<Rightarrow> Descriptor \<Rightarrow> unit fsM" where
  "SetDescriptor marshal tx ref = WriteFile (Join tx [''descriptor.json'']) (marshal ref)"

text \<open>
  Opening the tar-split file truncates it. The writer is the file with the choice whether \<open>gzip\<close>
  compresses what is written to it; closing it leaves the data, compressed or not, in the file.
\<close>

definition TarSplitWriter :: "path \<Rightarrow> bool \<Rightarrow> (path \<times> bool) fsM" where
  "TarSplitWriter tx compressInput =
     (let f = Join tx [''tar-split.json.gz''] in
      seq (WriteFile f '''') (\<lambda>_. ret (f, compressInput)))"

definition tarSplitClose :: "(string \<Rightarrow> string) \<Rightarrow> path \<times> bool \<Rightarrow> string \<Rightarrow> unit fsM" where
  "tarSplitClose gzip wc written = (case wc of (f, compressInput) \<Rightarrow>
     WriteFile f (if compressInput then gzip written else written))"

definition Commit :: "path \<Rightarrow> path \<Rightarrow> string \<Rightarrow> unit fsM" where
  "Commit root tx layer =
     seq (getLayerDirectory root layer) (\<lambda>finalDir.
     seq (MkdirAll (butlast finalDir)) (\<lambda>_.
     Rename tx finalDir))"

definition CancelTx :: "path \<Rightarrow> unit fsM" where
  "CancelTx tx = RemoveAll tx"

section \<open>Reading\<close>

definition GetSize :: "path \<Rightarrow> string \<Rightarrow> int64 fsM" where
  "GetSize root layer =
     seq (getLayerFilename root layer ''size'') (\<lambda>f.
     seq (ReadFile f) (\<lambda>content.
     case ParseInt content of Some n \<Rightarrow> ret n | None \<Rightarrow> fail (ErrMsg ''invalid size'')))"

text \<open>A missing file gives the zero value, any other error is returned.\<close>

definition readOptional :: "path \<Rightarrow> string option fsM" where
  "readOptional f fs = (case ReadFile f fs of
      (Ret s, fs) \<Rightarrow> (Ret (Some s), fs)
    | (Fail e, fs) \<Rightarrow> if e = ErrNotExist then (Ret None, fs) else (Fail e, fs)
    | (Panic m, fs) \<Rightarrow> (Panic m, fs))"

definition parseDigestFile :: "string \<Rightarrow> string fsM" where
  "parseDigestFile content = (case ParseDigest (TrimSpace content) of
      (dgst, None) \<Rightarrow> ret dgst
    | (_, Some _) \<Rightarrow> fail (ErrMsg ''invalid digest''))"

definition GetParent :: "path \<Rightarrow> string \<Rightarrow> string fsM" where
  "GetParent root layer =
     seq (getLayerFilename root layer ''parent'') (\<lambda>f.
     seq (readOptional f) (\<lambda>content.
     case content of None \<Rightarrow> ret '''' | Some s \<Rightarrow> parseDigestFile s))"

definition GetDiffID :: "path \<Rightarrow> string \<Rightarrow> string fsM" where
  "GetDiffID root layer =
     seq (getLayerFilename root layer ''diff'') (\<lambda>f.
     seq (ReadFile f) parseDigestFile)"

definition checkID :: "string \<Rightarrow> string \<Rightarrow> string fsM" where
  "checkID msg contentBytes =
     (let content = TrimSpace contentBytes in
      if \<not> stringIDRegexp content then fail (ErrMsg msg) else ret content)"

definition GetCacheID :: "path \<Rightarrow> string \<Rightarrow> string fsM" where
  "GetCacheID root layer =
     seq (getLayerFilename root layer ''cache-id'') (\<lambda>f.
     seq (ReadFile f) (checkID ''invalid cache id value''))"

definition GetDescriptor :: "(string \<Rightarrow> Descriptor option) \<Rightarrow> path \<Rightarrow> string \<Rightarrow> Descriptor fsM" where
  "GetDescriptor unmarshal root layer =
     seq (getLayerFilename root layer ''descriptor.json'') (\<lambda>f.
     seq (readOptional f) (\<lambda>content.
     case content of
       None \<Rightarrow> ret emptyDescriptor
     | Some s \<Rightarrow> (case unmarshal s of Some ref \<Rightarrow> ret ref | None \<Rightarrow> fail (ErrMsg ''invalid descriptor''))))"

definition TarSplitReader :: "(string \<Rightarrow> string option) \<Rightarrow> path \<Rightarrow> string \<Rightarrow> string fsM" where
  "TarSplitReader gunzip root layer =
     seq (getLayerFilename root layer ''tar-split.json.gz'') (\<lambda>f.
     seq (ReadFile f) (\<lambda>s. case gunzip s of Some d \<Rightarrow> ret d | None \<Rightarrow> fail (ErrMsg ''gzip'')))"

section \<open>Mounts\<close>

definition setMountFile :: "path \<Rightarrow> string \<Rightarrow> string \<Rightarrow> string \<Rightarrow> unit fsM" where
  "setMountFile root mount filename content =
     seq (MkdirAll (getMountDirectory root mount)) (\<lambda>_. WriteFile (getMountFilename root mount filename) content)"

definition SetMountID :: "path \<Rightarrow> string \<Rightarrow> string \<Rightarrow> unit fsM" where
  "SetMountID root mount mountID = setMountFile root mount ''mount-id'' mountID"

definition SetInitID :: "path \<Rightarrow> string \<Rightarrow> string \<Rightarrow> unit fsM" where
  "SetInitID root mount init = setMountFile root mount ''init-id'' init"

definition SetMountParent :: "path \<Rightarrow> string \<Rightarrow> string \<Rightarrow> unit fsM" where
  "SetMountParent root mount parent = setMountFile root mount ''parent'' parent"

definition fmsGetMountID :: "path \<Rightarrow> string \<Rightarrow> string fsM" where
  "fmsGetMountID root mount =
     seq (ReadFile (getMountFilename root mount ''mount-id'')) (checkID ''invalid mount id value'')"

definition GetInitID :: "path \<Rightarrow> string \<Rightarrow> string fsM" where
  "GetInitID root mount =
     seq (readOptional (getMountFilename root mount ''init-id'')) (\<lambda>content.
     case content of None \<Rightarrow> ret '''' | Some s \<Rightarrow> checkID ''invalid init id value'' s)"

definition GetMountParent :: "path \<Rightarrow> string \<Rightarrow> string fsM" where
  "GetMountParent root mount =
     seq (readOptional (getMountFilename root mount ''parent'')) (\<lambda>content.
     case content of None \<Rightarrow> ret '''' | Some s \<Rightarrow> parseDigestFile s)"

section \<open>Listing and removing\<close>

text \<open>\<open>ReadDir\<close> of a directory that may be missing.\<close>

definition readDirOptional :: "path \<Rightarrow> (string \<times> bool) list option fsM" where
  "readDirOptional d fs = (case ReadDir d fs of
      (Ret s, fs) \<Rightarrow> (Ret (Some s), fs)
    | (Fail e, fs) \<Rightarrow> if e = ErrNotExist then (Ret None, fs) else (Fail e, fs)
    | (Panic m, fs) \<Rightarrow> (Panic m, fs))"

fun listLayers :: "path \<Rightarrow> string list \<Rightarrow> string list fsM" where
  "listLayers root [] = ret []"
| "listLayers root (alg # algs) =
     seq (readDirOptional (Join root [alg])) (\<lambda>infos.
     seq (listLayers root algs) (\<lambda>rest.
     ret ((case infos of
             None \<Rightarrow> []
           | Some fis \<Rightarrow> filter (\<lambda>d. Validate d = None)
               (map (\<lambda>(name, _). NewDigestFromHex alg name) (filter (\<lambda>(name, isDir). isDir \<and> name \<noteq> ''mounts'') fis))) @ rest)))"

definition ListAll :: "path \<Rightarrow> (string list \<times> string list) fsM" where
  "ListAll root =
     seq (listLayers root supportedAlgorithms) (\<lambda>ids.
     seq (readDirOptional (Join root [''mounts''])) (\<lambda>infos.
     ret (ids, case infos of None \<Rightarrow> [] | Some fis \<Rightarrow> map fst (filter snd fis))))"

definition RemoveLayer :: "path \<Rightarrow> string \<Rightarrow> unit fsM" where
  "RemoveLayer root layer = seq (getLayerDirectory root layer) RemoveAll"

definition RemoveMount :: "path \<Rightarrow> string \<Rightarrow> unit fsM" where
  "RemoveMount root mount = RemoveAll (getMountDirectory root mount)"

section \<open>Where the files are\<close>

definition layerDir :: "path \<Rightarrow> string \<Rightarrow> path" where
  "layerDir root c = root @ [before_sep c, after_sep c]"

definition tmpDir :: "path \<Rightarrow> path" where
  "tmpDir root = root @ [''tmp'']"

definition mountDir :: "path \<Rightarrow> string \<Rightarrow> path" where
  "mountDir root m = root @ [''mounts'', m]"

lemma plain_consts [simp]:
  "plain ''tmp''" "plain ''mounts''" "plain ''size''" "plain ''parent''" "plain ''diff''" "plain ''cache-id''"
  "plain ''descriptor.json''" "plain ''tar-split.json.gz''" "plain ''mount-id''" "plain ''init-id''" "plain ''layer-''" "plain ''sha256''"
  by (simp_all add: plain_def)

lemma getLayerDirectory_valid: "Validate c = None \<Longrightarrow> getLayerDirectory root c = ret (layerDir root c)"
  using valid_parts [of c] by (simp add: getLayerDirectory_def layerDir_def Join_plain)

lemma getLayerFilename_valid: "Validate c = None \<Longrightarrow> plain f \<Longrightarrow> getLayerFilename root c f = ret (layerDir root c @ [f])"
  by (simp add: getLayerFilename_def getLayerDirectory_valid Join_plain)

lemma mount_paths:
  "plain m \<Longrightarrow> getMountDirectory root m = mountDir root m"
  "plain m \<Longrightarrow> plain f \<Longrightarrow> getMountFilename root m f = mountDir root m @ [f]"
  by (simp_all add: getMountFilename_def getMountDirectory_def mountDir_def Join_plain)

lemma layerDir_apart:
  assumes "Validate c = None"
  shows "\<not> prefix (tmpDir root) (layerDir root c @ q)" and "\<not> prefix (mountDir root m) (layerDir root c @ q)"
    and "\<not> prefix (tmpDir root) (mountDir root m @ q)" and "\<not> prefix (layerDir root c) (tmpDir root @ q)"
    and "\<not> prefix (tmpDir root) (root @ [before_sep c])" and "\<not> prefix (layerDir root c) (mountDir root m @ q)"
  using valid_parts(5) [OF assms] by (auto simp: layerDir_def tmpDir_def mountDir_def)

lemma layerDir_inj: "Validate c = None \<Longrightarrow> Validate c' = None \<Longrightarrow> prefix (layerDir root c) (layerDir root c' @ q) \<longleftrightarrow> c = c'"
  using valid_parts(6) [of c] valid_parts(6) [of c'] by (auto simp: layerDir_def)

lemmas getter_defs = GetSize_def GetParent_def GetDiffID_def GetCacheID_def GetDescriptor_def fmsGetMountID_def GetInitID_def
  GetMountParent_def readOptional_def ReadFile_def parseDigestFile_def checkID_def

text \<open>What the getters read from the directory of a layer.\<close>

lemma ReadFile_look: "ReadFile p fs = (case look (fs_entries fs) p of
    None \<Rightarrow> (Fail ErrNotExist, fs)
  | Some Dir \<Rightarrow> (Fail ErrIsDir, fs)
  | Some (File s) \<Rightarrow> if fs_unreadable fs p then (Fail ErrIO, fs) else (Ret s, fs))"
  by (simp add: ReadFile_def)

lemma cacheID_trim: "stringIDRegexp s \<Longrightarrow> TrimSpace s = s"
proof -
  assume s: "stringIDRegexp s"
  have "\<not> is_space c" if "in_range CHR ''a'' CHR ''f'' c \<or> is_digit c" for c
    using that by (auto simp: is_space_def in_range_def is_digit_def less_eq_char_def)
  moreover have "list_all (\<lambda>c. \<not> is_space c) (drop 64 s)" using s by (auto simp: stringIDRegexp_def is_space_def)
  ultimately have "list_all (\<lambda>c. \<not> is_space c) (take 64 s @ drop 64 s)"
    using s unfolding stringIDRegexp_def list_all_append by (metis (no_types, lifting) list.pred_mono_strong)
  then show ?thesis by (simp add: TrimSpace_id)
qed


section \<open>Uncommitted transactions\<close>

text \<open>Everything the store can be asked about a layer or a mount.\<close>

definition layerView :: "(string \<Rightarrow> Descriptor option) \<Rightarrow> path \<Rightarrow> string \<Rightarrow> filesys \<Rightarrow>
    (os_err, string) outcome \<times> (os_err, int64) outcome \<times> (os_err, string) outcome \<times> (os_err, string) outcome \<times> (os_err, Descriptor) outcome" where
  "layerView unmarshal root c fs = (fst (GetDiffID root c fs), fst (GetSize root c fs), fst (GetCacheID root c fs),
     fst (GetParent root c fs), fst (GetDescriptor unmarshal root c fs))"

definition mountView :: "path \<Rightarrow> string \<Rightarrow> filesys \<Rightarrow> (os_err, string) outcome \<times> (os_err, string) outcome \<times> (os_err, string) outcome" where
  "mountView root m fs = (fst (fmsGetMountID root m fs), fst (GetInitID root m fs), fst (GetMountParent root m fs))"

lemma fst_seq_cong:
  assumes "fst (m s') = fst (m s)" and "\<And>x t t'. fst (f x t') = fst (f x t)"
  shows "fst (seq m f s') = fst (seq m f s)"
  using assms(1) assms(2) by (cases "m s"; cases "m s'") (auto simp: seq_def split: outcome.split)

lemma stateless:
  "fst (ret x t') = fst (ret x t)" "fst (fail e t') = fst (fail e t)"
  "fst (parseDigestFile s t') = fst (parseDigestFile s t)" "fst (checkID msg s t') = fst (checkID msg s t)"
  by (simp_all add: ret_def fail_def parseDigestFile_def checkID_def Let_def split: prod.split option.split)

lemma fst_read_cong:
  assumes "look (fs_entries fs') p = look (fs_entries fs) p" and "fs_unreadable fs' = fs_unreadable fs"
  shows "fst (ReadFile p fs') = fst (ReadFile p fs)" and "fst (readOptional p fs') = fst (readOptional p fs)"
  using assms by (auto simp: ReadFile_def readOptional_def split: option.split node.split)

lemma layerView_cong:
  assumes "Validate c = None" and "\<And>q. look (fs_entries fs') (layerDir root c @ q) = look (fs_entries fs) (layerDir root c @ q)"
    and "fs_unreadable fs' = fs_unreadable fs"
  shows "layerView unmarshal root c fs' = layerView unmarshal root c fs"
proof -
  note rd = fst_read_cong [OF assms(2,3)]
  show ?thesis unfolding layerView_def GetSize_def GetParent_def GetDiffID_def GetCacheID_def GetDescriptor_def
    by (simp only: getLayerFilename_valid [OF assms(1)] plain_consts seq_ret prod.inject)
      (intro conjI fst_seq_cong rd stateless; simp only: stateless split: option.split; simp add: stateless)
qed

lemma mountView_cong:
  assumes "plain m" and "\<And>q. look (fs_entries fs') (mountDir root m @ q) = look (fs_entries fs) (mountDir root m @ q)"
    and "fs_unreadable fs' = fs_unreadable fs"
  shows "mountView root m fs' = mountView root m fs"
proof -
  note rd = fst_read_cong [OF assms(2,3)]
  show ?thesis unfolding mountView_def fmsGetMountID_def GetInitID_def GetMountParent_def
    by (simp only: mount_paths [OF assms(1)] plain_consts prod.inject)
      (intro conjI fst_seq_cong rd stateless; simp only: stateless split: option.split; simp add: stateless)
qed

datatype txOp = TSize int64 | TParent string | TDiffID string | TCacheID string | TDescriptor Descriptor | TTarSplit "string \<Rightarrow> string" bool string | TCancel

fun txRun :: "(Descriptor \<Rightarrow> string) \<Rightarrow> path \<Rightarrow> txOp \<Rightarrow> unit fsM" where
  "txRun marshal tx (TSize n) = SetSize tx n"
| "txRun marshal tx (TParent p) = SetParent tx p"
| "txRun marshal tx (TDiffID d) = SetDiffID tx d"
| "txRun marshal tx (TCacheID c) = SetCacheID tx c"
| "txRun marshal tx (TDescriptor d) = SetDescriptor marshal tx d"
| "txRun marshal tx (TTarSplit gzip z written) = seq (TarSplitWriter tx z) (\<lambda>wc. tarSplitClose gzip wc written)"
| "txRun marshal tx TCancel = CancelTx tx"

lemma within_keeps:
  assumes "within X m" and "m fs = (r, fs')"
  shows "(\<And>q. \<not> prefix X (d @ q)) \<Longrightarrow> look (fs_entries fs') (d @ q) = look (fs_entries fs) (d @ q)"
  using withinD(1) [OF assms] by blast

lemma tarSplit_seq:
  "seq (TarSplitWriter tx z) g = seq (WriteFile (tx @ [''tar-split.json.gz'']) '''') (\<lambda>_. g (tx @ [''tar-split.json.gz''], z))"
  by (rule ext) (simp add: TarSplitWriter_def Let_def Join_plain seq_def ret_def split: prod.split outcome.split)

lemma tx_within: "prefix X tx \<Longrightarrow> within X (txRun marshal tx op)"
  by (cases op) (auto simp: SetSize_def SetParent_def SetDiffID_def SetCacheID_def SetDescriptor_def tarSplit_seq
      tarSplitClose_def CancelTx_def Join_plain intro!: within_intros)

lemma within_runOps:
  assumes "\<And>op. within X (step op)"
  shows "\<not> prefix X q \<Longrightarrow> look (fs_entries (snd (runOps step ops fs))) q = look (fs_entries fs) q"
    and "fs_unreadable (snd (runOps step ops fs)) = fs_unreadable fs"
proof (atomize (full), induction ops arbitrary: fs)
  case (Cons op ops)
  obtain r fs' where 1: "step op fs = (r, fs')" by (metis surj_pair)
  from withinD [OF assms 1] Cons.IH [of fs'] show ?case by (simp add: 1 split_beta Let_def)
qed simp

lemma StartTransaction_path:
  assumes "fs_ok fs" and "StartTransaction root fs = (Ret tx, fs')"
  shows "\<exists>ds. list_all is_digit ds \<and> tx = tmpDir root @ [''layer-'' @ ds]" and "fs_ok fs'"
    and "look (fs_entries fs') (tx @ q) = (if q = [] then Some Dir else None)"
    and "\<not> prefix (tmpDir root) (d @ q) \<Longrightarrow> \<not> prefix (d @ q) (tmpDir root) \<Longrightarrow> look (fs_entries fs') (d @ q) = look (fs_entries fs) (d @ q)"
    and "fs_unreadable fs' = fs_unreadable fs"
proof -
  obtain u fs1 where 1: "MkdirAll (tmpDir root) fs = (Ret u, fs1)" "newNode Dir (tmpDir root) ''layer-'' fs1 = (Ret tx, fs')"
    using assms(2) by (auto simp: StartTransaction_def seq_Ret_iff TempDir_def Join_plain tmpDir_def Let_def)
  have ok: "fs_ok fs1" using ensD [OF ens_MkdirAll assms(1) 1(1)] by simp
  note n = newNode_spec [OF ok _ 1(2)]
  show "\<exists>ds. list_all is_digit ds \<and> tx = tmpDir root @ [''layer-'' @ ds]" using n(1) by simp
  show "fs_ok fs'" using ensD [OF ens_newNode ok 1(2)] by simp
  show "look (fs_entries fs') (tx @ q) = (if q = [] then Some Dir else None)" using n(2) by simp
  show "fs_unreadable fs' = fs_unreadable fs" using n(4) attempt_rest(1) [OF 1(1) [unfolded MkdirAll_def]] by simp
  assume d: "\<not> prefix (tmpDir root) (d @ q)" "\<not> prefix (d @ q) (tmpDir root)"
  have "prefix (tmpDir root) tx" using n(1) by auto
  then have "\<not> prefix tx (d @ q)" using d(1) prefix_order.trans [of "tmpDir root" tx "d @ q"] by blast
  then have "look (fs_entries fs') (d @ q) = look (fs_entries fs1) (d @ q)" by (intro n(3)) simp_all
  also have "\<dots> = look (fs_entries fs) (d @ q)" using MkdirAll_look [OF 1(1), of "d @ q"] d(2) by blast
  finally show "look (fs_entries fs') (d @ q) = look (fs_entries fs) (d @ q)" .
qed

text \<open>
  C29. A transaction is invisible until it is committed: whatever is set in it, cancelled or not, and
  wherever the disk fails, the metadata of every layer and of every mount reads as before, and so does
  the tar-split data of every layer.
\<close>

theorem uncommitted_transaction_invisible:
  assumes "fs_ok fs" and "StartTransaction root fs = (Ret tx, fs')" and "Validate c = None" and "plain m"
  shows "layerView unmarshal root c (snd (runOps (txRun marshal tx) ops fs')) = layerView unmarshal root c fs \<and>
    mountView root m (snd (runOps (txRun marshal tx) ops fs')) = mountView root m fs \<and>
    fst (TarSplitReader gunzip root c (snd (runOps (txRun marshal tx) ops fs'))) = fst (TarSplitReader gunzip root c fs)"
proof -
  note st = StartTransaction_path [OF assms(1,2)]
  have tx: "prefix (tmpDir root) tx" using st(1) by auto
  note run = within_runOps [where step = "txRun marshal tx", OF tx_within [OF tx], where ops = ops and fs = fs']
  note apart = layerDir_apart [OF assms(3)]
  have "\<not> prefix (layerDir root c @ q) (tmpDir root)" "\<not> prefix (mountDir root m @ q) (tmpDir root)" for q
    using valid_parts(5) [OF assms(3)] by (auto simp: layerDir_def tmpDir_def mountDir_def dest: prefix_length_le)
  then have same: "look (fs_entries (snd (runOps (txRun marshal tx) ops fs'))) (layerDir root c @ q) = look (fs_entries fs) (layerDir root c @ q)"
    "look (fs_entries (snd (runOps (txRun marshal tx) ops fs'))) (mountDir root m @ q) = look (fs_entries fs) (mountDir root m @ q)" for q
    using run(1) st(4) [of "layerDir root c" q] st(4) [of "mountDir root m" q] apart(1) [of root q] apart(3) [of root m q] by simp_all
  have "fs_unreadable (snd (runOps (txRun marshal tx) ops fs')) = fs_unreadable fs" using run(2) st(5) by simp
  with same show ?thesis
    by (intro conjI layerView_cong [OF assms(3)] mountView_cong [OF assms(4)])
      (simp_all add: TarSplitReader_def getLayerFilename_valid [OF assms(3)] seq_def ReadFile_def ret_def fail_def split: option.split node.split)
qed


definition demo_tx :: path where
  "demo_tx = [''r'', ''tmp'', ''layer-1'']"

lemma demo_start: "\<exists>fs'. StartTransaction [''r''] demo_fs = (Ret demo_tx, fs')"
proof -
  have 1: "showNat (Suc 0) = ''1''" by code_simp
  have 2: "mkdirs [] [''r'', ''tmp''] [([], Dir)] = Inr ((), [([], Dir), ([''r''], Dir), ([''r'', ''tmp''], Dir)])"
    by (simp add: mkdirs.simps look_def put_def)
  have 3: "freshName 10000 [''r'', ''tmp''] ''layer-'' showNat 1 [([], Dir), ([''r''], Dir), ([''r'', ''tmp''], Dir)] = Some demo_tx"
    by (subst freshName_first) (simp_all add: Join_plain plain_def look_def demo_tx_def 1)
  show ?thesis
    by (simp add: StartTransaction_def Let_def Join_plain seq_def MkdirAll_def attempt_def demo_fs_def 2 TempDir_def newNode_def look_def 3 [simplified])
qed

theorem uncommitted_transaction_invisible_witness:
  "\<exists>fs'. StartTransaction [''r''] demo_fs = (Ret demo_tx, fs') \<and>
     layerView (\<lambda>_. None) [''r''] (demo_dgst CHR ''a'') (snd (runOps (txRun d_Digest demo_tx) [TSize 1, TCancel] fs')) =
     layerView (\<lambda>_. None) [''r''] (demo_dgst CHR ''a'') demo_fs"
proof -
  obtain fs' where fs: "StartTransaction [''r''] demo_fs = (Ret demo_tx, fs')" using demo_start by blast
  from uncommitted_transaction_invisible [OF demo_fs_ok this demo_dgst_valid, of "CHR ''a''" "''m''" "\<lambda>_. None" d_Digest "[TSize 1, TCancel]"]
  show ?thesis using fs by (auto simp: plain_def)
qed

section \<open>Committing\<close>

lemma Commit_Ret:
  assumes "Commit root tx c fs = (Ret x, fs')" and c: "Validate c = None" and tx: "tx = tmpDir root @ [l]"
  shows "look (fs_entries fs') (layerDir root c @ q) = look (fs_entries fs) (tx @ q)"
    and "fs_unreadable fs' = fs_unreadable fs"
proof -
  obtain fs1 where 1: "MkdirAll (root @ [before_sep c]) fs = (Ret (), fs1)" "Rename tx (layerDir root c) fs1 = (Ret (), fs')"
    using assms(1) by (auto simp: Commit_def getLayerDirectory_valid [OF c] seq_Ret_iff layerDir_def butlast_append)
  have np: "\<not> prefix (layerDir root c) tx" unfolding tx by (rule layerDir_apart(4) [OF c])
  moreover have "tx \<noteq> layerDir root c" using np by auto
  ultimately have r: "fs_entries fs' = move tx (layerDir root c) (fs_entries fs1)" "\<not> prefix tx (layerDir root c)"
    "fs_unreadable fs' = fs_unreadable fs1" using Rename_Ret [OF 1(2)] by blast+
  have "look (fs_entries fs') (layerDir root c @ q) = look (fs_entries fs1) (tx @ q)"
    unfolding r(1) look_move [OF np r(2)] by simp
  also have "\<dots> = look (fs_entries fs) (tx @ q)"
  proof -
    have "before_sep c \<noteq> ''tmp''" using valid_parts(5) [OF c] by auto
    then have "\<not> prefix (tx @ q) (root @ [before_sep c])" by (simp add: tx tmpDir_def)
    then show ?thesis using MkdirAll_look [OF 1(1), of "tx @ q"] by blast
  qed
  finally show "look (fs_entries fs') (layerDir root c @ q) = look (fs_entries fs) (tx @ q)" .
  show "fs_unreadable fs' = fs_unreadable fs" using r(3) attempt_rest(1) [OF 1(1) [unfolded MkdirAll_def]] by simp
qed

end
