(* ===== verification/LayerFiles.thy ===== *)
theory LayerFiles
  imports LayerStoreProps FileStore
begin

text \<open>
  The layer store on top of its metadata files: the environment of \<^verbatim>\<open>layer/layer_store.go\<close> with
  \<^verbatim>\<open>layer/filestore.go\<close> as the \<open>MetadataStore\<close>, and what is on disk after a layer has been registered.
\<close>

section \<open>The metadata store as a backend\<close>

fun errString :: "os_err \<Rightarrow> string" where
  "errString ErrNotExist = ''no such file or directory''"
| "errString ErrExist = ''file exists''"
| "errString ErrNotDir = ''not a directory''"
| "errString ErrIsDir = ''is a directory''"
| "errString ErrNotEmpty = ''directory not empty''"
| "errString ErrInvalid = ''invalid argument''"
| "errString ErrIO = ''input/output error''"
| "errString (ErrMsg m) = m"

text \<open>A panic in a path function ends the call; the layer store passes digests only, for which there is none.\<close>

definition fsBackend :: "'a fsM \<Rightarrow> (filesys, 'a) backend" where
  "fsBackend m fs = (case m fs of
      (Ret x, fs) \<Rightarrow> (Inr x, fs)
    | (Fail e, fs) \<Rightarrow> (Inl (errString e), fs)
    | (Panic p, fs) \<Rightarrow> (Inl p, fs))"

definition fmsEnv :: "('d, filesys, path) lenv \<Rightarrow> (string \<Rightarrow> string) \<Rightarrow> (Descriptor \<Rightarrow> string) \<Rightarrow> (string \<Rightarrow> Descriptor option) \<Rightarrow> path \<Rightarrow> ('d, filesys, path) lenv" where
  "fmsEnv base gzip marshal unmarshal root = base\<lparr>
     md_StartTransaction := fsBackend (StartTransaction root),
     tx_TarSplitWriter := (\<lambda>tx z. fsBackend (TarSplitWriter tx z)),
     tsw_Close := (\<lambda>wc written. fsBackend (tarSplitClose gzip wc written)),
     tx_SetDiffID := (\<lambda>tx d. fsBackend (SetDiffID tx d)),
     tx_SetSize := (\<lambda>tx n. fsBackend (SetSize tx n)),
     tx_SetCacheID := (\<lambda>tx c. fsBackend (SetCacheID tx c)),
     tx_SetDescriptor := (\<lambda>tx d. fsBackend (SetDescriptor marshal tx d)),
     tx_SetParent := (\<lambda>tx p. fsBackend (SetParent tx p)),
     tx_Commit := (\<lambda>tx c. fsBackend (Commit root tx c)),
     tx_Cancel := (\<lambda>tx. fsBackend (CancelTx tx)),
     md_GetDiffID := (\<lambda>c. fsBackend (GetDiffID root c)),
     md_GetSize := (\<lambda>c. fsBackend (GetSize root c)),
     md_GetCacheID := (\<lambda>c. fsBackend (GetCacheID root c)),
     md_GetParent := (\<lambda>c. fsBackend (GetParent root c)),
     md_GetDescriptor := (\<lambda>c. fsBackend (GetDescriptor unmarshal root c)),
     md_SetMountID := (\<lambda>m i. fsBackend (SetMountID root m i)),
     md_SetInitID := (\<lambda>m i. fsBackend (SetInitID root m i)),
     md_SetMountParent := (\<lambda>m p. fsBackend (SetMountParent root m p)),
     md_GetMountID := (\<lambda>m. fsBackend (fmsGetMountID root m)),
     md_GetInitID := (\<lambda>m. fsBackend (GetInitID root m)),
     md_GetMountParent := (\<lambda>m. fsBackend (GetMountParent root m)),
     md_List := fsBackend (ListAll root),
     md_Remove := (\<lambda>c. fsBackend (RemoveLayer root c)),
     md_RemoveMount := (\<lambda>m. fsBackend (RemoveMount root m))\<rparr>"

lemma fmsEnv_simps [simp]:
  "md_StartTransaction (fmsEnv base gzip marshal unmarshal root) = (fsBackend (StartTransaction root))"
  "tx_TarSplitWriter (fmsEnv base gzip marshal unmarshal root) = (\<lambda>tx z. fsBackend (TarSplitWriter tx z))"
  "tsw_Close (fmsEnv base gzip marshal unmarshal root) = (\<lambda>wc written. fsBackend (tarSplitClose gzip wc written))"
  "asm_Packed (fmsEnv base gzip marshal unmarshal root) = asm_Packed base"
  "asm_Partial (fmsEnv base gzip marshal unmarshal root) = asm_Partial base"
  "tx_SetDiffID (fmsEnv base gzip marshal unmarshal root) = (\<lambda>tx d. fsBackend (SetDiffID tx d))"
  "tx_SetSize (fmsEnv base gzip marshal unmarshal root) = (\<lambda>tx n. fsBackend (SetSize tx n))"
  "tx_SetCacheID (fmsEnv base gzip marshal unmarshal root) = (\<lambda>tx c. fsBackend (SetCacheID tx c))"
  "tx_SetDescriptor (fmsEnv base gzip marshal unmarshal root) = (\<lambda>tx d. fsBackend (SetDescriptor marshal tx d))"
  "tx_SetParent (fmsEnv base gzip marshal unmarshal root) = (\<lambda>tx p. fsBackend (SetParent tx p))"
  "tx_Commit (fmsEnv base gzip marshal unmarshal root) = (\<lambda>tx c. fsBackend (Commit root tx c))"
  "tx_Cancel (fmsEnv base gzip marshal unmarshal root) = (\<lambda>tx. fsBackend (CancelTx tx))"
  "md_GetDiffID (fmsEnv base gzip marshal unmarshal root) = (\<lambda>c. fsBackend (GetDiffID root c))"
  "md_GetSize (fmsEnv base gzip marshal unmarshal root) = (\<lambda>c. fsBackend (GetSize root c))"
  "md_GetCacheID (fmsEnv base gzip marshal unmarshal root) = (\<lambda>c. fsBackend (GetCacheID root c))"
  "md_GetParent (fmsEnv base gzip marshal unmarshal root) = (\<lambda>c. fsBackend (GetParent root c))"
  "md_GetDescriptor (fmsEnv base gzip marshal unmarshal root) = (\<lambda>c. fsBackend (GetDescriptor unmarshal root c))"
  "md_SetMountID (fmsEnv base gzip marshal unmarshal root) = (\<lambda>m i. fsBackend (SetMountID root m i))"
  "md_SetInitID (fmsEnv base gzip marshal unmarshal root) = (\<lambda>m i. fsBackend (SetInitID root m i))"
  "md_SetMountParent (fmsEnv base gzip marshal unmarshal root) = (\<lambda>m p. fsBackend (SetMountParent root m p))"
  "md_GetMountID (fmsEnv base gzip marshal unmarshal root) = (\<lambda>m. fsBackend (fmsGetMountID root m))"
  "md_GetInitID (fmsEnv base gzip marshal unmarshal root) = (\<lambda>m. fsBackend (GetInitID root m))"
  "md_GetMountParent (fmsEnv base gzip marshal unmarshal root) = (\<lambda>m. fsBackend (GetMountParent root m))"
  "md_List (fmsEnv base gzip marshal unmarshal root) = (fsBackend (ListAll root))"
  "md_Remove (fmsEnv base gzip marshal unmarshal root) = (\<lambda>c. fsBackend (RemoveLayer root c))"
  "md_RemoveMount (fmsEnv base gzip marshal unmarshal root) = (\<lambda>m. fsBackend (RemoveMount root m))"
  "drv_Create (fmsEnv base gzip marshal unmarshal root) = drv_Create base"
  "drv_CreateReadWrite (fmsEnv base gzip marshal unmarshal root) = drv_CreateReadWrite base"
  "drv_Remove (fmsEnv base gzip marshal unmarshal root) = drv_Remove base"
  "drv_Get (fmsEnv base gzip marshal unmarshal root) = drv_Get base"
  "drv_Put (fmsEnv base gzip marshal unmarshal root) = drv_Put base"
  "drv_ApplyDiff (fmsEnv base gzip marshal unmarshal root) = drv_ApplyDiff base"
  "digest_FromBytes (fmsEnv base gzip marshal unmarshal root) = digest_FromBytes base"
  "asm_NewInputTarStream (fmsEnv base gzip marshal unmarshal root) = asm_NewInputTarStream base"
  by (simp_all add: fmsEnv_def)

lemma on_store_Ret:
  "on_store (fsBackend m) s = (Ret x, s') \<longleftrightarrow> (\<exists>fs'. m (ls_store s) = (Ret x, fs') \<and> s' = s\<lparr>ls_store := fs'\<rparr>)"
  by (auto simp: on_store_def call_def fsBackend_def split: prod.splits outcome.splits)

lemma on_driver_Ret: "on_driver f s = (Ret x, s') \<Longrightarrow> ls_store s' = ls_store s \<and> ls_layerMap s' = ls_layerMap s"
  by (auto simp: on_driver_def call_def split: prod.splits sum.splits)

lemma defer_set_Ret: "defer_set c m s = (Ret (x, e), s') \<Longrightarrow> \<exists>u. m s = (Ret (x, e), u) \<and> (\<not> e \<longrightarrow> s' = u)"
  by (auto simp: defer_set_def split: prod.splits outcome.splits if_splits)

section \<open>What registering a layer writes\<close>

definition layerFiles :: "(Descriptor \<Rightarrow> string) \<Rightarrow> roLayer \<Rightarrow> string \<rightharpoonup> string" where
  "layerFiles marshal l = (\<lambda>f.
     if f = ''diff'' then Some (ro_diffID l)
     else if f = ''size'' then Some (showInt (sint (ro_size l)))
     else if f = ''cache-id'' then Some (ro_cacheID l)
     else if f = ''descriptor.json'' then (if d_Digest (ro_descriptor l) = '''' then None else Some (marshal (ro_descriptor l)))
     else if f = ''parent'' then map_option ro_chainID (ro_parent l)
     else None)"

definition filesAt :: "entries \<Rightarrow> path \<Rightarrow> (string \<rightharpoonup> string) \<Rightarrow> bool" where
  "filesAt es d fm \<longleftrightarrow> (\<forall>f\<in>{''diff'', ''size'', ''cache-id'', ''descriptor.json'', ''parent''}. look es (d @ [f]) = map_option File (fm f))"

text \<open>A successful write below the transaction's directory.\<close>

lemma on_store_write:
  assumes "on_store (fsBackend (WriteFile (Join tx [f]) c)) s = (Ret x, s')" and "plain f"
  shows "look (fs_entries (ls_store s')) q = (if q = tx @ [f] then Some (File c) else look (fs_entries (ls_store s)) q)"
    and "ls_layerMap s' = ls_layerMap s" and "fs_unreadable (ls_store s') = fs_unreadable (ls_store s)"
proof -
  obtain fs' where w: "WriteFile (tx @ [f]) c (ls_store s) = (Ret x, fs')" "s' = s\<lparr>ls_store := fs'\<rparr>"
    using assms by (auto simp: on_store_Ret Join_plain)
  then show "look (fs_entries (ls_store s')) q = (if q = tx @ [f] then Some (File c) else look (fs_entries (ls_store s)) q)"
    "ls_layerMap s' = ls_layerMap s" "fs_unreadable (ls_store s') = fs_unreadable (ls_store s)"
    using WriteFile_Ret [OF w(1)] by simp_all
qed

lemmas fms_writes = SetDiffID_def SetSize_def SetCacheID_def SetDescriptor_def SetParent_def

lemma storeLayer_files:
  assumes "storeLayer (fmsEnv base gzip marshal unmarshal root) tx l s = (Ret x, s')"
    and empty: "\<And>f. f \<in> {''diff'', ''size'', ''cache-id'', ''descriptor.json'', ''parent''} \<Longrightarrow> look (fs_entries (ls_store s)) (tx @ [f]) = None"
  shows "filesAt (fs_entries (ls_store s')) tx (layerFiles marshal l)" and "ls_layerMap s' = ls_layerMap s"
    and "fs_unreadable (ls_store s') = fs_unreadable (ls_store s)"
proof -
  obtain s1 s2 s3 s4 u1 u2 u3 u4 where
    1: "on_store (fsBackend (WriteFile (Join tx [''diff'']) (ro_diffID l))) s = (Ret u1, s1)"
    and 2: "on_store (fsBackend (WriteFile (Join tx [''size'']) (showInt (sint (ro_size l))))) s1 = (Ret u2, s2)"
    and 3: "on_store (fsBackend (WriteFile (Join tx [''cache-id'']) (ro_cacheID l))) s2 = (Ret u3, s3)"
    and 4: "(if d_Digest (ro_descriptor l) \<noteq> ''''
      then on_store (fsBackend (WriteFile (Join tx [''descriptor.json'']) (marshal (ro_descriptor l)))) else ret ()) s3 = (Ret u4, s4)"
    and 5: "(case ro_parent l of None \<Rightarrow> ret () | Some p \<Rightarrow> on_store (fsBackend (WriteFile (Join tx [''parent'']) (ro_chainID p)))) s4 = (Ret x, s')"
    using assms(1) unfolding storeLayer_def seq_Ret_iff fmsEnv_simps fms_writes by blast
  note w1 = on_store_write [OF 1] and w2 = on_store_write [OF 2] and w3 = on_store_write [OF 3]
  have w4: "look (fs_entries (ls_store s4)) q = (if q = tx @ [''descriptor.json''] \<and> d_Digest (ro_descriptor l) \<noteq> ''''
      then Some (File (marshal (ro_descriptor l))) else look (fs_entries (ls_store s3)) q)"
    "ls_layerMap s4 = ls_layerMap s3" "fs_unreadable (ls_store s4) = fs_unreadable (ls_store s3)" for q
    using 4 on_store_write [of tx "''descriptor.json''" "marshal (ro_descriptor l)" s3 u4 s4] by (simp_all add: ret_def split: if_splits)
  have w5: "look (fs_entries (ls_store s')) q = (case ro_parent l of
      Some p \<Rightarrow> if q = tx @ [''parent''] then Some (File (ro_chainID p)) else look (fs_entries (ls_store s4)) q
    | None \<Rightarrow> look (fs_entries (ls_store s4)) q)"
    "ls_layerMap s' = ls_layerMap s4" "fs_unreadable (ls_store s') = fs_unreadable (ls_store s4)" for q
  proof (atomize (full), cases "ro_parent l")
    case None
    with 5 show "look (fs_entries (ls_store s')) q = (case ro_parent l of
      Some p \<Rightarrow> if q = tx @ [''parent''] then Some (File (ro_chainID p)) else look (fs_entries (ls_store s4)) q
    | None \<Rightarrow> look (fs_entries (ls_store s4)) q) \<and> ls_layerMap s' = ls_layerMap s4 \<and> fs_unreadable (ls_store s') = fs_unreadable (ls_store s4)"
      by (simp add: ret_def)
  next
    case (Some p)
    with 5 have "on_store (fsBackend (WriteFile (Join tx [''parent'']) (ro_chainID p))) s4 = (Ret x, s')" by simp
    from on_store_write [OF this] Some show "look (fs_entries (ls_store s')) q = (case ro_parent l of
      Some p \<Rightarrow> if q = tx @ [''parent''] then Some (File (ro_chainID p)) else look (fs_entries (ls_store s4)) q
    | None \<Rightarrow> look (fs_entries (ls_store s4)) q) \<and> ls_layerMap s' = ls_layerMap s4 \<and> fs_unreadable (ls_store s') = fs_unreadable (ls_store s4)"
      by simp
  qed
  show "filesAt (fs_entries (ls_store s')) tx (layerFiles marshal l)"
    using empty unfolding filesAt_def by (auto simp: w5(1) w4(1) w3(1) w2(1) w1(1) layerFiles_def split: option.splits)
  show "ls_layerMap s' = ls_layerMap s" "fs_unreadable (ls_store s') = fs_unreadable (ls_store s)"
    using w5(2,3) w4(2,3) w3(2,3) w2(2,3) w1(2,3) by simp_all
qed


text \<open>What the getters read from these files.\<close>

lemma layerView_files:
  assumes "filesAt (fs_entries fs) (layerDir root c) (layerFiles marshal l)" and "fs_unreadable fs = (\<lambda>_. False)"
    and c: "Validate c = None" and "Validate (ro_diffID l) = None" and "stringIDRegexp (ro_cacheID l)"
    and "\<And>p. ro_parent l = Some p \<Longrightarrow> Validate (ro_chainID p) = None"
    and "unmarshal (marshal (ro_descriptor l)) = Some (ro_descriptor l)"
  shows "layerView unmarshal root c fs = (Ret (ro_diffID l), Ret (ro_size l), Ret (ro_cacheID l),
    Ret (case ro_parent l of None \<Rightarrow> '''' | Some p \<Rightarrow> ro_chainID p),
    Ret (if d_Digest (ro_descriptor l) = '''' then emptyDescriptor else ro_descriptor l))"
proof -
  have at: "look (fs_entries fs) (layerDir root c @ [f]) = map_option File (layerFiles marshal l f)"
    if "f \<in> {''diff'', ''size'', ''cache-id'', ''descriptor.json'', ''parent''}" for f
    using assms(1) that unfolding filesAt_def by blast
  have rd: "ReadFile (layerDir root c @ [f]) fs = (case layerFiles marshal l f of None \<Rightarrow> (Fail ErrNotExist, fs) | Some t \<Rightarrow> (Ret t, fs))"
    if "f \<in> {''diff'', ''size'', ''cache-id'', ''descriptor.json'', ''parent''}" for f
    using at [OF that] assms(2) by (simp add: ReadFile_def split: option.split)
  note trims = digest_trim [OF assms(4)] cacheID_trim [OF assms(5)]
  have "fst (GetDiffID root c fs) = Ret (ro_diffID l)"
    using rd [of "''diff''"] trims(1) assms(4)
    by (simp add: GetDiffID_def getLayerFilename_valid [OF c] seq_def layerFiles_def parseDigestFile_def ParseDigest_def ret_def)
  moreover have "fst (GetSize root c fs) = Ret (ro_size l)"
    using rd [of "''size''"] by (simp add: GetSize_def getLayerFilename_valid [OF c] seq_def layerFiles_def ParseInt_showInt ret_def)
  moreover have "fst (GetCacheID root c fs) = Ret (ro_cacheID l)"
    using rd [of "''cache-id''"] trims(2) assms(5)
    by (simp add: GetCacheID_def getLayerFilename_valid [OF c] seq_def layerFiles_def checkID_def ret_def)
  moreover have "fst (GetParent root c fs) = Ret (case ro_parent l of None \<Rightarrow> '''' | Some p \<Rightarrow> ro_chainID p)"
    using rd [of "''parent''"] assms(6)
    by (cases "ro_parent l") (simp_all add: GetParent_def getLayerFilename_valid [OF c] seq_def layerFiles_def readOptional_def
        parseDigestFile_def ParseDigest_def digest_trim ret_def)
  moreover have "fst (GetDescriptor unmarshal root c fs) =
      Ret (if d_Digest (ro_descriptor l) = '''' then emptyDescriptor else ro_descriptor l)"
    using rd [of "''descriptor.json''"] assms(7)
    by (simp add: GetDescriptor_def getLayerFilename_valid [OF c] seq_def layerFiles_def readOptional_def ret_def)
  ultimately show ?thesis by (simp add: layerView_def)
qed

section \<open>Registering\<close>

lemma getWithoutLock_Ret:
  assumes "getWithoutLock c s = (Ret x, s')"
  shows "x = ls_layerMap s c" and "ls_store s' = ls_store s" and "ls_layerMap s' = ls_layerMap s"
  using assms by (auto simp: getWithoutLock_def go_defs split: option.splits)

lemma retainParent_Ret:
  assumes "retainParent parent s = (Ret p, s')"
  shows "ls_store s' = ls_store s" and "ls_layerMap s' = ls_layerMap s" and "p = (if parent = '''' then None else ls_layerMap s parent)"
proof (atomize (full), cases "parent = ''''")
  case False
  then obtain q u where "getWithoutLock parent s = (Ret q, u)" "q = p" "u = s'" "q \<noteq> None"
    using assms by (auto simp: retainParent_def seq_Ret_iff ret_def fail_def split: option.splits)
  then show "ls_store s' = ls_store s \<and> ls_layerMap s' = ls_layerMap s \<and> p = (if parent = '''' then None else ls_layerMap s parent)"
    using getWithoutLock_Ret [of parent s q u] False by simp
qed (use assms in \<open>simp add: retainParent_def ret_def\<close>)

lemma publishLayer_Ret:
  fixes s :: "('d, 'm) layerStore"
  assumes "publishLayer env tx l s = (Ret (r, e), s')"
  shows "if e then lr_layer r \<in> ran (ls_layerMap s)
    else lr_layer r = l \<and> (\<exists>(t :: ('d, 'm) layerStore) u. on_store (tx_Commit env tx (ro_chainID l)) t = (Ret (), u) \<and> ls_store t = ls_store s \<and> ls_store s' = ls_store u)"
proof -
  obtain x t where 1: "getWithoutLock (ro_chainID l) s = (Ret x, t)"
    and 2: "(case x of Some existingLayer \<Rightarrow> seq (getReference existingLayer) (\<lambda>r. ret (r, True))
      | None \<Rightarrow> seq (on_store (tx_Commit env tx (ro_chainID l))) (\<lambda>_.
         seq (modify (\<lambda>ls. ls\<lparr>ls_layerMap := (ls_layerMap ls)(ro_chainID l \<mapsto> l)\<rparr>)) (\<lambda>_.
         seq (getReference l) (\<lambda>r. ret (r, False))))) t = (Ret (r, e), s')"
    using assms unfolding publishLayer_def seq_Ret_iff by blast
  note g = getWithoutLock_Ret [OF 1]
  show ?thesis
  proof (cases x)
    case (Some y)
    then have "lr_layer r = y" "e" using 2 by (auto simp: getReference_def go_defs)
    then show ?thesis using g(1) Some by (auto simp: ran_def)
  next
    case None
    then obtain u where "on_store (tx_Commit env tx (ro_chainID l)) t = (Ret (), u)" "lr_layer r = l" "\<not> e" "ls_store s' = ls_store u"
      using 2 by (auto simp: getReference_def seq_Ret_iff modify_def gets_def ret_def)
    then show ?thesis using g(2) by metis
  qed
qed


lemma applyTar_Ret:
  assumes "applyTar (fmsEnv base gzip marshal unmarshal root) tx ts pid cacheID s = (Ret (sz, d), s')"
  shows "\<not> prefix (tx @ [''tar-split.json.gz'']) q \<Longrightarrow> look (fs_entries (ls_store s')) q = look (fs_entries (ls_store s)) q"
    and "ls_layerMap s' = ls_layerMap s" and "fs_unreadable (ls_store s') = fs_unreadable (ls_store s)" and "d = digest_FromBytes base ts"
proof -
  let ?f = "tx @ [''tar-split.json.gz'']" and ?tsw_Close = "\<lambda>w. ignore_err (on_store (fsBackend (tarSplitClose gzip w (asm_Packed base ts))))"
  obtain w s1 where 1: "on_store (fsBackend (TarSplitWriter tx True)) s = (Ret w, s1)"
    and 2: "(case asm_NewInputTarStream base ts of
        Some msg \<Rightarrow> seq (ignore_err (on_store (fsBackend (tarSplitClose gzip w '''')))) (\<lambda>_. fail (ErrBackend msg))
      | None \<Rightarrow> seq (defer_err (ignore_err (on_store (fsBackend (tarSplitClose gzip w (asm_Partial base ts)))))
            (on_driver (drv_ApplyDiff base cacheID pid ts))) (\<lambda>n. seq (?tsw_Close w) (\<lambda>_. ret (n, digest_FromBytes base ts)))) s1 = (Ret (sz, d), s')"
    using assms unfolding applyTar_def seq_Ret_iff fmsEnv_simps by blast
  obtain fs1 where fs1: "TarSplitWriter tx True (ls_store s) = (Ret w, fs1)" "s1 = s\<lparr>ls_store := fs1\<rparr>"
    using 1 by (auto simp: on_store_Ret)
  have w: "w = (?f, True)" using fs1(1) by (auto simp: TarSplitWriter_def seq_Ret_iff ret_def Join_plain Let_def)
  have in1: "within ?f (TarSplitWriter tx True)" by (auto simp: TarSplitWriter_def Join_plain Let_def intro!: within_intros)
  have in2: "within ?f (tarSplitClose gzip w (asm_Packed base ts))" by (auto simp: tarSplitClose_def w intro!: within_intros)
  obtain n s2 u where d2: "on_driver (drv_ApplyDiff base cacheID pid ts) s1 = (Ret n, s2)" and c: "?tsw_Close w s2 = (Ret u, s')"
    and d: "d = digest_FromBytes base ts"
    using 2 by (auto simp: seq_Ret_iff ret_def fail_def defer_err_def split: option.splits outcome.splits prod.splits)
  obtain q' fs2 where fs2: "tarSplitClose gzip w (asm_Packed base ts) (ls_store s2) = (q', fs2)" by (metis surj_pair)
  have s': "s' = s2\<lparr>ls_store := fs2\<rparr>"
    using c fs2 by (auto simp: ignore_err_def on_store_def call_def fsBackend_def split: outcome.splits prod.splits sum.splits)
  note a = on_driver_Ret [OF d2]
  show "\<not> prefix ?f q \<Longrightarrow> look (fs_entries (ls_store s')) q = look (fs_entries (ls_store s)) q"
    using withinD(1) [OF in1 fs1(1)] withinD(1) [OF in2 fs2] a s' fs1(2) by simp
  show "ls_layerMap s' = ls_layerMap s" "fs_unreadable (ls_store s') = fs_unreadable (ls_store s)" "d = digest_FromBytes base ts"
    using withinD(2) [OF in1 fs1(1)] withinD(2) [OF in2 fs2] a s' fs1(2) d by simp_all
qed

text \<open>The body of a registration whose layer is new has put the layer's files in place.\<close>

lemma registerBody_files:
  assumes reg: "registerBody (fmsEnv base gzip marshal unmarshal root) ts p desc cacheID s = (Ret (r, e), s')"
    and ok: "fs_ok (ls_store s)" and new: "lr_layer r \<notin> ran (ls_layerMap s)"
    and valid: "\<And>x. Validate (digest_FromBytes base x) = None" and pv: "\<And>q. p = Some q \<Longrightarrow> ro_chainID q \<noteq> ''''"
  shows "\<not> e" and "filesAt (fs_entries (ls_store s')) (layerDir root (ro_chainID (lr_layer r))) (layerFiles marshal (lr_layer r))"
    and "fs_unreadable (ls_store s') = fs_unreadable (ls_store s)"
    and "\<exists>a sz. lr_layer r = mkLayer (fmsEnv base gzip marshal unmarshal root) a p cacheID desc sz (digest_FromBytes base ts)"
    and "Validate (ro_chainID (lr_layer r)) = None"
proof -
  let ?env = "fmsEnv base gzip marshal unmarshal root" and ?pid = "case p of None \<Rightarrow> '''' | Some l \<Rightarrow> ro_cacheID l"
  have nd: "\<not> (case p of None \<Rightarrow> False | Some l \<Rightarrow> depth l \<ge> maxLayerDepth)"
    using reg by (auto simp: registerBody_def fail_def split: if_splits)
  obtain a s1 s2 s3 x tx where 1: "allocLayer s = (Ret a, s1)" and 2: "on_driver (drv_Create base cacheID ?pid '''' Map.empty) s1 = (Ret x, s2)"
    and 3: "on_store (fsBackend (StartTransaction root)) s2 = (Ret tx, s3)"
    and 4: "defer_set (seq (ignore_err (on_driver (drv_Remove base cacheID))) (\<lambda>_. ignore_err (on_store (fsBackend (CancelTx tx)))))
        (seq (applyTar ?env tx ts ?pid cacheID) (\<lambda>(sz, diffID).
        seq (storeLayer ?env tx (mkLayer ?env a p cacheID desc sz diffID)) (\<lambda>_. publishLayer ?env tx (mkLayer ?env a p cacheID desc sz diffID)))) s3 =
      (Ret (r, e), s')"
    using reg unfolding registerBody_def Let_def if_not_P [OF nd] seq_Ret_iff fmsEnv_simps by blast
  from defer_set_Ret [OF 4] obtain u where m: "seq (applyTar ?env tx ts ?pid cacheID) (\<lambda>(sz, diffID).
        seq (storeLayer ?env tx (mkLayer ?env a p cacheID desc sz diffID)) (\<lambda>_. publishLayer ?env tx (mkLayer ?env a p cacheID desc sz diffID))) s3 =
      (Ret (r, e), u)" and 8: "\<not> e \<Longrightarrow> s' = u" by blast
  then obtain sz d s4 where 5: "applyTar ?env tx ts ?pid cacheID s3 = (Ret (sz, d), s4)"
    and m2: "seq (storeLayer ?env tx (mkLayer ?env a p cacheID desc sz d)) (\<lambda>_. publishLayer ?env tx (mkLayer ?env a p cacheID desc sz d)) s4 = (Ret (r, e), u)"
    unfolding seq_Ret_iff [of "applyTar ?env tx ts ?pid cacheID"] by auto
  from m2 obtain y s5 where 6: "storeLayer ?env tx (mkLayer ?env a p cacheID desc sz d) s4 = (Ret y, s5)"
    and 7: "publishLayer ?env tx (mkLayer ?env a p cacheID desc sz d) s5 = (Ret (r, e), u)"
    unfolding seq_Ret_iff by blast
  define l where "l = mkLayer ?env a p cacheID desc sz d"
  have s1: "ls_store s1 = ls_store s" "ls_layerMap s1 = ls_layerMap s" using 1 by (auto simp: allocLayer_def go_defs)
  obtain fs3 where fs3: "StartTransaction root (ls_store s) = (Ret tx, fs3)" "s3 = s2\<lparr>ls_store := fs3\<rparr>"
    using 3 s1 on_driver_Ret [OF 2] by (auto simp: on_store_Ret)
  note st = StartTransaction_path [OF ok fs3(1)]
  note at = applyTar_Ret [OF 5]
  have empty: "look (fs_entries (ls_store s4)) (tx @ [f]) = None" if "f \<in> {''diff'', ''size'', ''cache-id'', ''descriptor.json'', ''parent''}" for f
    using that st(3) [of "[f]"] at(1) [of "tx @ [f]"] by (auto simp: fs3(2))
  note sf = storeLayer_files [OF 6 [folded l_def] empty]
  have maps: "ls_layerMap s5 = ls_layerMap s" using sf(2) at(2) fs3(2) on_driver_Ret [OF 2] s1 by simp
  note pub = publishLayer_Ret [OF 7 [folded l_def]]
  show ne: "\<not> e" using pub new maps by auto
  then have lr: "lr_layer r = l" using pub by simp
  then show "\<exists>a sz. lr_layer r = mkLayer ?env a p cacheID desc sz (digest_FromBytes base ts)" using at(4) unfolding l_def by blast
  show v: "Validate (ro_chainID (lr_layer r)) = None"
    unfolding lr l_def using valid at(4) pv by (cases p) (simp_all add: mkLayer_def)
  obtain fs' where cm': "Commit root tx (ro_chainID l) (ls_store s5) = (Ret (), fs')" "ls_store u = fs'"
    using pub ne by (auto simp: on_store_Ret)
  obtain ds where tx: "tx = tmpDir root @ [''layer-'' @ ds]" using st(1) by blast
  note cr = Commit_Ret [OF cm'(1) v [unfolded lr] tx]
  show "filesAt (fs_entries (ls_store s')) (layerDir root (ro_chainID (lr_layer r))) (layerFiles marshal (lr_layer r))"
    using sf(1) cr(1) cm'(2) 8 [OF ne] lr by (simp add: filesAt_def)
  show "fs_unreadable (ls_store s') = fs_unreadable (ls_store s)"
    using cr(2) cm'(2) 8 [OF ne] sf(3) at(3) fs3(2) st(5) by simp
qed

text \<open>
  C28. A layer that \<open>Register\<close> or \<open>RegisterWithDescriptor\<close> has newly added is on disk when the call returns:
  the metadata store gives back its diff id, size, cache id, parent and descriptor, so a restarted
  daemon finds the layer. Only a descriptor without a digest is not kept.
\<close>

theorem registered_layer_is_on_disk:
  assumes "registerWithDescriptor (fmsEnv base gzip marshal unmarshal root) ts parent desc cacheID s = (Ret r, s')"
    and "fs_ok (ls_store s)" and "lr_layer r \<notin> ran (ls_layerMap s)" and "fs_unreadable (ls_store s) = (\<lambda>_. False)"
    and "\<And>x. Validate (digest_FromBytes base x) = None" and "stringIDRegexp cacheID" and "unmarshal (marshal desc) = Some desc"
    and "\<And>c l. ls_layerMap s c = Some l \<Longrightarrow> Validate (ro_chainID l) = None"
  shows "ro_diffID (lr_layer r) = digest_FromBytes base ts \<and>
    layerView unmarshal root (ro_chainID (lr_layer r)) (ls_store s') =
      (Ret (digest_FromBytes base ts), Ret (ro_size (lr_layer r)), Ret cacheID,
       Ret (if parent = '''' then '''' else case ls_layerMap s parent of Some p \<Rightarrow> ro_chainID p | None \<Rightarrow> ''''),
       Ret (if d_Digest desc = '''' then emptyDescriptor else desc))"
proof -
  let ?env = "fmsEnv base gzip marshal unmarshal root"
  obtain p s1 e where 1: "retainParent parent s = (Ret p, s1)"
    and 2: "defer_set (releaseParent ?env p) (registerBody ?env ts p desc cacheID) s1 = (Ret (r, e), s')"
    using assms(1) unfolding registerWithDescriptor_def by (auto simp: seq_Ret_iff ret_def)
  note rp = retainParent_Ret [OF 1]
  from defer_set_Ret [OF 2] obtain u where 3: "registerBody ?env ts p desc cacheID s1 = (Ret (r, e), u)" and 4: "\<not> e \<Longrightarrow> s' = u" by blast
  have pv: "Validate (ro_chainID q) = None" if "p = Some q" for q
    using that rp(3) assms(8) [of parent q] by (auto split: if_splits)
  have "Validate '''' \<noteq> None" by (simp add: Validate_def digestRegexpAnchored_def)
  then have "ro_chainID q \<noteq> ''''" if "p = Some q" for q using pv [OF that] by auto
  note rb = registerBody_files [OF 3 _ _ assms(5) this, unfolded rp(1,2), OF assms(2,3)]
  obtain a sz where l: "lr_layer r = mkLayer ?env a p cacheID desc sz (digest_FromBytes base ts)" using rb(4) by auto
  have f: "ro_diffID (lr_layer r) = digest_FromBytes base ts" "ro_cacheID (lr_layer r) = cacheID" "ro_descriptor (lr_layer r) = desc"
    "ro_parent (lr_layer r) = p" by (simp_all add: l mkLayer_def)
  have "layerView unmarshal root (ro_chainID (lr_layer r)) (ls_store s') = (Ret (ro_diffID (lr_layer r)), Ret (ro_size (lr_layer r)),
      Ret (ro_cacheID (lr_layer r)), Ret (case ro_parent (lr_layer r) of None \<Rightarrow> '''' | Some p \<Rightarrow> ro_chainID p),
      Ret (if d_Digest (ro_descriptor (lr_layer r)) = '''' then emptyDescriptor else ro_descriptor (lr_layer r)))"
  proof (rule layerView_files)
    show "filesAt (fs_entries (ls_store s')) (layerDir root (ro_chainID (lr_layer r))) (layerFiles marshal (lr_layer r))"
      using rb(2) 4 rb(1) by simp
    show "fs_unreadable (ls_store s') = (\<lambda>_. False)" using rb(3) 4 rb(1) assms(4) by simp
  qed (use rb(5) f pv assms(5-7) in auto)
  then show ?thesis using f rp(3) by (auto split: option.split)
qed


definition demo_base :: "(unit, filesys, path) lenv" where
  "demo_base = \<lparr>
     drv_Create = (\<lambda>_ _ _ _ s. (Inr (), s)), drv_CreateReadWrite = (\<lambda>_ _ _ _ s. (Inr (), s)),
     drv_Remove = (\<lambda>_ s. (Inr (), s)), drv_Get = (\<lambda>i _ s. (Inr (''/'' @ i), s)), drv_Put = (\<lambda>_ s. (Inr (), s)),
     drv_ApplyDiff = (\<lambda>_ _ ts s. (Inr (of_nat (length ts)), s)),
     md_StartTransaction = (\<lambda>s. (Inr [], s)), tx_TarSplitWriter = (\<lambda>tx z s. (Inr (tx, z), s)), tsw_Close = (\<lambda>_ _ s. (Inr (), s)),
     tx_SetDiffID = (\<lambda>_ _ s. (Inr (), s)), tx_SetSize = (\<lambda>_ _ s. (Inr (), s)),
     tx_SetCacheID = (\<lambda>_ _ s. (Inr (), s)), tx_SetDescriptor = (\<lambda>_ _ s. (Inr (), s)),
     tx_SetParent = (\<lambda>_ _ s. (Inr (), s)), tx_Commit = (\<lambda>_ _ s. (Inr (), s)), tx_Cancel = (\<lambda>_ s. (Inr (), s)),
     md_GetDiffID = (\<lambda>c s. (Inr c, s)), md_GetSize = (\<lambda>_ s. (Inr 7, s)), md_GetCacheID = (\<lambda>c s. (Inr c, s)),
     md_GetParent = (\<lambda>c s. (Inr '''', s)), md_GetDescriptor = (\<lambda>_ s. (Inr emptyDescriptor, s)),
     md_SetMountID = (\<lambda>_ _ s. (Inr (), s)), md_SetInitID = (\<lambda>_ _ s. (Inr (), s)),
     md_SetMountParent = (\<lambda>_ _ s. (Inr (), s)),
     md_GetMountID = (\<lambda>n s. (Inr n, s)), md_GetInitID = (\<lambda>_ s. (Inr '''', s)),
     md_GetMountParent = (\<lambda>_ s. (Inr '''', s)), md_List = (\<lambda>s. (Inr ([], []), s)),
     md_Remove = (\<lambda>_ s. (Inr (), s)), md_RemoveMount = (\<lambda>_ s. (Inr (), s)),
     digest_FromBytes = (\<lambda>ts. demo_dgst CHR ''a''), asm_NewInputTarStream = (\<lambda>_. None), asm_Packed = (\<lambda>ts. ts), asm_Partial = (\<lambda>_. '''')\<rparr>"

lemma demo_layerDir: "layerDir [''r''] (demo_dgst CHR ''a'') = [''r'', ''sha256'', demo_hex]"
  by (simp add: layerDir_def demo_parts demo_hex_def)

lemma demo_register: "\<exists>r s'. registerWithDescriptor (fmsEnv demo_base (\<lambda>s. s) d_Digest (\<lambda>_. Some emptyDescriptor) [''r'']) ''x'' '''' emptyDescriptor
    demo_hex (emptyStore () demo_fs) = (Ret r, s')"
proof -
  have 1: "showNat (Suc 0) = ''1''" by code_simp
  have 2: "mkdirs [] [''r'', ''tmp''] [([], Dir)] = Inr ((), [([], Dir), ([''r''], Dir), ([''r'', ''tmp''], Dir)])"
    by (simp add: mkdirs.simps look_def put_def)
  have 3: "freshName 10000 [''r'', ''tmp''] ''layer-'' showNat (Suc 0) [([], Dir), ([''r''], Dir), ([''r'', ''tmp''], Dir)] =
      Some [''r'', ''tmp'', ''layer-1'']"
    by (subst freshName_first) (simp_all add: Join_plain plain_def look_def 1)
  have dir: "getLayerDirectory [''r''] (demo_dgst CHR ''a'') = ret [''r'', ''sha256'', demo_hex]"
    using getLayerDirectory_valid [OF demo_dgst_valid] demo_layerDir by simp
  show ?thesis
    by (simp add: demo_eval demo_base_def demo_fs_def fms_writes TarSplitWriter_def tarSplitClose_def fsBackend_def StartTransaction_def Join_plain MkdirAll_def attempt_def
      2 TempDir_def newNode_def 3 look_def put_def WriteFile_def create_def Commit_def dir mkdirs.simps Rename_def childNames_def move_def cut_def)
qed


theorem registered_layer_is_on_disk_witness:
  "\<exists>r s'. registerWithDescriptor (fmsEnv demo_base (\<lambda>s. s) d_Digest (\<lambda>_. Some emptyDescriptor) [''r'']) ''x'' '''' emptyDescriptor demo_hex
      (emptyStore () demo_fs) = (Ret r, s') \<and>
    layerView (\<lambda>_. Some emptyDescriptor) [''r''] (ro_chainID (lr_layer r)) (ls_store s') =
      (Ret (demo_dgst CHR ''a''), Ret (ro_size (lr_layer r)), Ret demo_hex, Ret '''', Ret emptyDescriptor)"
proof -
  obtain r s' where run: "registerWithDescriptor (fmsEnv demo_base (\<lambda>s. s) d_Digest (\<lambda>_. Some emptyDescriptor) [''r'']) ''x'' '''' emptyDescriptor demo_hex
      (emptyStore () demo_fs) = (Ret r, s')" using demo_register by blast
  have "stringIDRegexp demo_hex" by (auto simp: stringIDRegexp_def demo_hex_def in_range_def list_all_iff)
  with registered_layer_is_on_disk [OF run] run show ?thesis
    using demo_fs_ok demo_dgst_valid [of "CHR ''a''"] by (auto simp: emptyStore_def demo_fs_def demo_base_def emptyDescriptor_def)
qed

end
