(* ===== verification/LayerThreads.thy ===== *)
theory LayerThreads
  imports LayerStoreProps
begin

text \<open>
  Calls of the layer store that overlap. \<open>registerWithDescriptor\<close>, \<open>CreateRWLayer\<close> and \<open>ReleaseRWLayer\<close>
  of \<^verbatim>\<open>layer/layer_store.go\<close> do not hold \<open>layerL\<close> throughout: here each of them is a sequence of
  sections, and the sections of any number of calls interleave. A section is what runs under one
  acquisition of \<open>layerL\<close>, or a stretch of code outside of it.
\<close>

section \<open>Calls in progress\<close>

text \<open>How far a call of \<open>registerWithDescriptor\<close> has come, with its local variables.\<close>

datatype 't regStage =
    RegStart
  | RegParent "roLayer option"
  | RegCreated "roLayer option" addr
  | RegTx "roLayer option" addr 't
  | RegApplied "roLayer option" 't roLayer
  | RegStored "roLayer option" 't roLayer
  | RegCleanup "roLayer option" 't "layer_err + layerRef"
  | RegRelease "roLayer option" "layer_err + layerRef"
  | RegDone "layer_err + layerRef"

definition regSection ::
  "('d, 'm, 't) lenv \<Rightarrow> string \<Rightarrow> string \<Rightarrow> Descriptor \<Rightarrow> string \<Rightarrow> 't regStage \<Rightarrow> ('d, 'm, 't regStage) lsM" where
  "regSection env ts parent descriptor cacheID stage = (case stage of
      RegStart \<Rightarrow>
        seq (tryGo (retainParent parent)) (\<lambda>x.
        ret (case x of Inl e \<Rightarrow> RegDone (Inl e) | Inr p \<Rightarrow> RegParent p))
    | RegParent p \<Rightarrow>
        if (case p of None \<Rightarrow> False | Some l \<Rightarrow> depth l \<ge> maxLayerDepth) then ret (RegRelease p (Inl ErrMaxDepthExceeded)) else
        seq allocLayer (\<lambda>a.
        seq (tryGo (on_driver (drv_Create env cacheID (case p of None \<Rightarrow> '''' | Some l \<Rightarrow> ro_cacheID l) '''' Map.empty))) (\<lambda>x.
        ret (case x of Inl e \<Rightarrow> RegRelease p (Inl e) | Inr _ \<Rightarrow> RegCreated p a)))
    | RegCreated p a \<Rightarrow>
        seq (tryGo (on_store (md_StartTransaction env))) (\<lambda>x.
        ret (case x of Inl e \<Rightarrow> RegRelease p (Inl e) | Inr tx \<Rightarrow> RegTx p a tx))
    | RegTx p a tx \<Rightarrow>
        seq (tryGo (applyTar env tx ts (case p of None \<Rightarrow> '''' | Some l \<Rightarrow> ro_cacheID l) cacheID)) (\<lambda>x.
        ret (case x of Inl e \<Rightarrow> RegCleanup p tx (Inl e)
             | Inr (sz, diffID) \<Rightarrow> RegApplied p tx (mkLayer env a p cacheID descriptor sz diffID)))
    | RegApplied p tx layer \<Rightarrow>
        seq (tryGo (storeLayer env tx layer)) (\<lambda>x.
        ret (case x of Inl e \<Rightarrow> RegCleanup p tx (Inl e) | Inr _ \<Rightarrow> RegStored p tx layer))
    | RegStored p tx layer \<Rightarrow>
        seq (tryGo (publishLayer env tx layer)) (\<lambda>x.
        ret (case x of Inl e \<Rightarrow> RegCleanup p tx (Inl e)
             | Inr (r, existed) \<Rightarrow> if existed then RegCleanup p tx (Inr r) else RegDone (Inr r)))
    | RegCleanup p tx r \<Rightarrow>
        seq (ignore_err (on_driver (drv_Remove env cacheID))) (\<lambda>_.
        seq (ignore_err (on_store (tx_Cancel env tx))) (\<lambda>_.
        ret (RegRelease p r)))
    | RegRelease p r \<Rightarrow> seq (releaseParent env p) (\<lambda>_. ret (RegDone r))
    | RegDone r \<Rightarrow> ret (RegDone r))"

text \<open>
  \<open>CreateRWLayer\<close> holds \<open>mountL\<close> from its start to its end, and takes \<open>layerL\<close> to retain the parent and,
  on an error, to release it.
\<close>

datatype crwStage =
    CrwStart
  | CrwParent "roLayer option"
  | CrwRelease "roLayer option" layer_err
  | CrwDone "layer_err + rwRef"

definition crwSection ::
  "('d, 'm, 't) lenv \<Rightarrow> string \<Rightarrow> string \<Rightarrow> string \<Rightarrow> (string \<Rightarrow> string option) option \<Rightarrow> (string \<rightharpoonup> string) \<Rightarrow> string \<Rightarrow>
   crwStage \<Rightarrow> ('d, 'm, crwStage) lsM" where
  "crwSection env name parent mountLabel initFunc storageOpt mountID stage = (case stage of
      CrwStart \<Rightarrow>
        seq (gets (\<lambda>ls. ls_mounts ls name)) (\<lambda>found.
        case found of
          Some _ \<Rightarrow> ret (CrwDone (Inl ErrMountNameConflict))
        | None \<Rightarrow>
            seq (tryGo (retainParent parent)) (\<lambda>x.
            ret (case x of Inl e \<Rightarrow> CrwDone (Inl e) | Inr p \<Rightarrow> CrwParent p)))
    | CrwParent p \<Rightarrow>
        seq (tryGo (createRWBody env name p mountLabel initFunc storageOpt mountID)) (\<lambda>x.
        ret (case x of Inl e \<Rightarrow> CrwRelease p e | Inr r \<Rightarrow> CrwDone (Inr r)))
    | CrwRelease p e \<Rightarrow> seq (releaseParent env p) (\<lambda>_. ret (CrwDone (Inl e)))
    | CrwDone r \<Rightarrow> ret (CrwDone r))"

text \<open>\<open>ReleaseRWLayer\<close>: what it does to the mount, and then the release of the mount's parent under \<open>layerL\<close>.\<close>

datatype rrwStage =
    RrwStart
  | RrwParent roLayer
  | RrwDone "layer_err + Metadata list"

definition releaseMount :: "('d, 'm, 't) lenv \<Rightarrow> rwRef \<Rightarrow> ('d, 'm, roLayer option) lsM" where
  "releaseMount env l =
     seq (gets (\<lambda>ls. ls_mounts ls (rw_name l))) (\<lambda>found.
     case found of
       None \<Rightarrow> ret None
     | Some m \<Rightarrow>
         if rw_id l \<notin> ml_references m then fail ErrLayerNotRetained else
         seq (modify (setMount (m\<lparr>ml_references := ml_references m - {rw_id l}\<rparr>))) (\<lambda>_.
         if ml_references m - {rw_id l} \<noteq> {} then ret None else
         seq (defer_err (modify (retakeReference l))
               (seq (on_driver (drv_Remove env (ml_mountID m))) (\<lambda>_.
                seq (if ml_initID m \<noteq> '''' then on_driver (drv_Remove env (ml_initID m)) else ret ()) (\<lambda>_.
                on_store (md_RemoveMount env (ml_name m)))))) (\<lambda>_.
         seq (modify (\<lambda>ls. ls\<lparr>ls_mounts := (ls_mounts ls)(ml_name m := None)\<rparr>)) (\<lambda>_.
         ret (ml_parent m)))))"

definition rrwSection :: "('d, 'm, 't) lenv \<Rightarrow> rwRef \<Rightarrow> rrwStage \<Rightarrow> ('d, 'm, rrwStage) lsM" where
  "rrwSection env l stage = (case stage of
      RrwStart \<Rightarrow>
        seq (tryGo (releaseMount env l)) (\<lambda>x.
        ret (case x of Inl e \<Rightarrow> RrwDone (Inl e) | Inr None \<Rightarrow> RrwDone (Inr []) | Inr (Some p) \<Rightarrow> RrwParent p))
    | RrwParent p \<Rightarrow> seq (tryGo (releaseLayer env p)) (\<lambda>x. ret (RrwDone x))
    | RrwDone r \<Rightarrow> ret (RrwDone r))"

datatype 't lcall =
    CallRegister string string Descriptor string "'t regStage"
  | CallCreateRW string string string "(string \<Rightarrow> string option) option" "string \<rightharpoonup> string" string crwStage
  | CallReleaseRW rwRef rrwStage

fun runSection :: "('d, 'm, 't) lenv \<Rightarrow> 't lcall \<Rightarrow> ('d, 'm, 't lcall) lsM" where
  "runSection env (CallRegister ts parent desc k stage) =
     seq (regSection env ts parent desc k stage) (\<lambda>st. ret (CallRegister ts parent desc k st))"
| "runSection env (CallCreateRW name parent label f opts mountID stage) =
     seq (crwSection env name parent label f opts mountID stage) (\<lambda>st. ret (CallCreateRW name parent label f opts mountID st))"
| "runSection env (CallReleaseRW l stage) =
     seq (rrwSection env l stage) (\<lambda>st. ret (CallReleaseRW l st))"

section \<open>Interleaving\<close>

text \<open>A call of \<open>CreateRWLayer\<close> or \<open>ReleaseRWLayer\<close> that has begun and not ended holds \<open>mountL\<close>.\<close>

fun holdsMountL :: "'t lcall \<Rightarrow> bool" where
  "holdsMountL (CallRegister _ _ _ _ _) = False"
| "holdsMountL (CallCreateRW _ _ _ _ _ _ stage) = (case stage of CrwParent _ \<Rightarrow> True | CrwRelease _ _ \<Rightarrow> True | _ \<Rightarrow> False)"
| "holdsMountL (CallReleaseRW _ stage) = (case stage of RrwParent _ \<Rightarrow> True | _ \<Rightarrow> False)"

fun wantsMountL :: "'t lcall \<Rightarrow> bool" where
  "wantsMountL (CallRegister _ _ _ _ _) = False"
| "wantsMountL (CallCreateRW _ _ _ _ _ _ stage) = (stage = CrwStart)"
| "wantsMountL (CallReleaseRW _ stage) = (stage = RrwStart)"

record ('d, 'm, 't) lpool =
  lp_store :: "('d, 'm) layerStore"
  lp_calls :: "'t lcall list"

text \<open>
  What can happen next: a call begins, a call in progress runs its next section, or one of the calls
  that are a single section runs: \<open>Get\<close> and \<open>Release\<close> under \<open>layerL\<close>, \<open>GetRWLayer\<close> and \<open>GetMountID\<close> under
  \<open>mountL\<close>. Nothing happens if the lock that is needed is held.
\<close>

datatype lpEvent =
    BeginRegister string string Descriptor string
  | BeginCreateRW string string string "(string \<Rightarrow> string option) option" "string \<rightharpoonup> string" string
  | BeginReleaseRW rwRef
  | Continue nat
  | WholeGet string
  | WholeRelease layerRef
  | WholeGetRW string
  | WholeGetMountID string

definition onPool :: "('d, 'm, 'a) lsM \<Rightarrow> (('d, 'm, 't) lpool, layer_err, 'a) go" where
  "onPool m = zoom lp_store (\<lambda>s pl. pl\<lparr>lp_store := s\<rparr>) (\<lambda>e. e) m"

definition beginCall :: "'t lcall \<Rightarrow> (('d, 'm, 't) lpool, layer_err, unit) go" where
  "beginCall c = modify (\<lambda>pl. pl\<lparr>lp_calls := lp_calls pl @ [c]\<rparr>)"

definition mountLFree :: "('d, 'm, 't) lpool \<Rightarrow> bool" where
  "mountLFree pl \<longleftrightarrow> \<not> list_ex holdsMountL (lp_calls pl)"

fun lpStep :: "('d, 'm, 't) lenv \<Rightarrow> lpEvent \<Rightarrow> (('d, 'm, 't) lpool, layer_err, unit) go" where
  "lpStep env (BeginRegister ts parent desc k) = beginCall (CallRegister ts parent desc k RegStart)"
| "lpStep env (BeginCreateRW name parent label f opts k) = beginCall (CallCreateRW name parent label f opts k CrwStart)"
| "lpStep env (BeginReleaseRW l) = beginCall (CallReleaseRW l RrwStart)"
| "lpStep env (Continue i) =
     seq (gets (\<lambda>pl. i < length (lp_calls pl) \<and> (wantsMountL (lp_calls pl ! i) \<longrightarrow> mountLFree pl))) (\<lambda>enabled.
     if \<not> enabled then ret () else
     seq (gets (\<lambda>pl. lp_calls pl ! i)) (\<lambda>c.
     seq (onPool (runSection env c)) (\<lambda>c'.
     modify (\<lambda>pl. pl\<lparr>lp_calls := (lp_calls pl)[i := c']\<rparr>))))"
| "lpStep env (WholeGet c) = seq (onPool (Get c)) (\<lambda>_. ret ())"
| "lpStep env (WholeRelease r) = seq (onPool (Release env r)) (\<lambda>_. ret ())"
| "lpStep env (WholeGetRW name) =
     seq (gets mountLFree) (\<lambda>free. if \<not> free then ret () else seq (onPool (GetRWLayer name)) (\<lambda>_. ret ()))"
| "lpStep env (WholeGetMountID name) =
     seq (gets mountLFree) (\<lambda>free. if \<not> free then ret () else seq (onPool (GetMountID name)) (\<lambda>_. ret ()))"

definition emptyPool :: "'d \<Rightarrow> 'm \<Rightarrow> ('d, 'm, 't) lpool" where
  "emptyPool d m = \<lparr>lp_store = emptyStore d m, lp_calls = []\<rparr>"

section \<open>A call that runs alone\<close>

text \<open>The sections of a call, run one after the other, are the call.\<close>

fun runCall :: "('d, 'm, 't) lenv \<Rightarrow> nat \<Rightarrow> 't lcall \<Rightarrow> ('d, 'm, 't lcall) lsM" where
  "runCall env 0 c = ret c"
| "runCall env (Suc n) c = seq (runSection env c) (runCall env n)"

lemma no_fail_releaseParent: "no_fail (releaseParent env p)"
  by (simp add: releaseParent_def no_fail_simps split: option.split)

lemmas section_laws = seq_assoc seq_ret tryGo_seq tryGo_simps tryGo_defer_set tryGo_defer_err no_fail_simps no_fail_releaseParent

lemma runCall_done:
  "runCall env n (CallRegister ts parent desc k (RegDone r)) = ret (CallRegister ts parent desc k (RegDone r))"
  "runCall env n (CallCreateRW name parent label f opts i (CrwDone q)) = ret (CallCreateRW name parent label f opts i (CrwDone q))"
  "runCall env n (CallReleaseRW l (RrwDone ms)) = ret (CallReleaseRW l (RrwDone ms))"
  by (induction n) (simp_all add: regSection_def crwSection_def rrwSection_def seq_ret)

lemma runCall_register:
  "runCall env 8 (CallRegister ts parent desc k RegStart) =
   seq (tryGo (registerWithDescriptor env ts parent desc k)) (\<lambda>x. ret (CallRegister ts parent desc k (RegDone x)))"
proof -
  let ?R = "CallRegister ts parent desc k" and ?pid = "\<lambda>p. case p of None \<Rightarrow> '''' | Some l \<Rightarrow> ro_cacheID l"
  let ?rel = "\<lambda>p x. seq (releaseParent env p) (\<lambda>_. ret (?R (RegDone x)))"
  let ?clean = "\<lambda>tx. seq (ignore_err (on_driver (drv_Remove env k))) (\<lambda>_. ignore_err (on_store (tx_Cancel env tx)))"
  let ?fin = "\<lambda>p tx x. seq (?clean tx) (\<lambda>_. ?rel p x)"
  note run = regSection_def section_laws runCall_done
  have 7: "runCall env (Suc n) (?R (RegRelease p x)) = ?rel p x" for n p x by (simp add: run)
  have 6: "runCall env (Suc (Suc n)) (?R (RegCleanup p tx x)) = ?fin p tx x" for n p tx x by (simp add: run)
  have 5: "runCall env (Suc (Suc (Suc n))) (?R (RegStored p tx l)) = seq (tryGo (publishLayer env tx l)) (\<lambda>x. case x of
      Inl e \<Rightarrow> ?fin p tx (Inl e) | Inr (r, b) \<Rightarrow> if b then ?fin p tx (Inr r) else ret (?R (RegDone (Inr r))))" for n p tx l
    by (simp add: run) (auto intro!: seq_rest simp: run split: sum.split)
  have 4: "runCall env (Suc (Suc (Suc (Suc n)))) (?R (RegApplied p tx l)) = seq (tryGo (storeLayer env tx l)) (\<lambda>x. case x of
      Inl e \<Rightarrow> ?fin p tx (Inl e) | Inr _ \<Rightarrow> runCall env (Suc (Suc (Suc n))) (?R (RegStored p tx l)))" for n p tx l
    by (simp add: run) (auto intro!: seq_rest simp: run split: sum.split)
  have 3: "runCall env (Suc (Suc (Suc (Suc (Suc n))))) (?R (RegTx p a tx)) = seq (tryGo (applyTar env tx ts (?pid p) k)) (\<lambda>x. case x of
      Inl e \<Rightarrow> ?fin p tx (Inl e)
    | Inr (sz, d) \<Rightarrow> runCall env (Suc (Suc (Suc (Suc n)))) (?R (RegApplied p tx (mkLayer env a p k desc sz d))))" for n p a tx
    by (simp add: run) (auto intro!: seq_rest simp: run split: sum.split)
  have 2: "runCall env (Suc (Suc (Suc (Suc (Suc (Suc n)))))) (?R (RegCreated p a)) = seq (tryGo (on_store (md_StartTransaction env))) (\<lambda>x. case x of
      Inl e \<Rightarrow> ?rel p (Inl e) | Inr tx \<Rightarrow> runCall env (Suc (Suc (Suc (Suc (Suc n))))) (?R (RegTx p a tx)))" for n p a
    by (simp add: run) (auto intro!: seq_rest simp: run split: sum.split)
  let ?fin = "\<lambda>p x. case x of Inl e \<Rightarrow> ?rel p (Inl e) | Inr (r, b) \<Rightarrow> if b then ?rel p (Inr r) else ret (?R (RegDone (Inr r)))"
  have tx: "seq (tryGo (defer_set (?clean tx) (seq (applyTar env tx ts (?pid p) k) (\<lambda>(sz, d).
        let layer = mkLayer env a p k desc sz d in seq (storeLayer env tx layer) (\<lambda>_. publishLayer env tx layer))))) (?fin p)
      = runCall env (Suc (Suc (Suc (Suc (Suc n))))) (?R (RegTx p a tx))" for tx p a n
    unfolding 3 4 5
    by (simp add: tryGo_defer_set no_fail_simps tryGo_seq Let_def) (auto intro!: seq_rest simp: tryGo_seq split: sum.split)
  let ?deep = "\<lambda>p. case p of None \<Rightarrow> False | Some l \<Rightarrow> depth l \<ge> maxLayerDepth"
  have 1: "runCall env (Suc (Suc (Suc (Suc (Suc (Suc (Suc n))))))) (?R (RegParent p)) = (if ?deep p then ?rel p (Inl ErrMaxDepthExceeded)
      else seq allocLayer (\<lambda>a. seq (tryGo (on_driver (drv_Create env k (?pid p) '''' Map.empty))) (\<lambda>x. case x of
        Inl e \<Rightarrow> ?rel p (Inl e) | Inr _ \<Rightarrow> runCall env (Suc (Suc (Suc (Suc (Suc (Suc n)))))) (?R (RegCreated p a)))))" for n p
    by (simp add: run) (auto intro!: seq_rest simp: run split: sum.split)
  have "no_fail allocLayer" by (auto simp: no_fail_def allocLayer_def go_defs)
  note alloc = tryGo_no_fail [OF this]
  have body: "seq (tryGo (registerBody env ts p desc k)) (?fin p) = runCall env (Suc (Suc (Suc (Suc (Suc (Suc (Suc n))))))) (?R (RegParent p))" for p n
    unfolding 1 2 tx [symmetric] registerBody_def Let_def [of "?pid p"]
    by (simp only: tryGo_simps tryGo_seq alloc if_distrib [of "\<lambda>m. seq m (?fin p)"] seq_ret)
      (auto intro!: seq_rest simp: tryGo_seq seq_ret split: sum.split)
  have 0: "runCall env (Suc n) (?R RegStart) = seq (tryGo (retainParent parent)) (\<lambda>x. case x of
      Inl e \<Rightarrow> ret (?R (RegDone (Inl e))) | Inr p \<Rightarrow> runCall env n (?R (RegParent p)))" for n
    by (simp add: run) (auto intro!: seq_rest simp: run split: sum.split)
  have eight: "8 = Suc (Suc (Suc (Suc (Suc (Suc (Suc (Suc 0)))))))" by simp
  show ?thesis
    unfolding eight 0 body [symmetric] registerWithDescriptor_def
    by (simp only: tryGo_seq) (auto intro!: seq_rest simp: section_laws split: sum.split)
qed

lemma runCall_createRW:
  "runCall env 3 (CallCreateRW name parent label f opts i CrwStart) =
   seq (tryGo (CreateRWLayer env name parent label f opts i)) (\<lambda>x. ret (CallCreateRW name parent label f opts i (CrwDone x)))"
proof -
  let ?R = "CallCreateRW name parent label f opts i"
  note run = crwSection_def section_laws runCall_done
  have 2: "runCall env (Suc n) (?R (CrwRelease p e)) = seq (releaseParent env p) (\<lambda>_. ret (?R (CrwDone (Inl e))))" for n p e
    by (simp add: run)
  have 1: "runCall env (Suc (Suc n)) (?R (CrwParent p)) = seq (tryGo (createRWBody env name p label f opts i)) (\<lambda>x. case x of
      Inl e \<Rightarrow> seq (releaseParent env p) (\<lambda>_. ret (?R (CrwDone (Inl e)))) | Inr r \<Rightarrow> ret (?R (CrwDone (Inr r))))" for n p
    by (simp add: run) (auto intro!: seq_rest simp: run split: sum.split)
  have 0: "runCall env (Suc n) (?R CrwStart) = seq (gets (\<lambda>ls. ls_mounts ls name)) (\<lambda>found. case found of
      Some _ \<Rightarrow> ret (?R (CrwDone (Inl ErrMountNameConflict)))
    | None \<Rightarrow> seq (tryGo (retainParent parent)) (\<lambda>x. case x of
        Inl e \<Rightarrow> ret (?R (CrwDone (Inl e))) | Inr p \<Rightarrow> runCall env n (?R (CrwParent p))))" for n
    by (simp add: run) (auto intro!: seq_rest simp: run split: sum.split option.split)
  have "no_fail (gets f)" for f :: "('a, 'b) layerStore \<Rightarrow> 'x" by (simp add: no_fail_def gets_def)
  note gets = tryGo_no_fail [OF this]
  have three: "3 = Suc (Suc (Suc 0))" by simp
  show ?thesis
    unfolding three 0 1 CreateRWLayer_def tryGo_seq gets
    by (auto intro!: seq_rest simp: section_laws split: sum.split option.split)
qed

lemma runCall_releaseRW:
  "runCall env 2 (CallReleaseRW l RrwStart) =
   seq (tryGo (ReleaseRWLayer env l)) (\<lambda>x. ret (CallReleaseRW l (RrwDone x)))"
proof -
  let ?R = "CallReleaseRW l"
  note run = rrwSection_def section_laws runCall_done
  have 1: "runCall env (Suc n) (?R (RrwParent p)) = seq (tryGo (releaseLayer env p)) (\<lambda>x. ret (?R (RrwDone x)))" for n p
    by (simp add: run)
  have 0: "runCall env (Suc n) (?R RrwStart) = seq (tryGo (releaseMount env l)) (\<lambda>x. case x of
      Inl e \<Rightarrow> ret (?R (RrwDone (Inl e))) | Inr None \<Rightarrow> ret (?R (RrwDone (Inr []))) | Inr (Some p) \<Rightarrow> runCall env n (?R (RrwParent p)))" for n
    by (simp add: run) (auto intro!: seq_rest simp: run split: sum.split option.split)
  have "ReleaseRWLayer env l = seq (releaseMount env l) (\<lambda>p. case p of None \<Rightarrow> ret [] | Some p \<Rightarrow> releaseLayer env p)"
    unfolding ReleaseRWLayer_def releaseMount_def
    by (simp add: seq_assoc) (auto intro!: seq_rest simp: seq_assoc seq_ret fail_def seq_def split: option.split)
  then have "seq (tryGo (ReleaseRWLayer env l)) (\<lambda>x. ret (?R (RrwDone x))) = runCall env (Suc (Suc 0)) (?R RrwStart)"
    unfolding 0 1 by (simp only: tryGo_seq) (auto intro!: seq_rest simp: section_laws split: sum.split option.split)
  then show ?thesis by (simp add: numeral_2_eq_2)
qed

section \<open>What calls in progress hold\<close>

text \<open>The layer that a call has retained and not yet released or handed over.\<close>

fun retained :: "'t lcall \<Rightarrow> roLayer option" where
  "retained (CallRegister _ _ _ _ stage) = (case stage of
      RegParent p \<Rightarrow> p | RegCreated p _ \<Rightarrow> p | RegTx p _ _ \<Rightarrow> p | RegApplied p _ _ \<Rightarrow> p
    | RegStored p _ _ \<Rightarrow> p | RegCleanup p _ _ \<Rightarrow> p | RegRelease p _ \<Rightarrow> p | _ \<Rightarrow> None)"
| "retained (CallCreateRW _ _ _ _ _ _ stage) = (case stage of CrwParent p \<Rightarrow> p | CrwRelease p _ \<Rightarrow> p | _ \<Rightarrow> None)"
| "retained (CallReleaseRW _ stage) = (case stage of RrwParent p \<Rightarrow> Some p | _ \<Rightarrow> None)"

text \<open>The layer object that a registration has made and not yet published.\<close>

fun newObject :: "'t lcall \<Rightarrow> addr option" where
  "newObject (CallRegister _ _ _ _ stage) = (case stage of
      RegCreated _ a \<Rightarrow> Some a | RegTx _ a _ \<Rightarrow> Some a
    | RegApplied _ _ l \<Rightarrow> Some (ro_addr l) | RegStored _ _ l \<Rightarrow> Some (ro_addr l) | _ \<Rightarrow> None)"
| "newObject _ = None"

text \<open>What the local variables of a call say about the store.\<close>

fun localOk :: "('d, 'm) layerStore \<Rightarrow> 't lcall \<Rightarrow> bool" where
  "localOk s (CallRegister _ _ _ _ stage) = (case stage of
      RegApplied p _ l \<Rightarrow> ro_parent l = p | RegStored p _ l \<Rightarrow> ro_parent l = p | _ \<Rightarrow> True)"
| "localOk s (CallCreateRW name _ _ _ _ _ stage) = (case stage of CrwParent _ \<Rightarrow> ls_mounts s name = None | _ \<Rightarrow> True)"
| "localOk s (CallReleaseRW _ _) = True"

definition ready :: "('d, 'm) layerStore \<Rightarrow> 't lcall \<Rightarrow> bool" where
  "ready s c \<longleftrightarrow> localOk s c \<and> (\<forall>a. newObject c = Some a \<longrightarrow> fresh_layer a s)"

section \<open>One section\<close>

lemma releaseMount_inv:
  "triple (ls_inv q) (releaseMount env l) (\<lambda>p. ls_inv (retain_opt p q)) (\<lambda>_. ls_inv q)"
  unfolding releaseMount_def
proof (rule triple_gets, rule triple_option)
  fix found :: "mountedLayer option" and m assume found: "found = Some m"
  let ?m = "m\<lparr>ml_references := ml_references m - {rw_id l}\<rparr>"
  let ?I = "\<lambda>s. ls_inv q s \<and> ls_mounts s (ml_name m) = Some ?m \<and> ml_name m = rw_name l"
  let ?E = "\<lambda>_. ls_inv q"
  let ?rm = "seq (on_driver (drv_Remove env (ml_mountID m))) (\<lambda>_.
      seq (if ml_initID m \<noteq> '''' then on_driver (drv_Remove env (ml_initID m)) else ret ()) (\<lambda>_.
      on_store (md_RemoveMount env (ml_name m))))"
  have set: "triple (\<lambda>s. ls_inv q s \<and> ls_mounts s (rw_name l) = found) (modify (setMount ?m)) (\<lambda>_. ?I) ?E"
  proof (rule triple_modify)
    fix s assume s: "ls_inv q s \<and> ls_mounts s (rw_name l) = found"
    then have "ml_name m = rw_name l" using inv_mount [of q s "rw_name l" m] found by (simp add: wf_mount_def)
    then show "?I (setMount ?m s)"
      using s found setMount_inv [of q s "rw_name l" m ?m] by (simp add: setMount_def)
  qed
  have "triple ?I ?rm (\<lambda>_. ?I) (\<lambda>_. ?I)"
    by (intro triple_seq [of ?I _ "\<lambda>_. ?I"] triple_if triple_ret on_driver_frame on_store_frame) auto
  moreover have "triple ?I (modify (retakeReference l)) ?E ?E"
    by (rule triple_modify) (auto simp: retakeReference_def intro!: setMount_inv [where n = "rw_name l" and m = ?m])
  ultimately have rm: "triple ?I (defer_err (modify (retakeReference l)) ?rm) (\<lambda>_. ?I) ?E"
    by (rule triple_defer_err)
  have drop: "triple ?I (modify (\<lambda>ls. ls\<lparr>ls_mounts := (ls_mounts ls)(ml_name m := None)\<rparr>))
      (\<lambda>_. ls_inv (retain_opt (ml_parent m) q)) ?E"
    using ls_inv_dropMount [of q _ "ml_name m" ?m] by (auto intro: triple_modify)
  show "triple (\<lambda>s. ls_inv q s \<and> ls_mounts s (rw_name l) = found)
     (if rw_id l \<notin> ml_references m then fail ErrLayerNotRetained else
      seq (modify (setMount ?m)) (\<lambda>_.
      if ml_references m - {rw_id l} \<noteq> {} then ret None else
      seq (defer_err (modify (retakeReference l)) ?rm) (\<lambda>_.
      seq (modify (\<lambda>ls. ls\<lparr>ls_mounts := (ls_mounts ls)(ml_name m := None)\<rparr>)) (\<lambda>_. ret (ml_parent m)))))
     (\<lambda>p. ls_inv (retain_opt p q)) ?E"
    by (intro triple_if triple_fail triple_seq [OF set] triple_ret triple_seq [OF rm] triple_seq [OF drop])
      (auto simp: retain_opt_def)
qed (auto intro: triple_ret simp: retain_opt_def)

lemma triple_then: "triple P m Q E \<Longrightarrow> (\<And>x s. Q x s \<Longrightarrow> R (f x) s) \<Longrightarrow> triple P (seq m (\<lambda>x. ret (f x))) R E"
  by (rule triple_seq) (auto intro: triple_ret)

text \<open>A section of a call turns what the call held before into what it holds afterwards, and does not panic.\<close>

lemma regSection_inv:
  fixes env :: "('d, 'm, 't) lenv" and stage :: "'t regStage" and ts parent k :: string and desc :: Descriptor
  defines "R \<equiv> CallRegister ts parent desc k"
  shows "triple (\<lambda>s. ls_inv (retain_opt (retained (R stage)) q) s \<and> ready s (R stage)) (regSection env ts parent desc k stage)
     (\<lambda>st s. ls_inv (retain_opt (retained (R st)) q) s \<and> ready s (R st)) (\<lambda>_ _. False)"
proof -
  have none [simp]: "retain_opt None q = q" by (simp add: retain_opt_def)
  let ?F = "\<lambda>p a s. ls_inv (retain_opt p q) s \<and> fresh_layer a s"
  have drv: "triple (?F p a) (on_driver g) (\<lambda>_. ?F p a) (\<lambda>_. ?F p a)" for p a g by (rule on_driver_frame) auto
  have sto: "triple (?F p a) (on_store g) (\<lambda>_. ?F p a) (\<lambda>_. ?F p a)" for p a g by (rule on_store_frame) auto
  note unf = regSection_def R_def ready_def
  show ?thesis
  proof (cases stage)
    case RegStart
    show ?thesis unfolding unf RegStart
      by simp (rule triple_then [OF triple_tryGo], rule triple_weaken [OF retainParent_inv], auto)
  next
    case (RegParent p)
    have "triple (?F p a) (seq (tryGo (on_driver g)) (\<lambda>x. ret (case x of Inl e \<Rightarrow> RegRelease p (Inl e) | Inr _ \<Rightarrow> RegCreated p a)))
        (\<lambda>st (s :: ('d, 'm) layerStore). ls_inv (retain_opt (retained (R st)) q) s \<and> ready s (R st)) (\<lambda>_ _. False)" for a and g :: "('d, unit) backend"
      by (rule triple_then [OF triple_tryGo], rule triple_weaken [OF drv]) (auto simp: unf split: sum.splits)
    note create = triple_seq [OF allocLayer_inv this]
    show ?thesis unfolding RegParent
      by (simp add: regSection_def, intro conjI impI triple_ret triple_pre [OF create]) (auto simp: unf)
  next
    case (RegCreated p a)
    show ?thesis unfolding unf RegCreated
      by simp (rule triple_then [OF triple_tryGo], rule triple_weaken [OF sto], auto)
  next
    case (RegTx p a tx)
    have tar: "triple (?F p a) (applyTar env tx ts pid k) (\<lambda>_. ?F p a) (\<lambda>_. ?F p a)" for pid by (rule applyTar_frame) auto
    show ?thesis unfolding unf RegTx
      by simp (rule triple_then [OF triple_tryGo], rule triple_weaken [OF tar], auto simp: mkLayer_def)
  next
    case (RegApplied p tx l)
    let ?G = "\<lambda>s. ?F p (ro_addr l) s \<and> ro_parent l = p"
    have store: "triple ?G (storeLayer env tx l) (\<lambda>_. ?G) (\<lambda>_. ?G)" by (rule storeLayer_frame) auto
    show ?thesis unfolding unf RegApplied
      by simp (rule triple_then [OF triple_tryGo], rule triple_weaken [OF store], auto)
  next
    case (RegStored p tx l)
    show ?thesis
    proof (cases "ro_parent l = p")
      case True
      show ?thesis unfolding unf RegStored
        by simp (rule triple_then [OF triple_tryGo], rule triple_weaken [OF publishLayer_inv [of l q env tx]],
          auto simp: True split: if_splits)
    qed (rule triple_vacuous, simp add: unf RegStored)
  next
    case (RegCleanup p tx r)
    let ?I = "ls_inv (retain_opt p q)"
    show ?thesis unfolding unf RegCleanup
      by simp (intro triple_seq [of ?I _ "\<lambda>_. ?I"] triple_ignore_err on_driver_frame on_store_frame triple_ret, auto)
  next
    case (RegRelease p r)
    show ?thesis unfolding unf RegRelease by simp (rule triple_then [OF releaseParent_inv], simp)
  next
    case (RegDone r)
    show ?thesis unfolding unf RegDone by simp (rule triple_ret, simp)
  qed
qed


lemma crwSection_inv:
  fixes env :: "('d, 'm, 't) lenv" and name parent label i :: string and f :: "(string \<Rightarrow> string option) option" and opts :: "string \<rightharpoonup> string"
  defines "R \<equiv> \<lambda>st. CallCreateRW name parent label f opts i st :: 't lcall"
  shows "triple (\<lambda>s. ls_inv (retain_opt (retained (R stage)) q) s \<and> ready s (R stage)) (crwSection env name parent label f opts i stage)
     (\<lambda>st s. ls_inv (retain_opt (retained (R st)) q) s \<and> ready s (R st)) (\<lambda>_ _. False)"
proof -
  have none [simp]: "retain_opt None q = q" by (simp add: retain_opt_def)
  note unf = crwSection_def R_def ready_def
  show ?thesis
  proof (cases stage)
    case CrwStart
    have keep: "triple (\<lambda>s. ls_inv q s \<and> ls_mounts s name = None) (retainParent parent)
        (\<lambda>p s. ls_inv (retain_opt p q) s \<and> ls_mounts s name = None) (\<lambda>_. ls_inv q)"
      by (rule triple_weaken [OF triple_conj [OF retainParent_inv retainParent_mounts [of "\<lambda>x. x name = None"]]]) auto
    show ?thesis unfolding unf CrwStart
      by simp (intro triple_gets triple_option triple_ret triple_then [OF triple_tryGo], auto intro!: triple_weaken [OF keep])
  next
    case (CrwParent p)
    show ?thesis unfolding unf CrwParent
      by simp (rule triple_then [OF triple_tryGo], rule triple_weaken [OF createRWBody_inv
          [of "\<lambda>s. ls_inv (retain_opt p q) s \<and> ls_mounts s name = None" p q name]], auto)
  next
    case (CrwRelease p e)
    show ?thesis unfolding unf CrwRelease by simp (rule triple_then [OF releaseParent_inv], simp)
  next
    case (CrwDone r)
    show ?thesis unfolding unf CrwDone by simp (rule triple_ret, simp)
  qed
qed

lemma rrwSection_inv:
  fixes env :: "('d, 'm, 't) lenv" and l :: rwRef
  defines "R \<equiv> \<lambda>st. CallReleaseRW l st :: 't lcall"
  shows "triple (\<lambda>s. ls_inv (retain_opt (retained (R stage)) q) s \<and> ready s (R stage)) (rrwSection env l stage)
     (\<lambda>st s. ls_inv (retain_opt (retained (R st)) q) s \<and> ready s (R st)) (\<lambda>_ _. False)"
proof -
  have none [simp]: "retain_opt None q = q" "\<And>p. retain_opt (Some p) q = retain p q" by (simp_all add: retain_opt_def)
  note unf = rrwSection_def R_def ready_def
  show ?thesis
  proof (cases stage)
    case RrwStart
    show ?thesis unfolding unf RrwStart
      by simp (rule triple_then [OF triple_tryGo], rule triple_weaken [OF releaseMount_inv], auto split: option.splits)
  next
    case (RrwParent p)
    show ?thesis unfolding unf RrwParent
      by simp (rule triple_then [OF triple_tryGo], rule triple_weaken [OF releaseLayer_inv], auto)
  next
    case (RrwDone r)
    show ?thesis unfolding unf RrwDone by simp (rule triple_ret, simp)
  qed
qed

lemma runSection_inv:
  "triple (\<lambda>s. ls_inv (retain_opt (retained c) q) s \<and> ready s c) (runSection env c)
     (\<lambda>c' s. ls_inv (retain_opt (retained c') q) s \<and> ready s c') (\<lambda>_ _. False)"
  by (cases c) (simp_all only: runSection.simps,
    (rule triple_then, rule regSection_inv crwSection_inv rrwSection_inv, assumption)+)

section \<open>What a section leaves alone\<close>

text \<open>The unpublished objects of the other calls.\<close>

lemma fresh_count: "fresh_layer b s \<Longrightarrow> a \<noteq> b \<Longrightarrow> fresh_layer b (s\<lparr>ls_refCount := (ls_refCount s)(a := n)\<rparr>)"
  by (simp add: fresh_layer_def)

lemma fresh_mounts [simp]: "fresh_layer b (s\<lparr>ls_mounts := m\<rparr>) = fresh_layer b s" "fresh_layer b (setMount x s) = fresh_layer b s"
  "fresh_layer b (retakeReference r s) = fresh_layer b s"
  by (simp_all add: fresh_layer_def setMount_def retakeReference_def split: option.split)

lemma fresh_drop: "fresh_layer b s \<Longrightarrow> fresh_layer b (s\<lparr>ls_layerMap := (ls_layerMap s)(c := None)\<rparr>)"
  by (simp add: fresh_layer_def)

lemma fresh_on_driver [ens_intros]: "(\<And>x. R x) \<Longrightarrow> ens (fresh_layer b) (on_driver f) R"
  unfolding on_driver_def by (rule ens_call) simp_all

lemma fresh_on_store [ens_intros]: "(\<And>x. R x) \<Longrightarrow> ens (fresh_layer b) (on_store f) R"
  unfolding on_store_def by (rule ens_call) simp_all

lemma fresh_getWithoutLock: "ens (fresh_layer b) (getWithoutLock c) (\<lambda>r. \<forall>l. r = Some l \<longrightarrow> ro_addr l \<noteq> b)"
  by (rule ensI) (auto simp: getWithoutLock_def go_defs fresh_layer_def split: option.splits)

lemma fresh_retainParent: "ens (fresh_layer b) (retainParent c) (\<lambda>_. True)"
  unfolding retainParent_def by (auto intro!: ens_intros ens_seq [OF fresh_getWithoutLock])

lemma fresh_getReference: "ro_addr l \<noteq> b \<Longrightarrow> ens (fresh_layer b) (getReference l) (\<lambda>_. True)"
  by (rule ensI) (auto simp: getReference_def go_defs fresh_layer_def)

lemma fresh_allocLayer: "ens (fresh_layer b) allocLayer (\<lambda>a. a \<noteq> b)"
  by (rule ensI) (auto simp: allocLayer_def go_defs fresh_layer_def)

lemma fresh_publishLayer: "ro_addr l \<noteq> b \<Longrightarrow> ens (fresh_layer b) (publishLayer env tx l) (\<lambda>_. True)"
  unfolding publishLayer_def
  by (rule ens_seq [OF fresh_getWithoutLock])
    (auto intro!: ens_intros ens_step ens_modify fresh_getReference simp: fresh_layer_def)

lemma fresh_releaseLoop: "b \<notin> ro_addr ` set (chain l) \<Longrightarrow> ens (fresh_layer b) (releaseLoop env dep removed l) (\<lambda>_. True)"
proof (induction l arbitrary: dep removed)
  case (RoLayer a c d k sz desc parent)
  have cnt: "a \<noteq> b" using RoLayer.prems chain_eq [of "RoLayer a c d k sz desc parent"] by auto
  show ?case
  proof (cases parent)
    case None
    then show ?thesis using cnt
      by (auto simp: deleteLayer_def seq_assoc intro!: ens_intros ens_step ens_gets ens_modify fresh_count fresh_drop)
  next
    case (Some p)
    then have "ens (fresh_layer b) (releaseLoop env x y p) (\<lambda>_. True)" for x y
      using RoLayer by auto
    then show ?thesis using cnt Some
      by (auto simp: deleteLayer_def seq_assoc intro!: ens_intros ens_step ens_gets ens_modify fresh_count fresh_drop)
  qed
qed

lemma fresh_releaseLayer: "b \<notin> ro_addr ` set (chain l) \<Longrightarrow> ens (fresh_layer b) (releaseLayer env l) (\<lambda>_. True)"
  unfolding releaseLayer_def by (rule fresh_releaseLoop)

lemma fresh_releaseParent:
  "(\<And>l. p = Some l \<Longrightarrow> b \<notin> ro_addr ` set (chain l)) \<Longrightarrow> ens (fresh_layer b) (releaseParent env p) (\<lambda>_. True)"
  unfolding releaseParent_def by (auto intro!: ens_intros ens_ignore_err fresh_releaseLayer)

lemma fresh_ml_getReference: "ens (fresh_layer b) (ml_getReference n m) (\<lambda>_. True)"
  by (rule ensI) (auto simp: ml_getReference_def go_defs fresh_layer_def)

lemma fresh_backend_calls:
  "ens (fresh_layer b) (applyTar env tx ts pid k) (\<lambda>_. True)" "ens (fresh_layer b) (storeLayer env tx l) (\<lambda>_. True)"
  "ens (fresh_layer b) (saveMount env m) (\<lambda>_. True)" "ens (fresh_layer b) (initMount env g pid label f opts) (\<lambda>_. True)"
  unfolding applyTar_def storeLayer_def saveMount_def initMount_def Let_def
  by (auto intro!: ens_intros ens_step ens_modify ens_ignore_err ens_defer_err)

lemma fresh_createRWBody: "ens (fresh_layer b) (createRWBody env n p label f opts k) (\<lambda>_. True)"
  unfolding createRWBody_def Let_def
  by (auto intro!: ens_intros ens_step fresh_backend_calls fresh_ml_getReference)

lemma fresh_releaseMount: "ens (fresh_layer b) (releaseMount env l) (\<lambda>_. True)"
  unfolding releaseMount_def
  by (auto intro!: ens_intros ens_step ens_gets ens_modify ens_defer_err)

lemma fresh_mount_calls: "ens (fresh_layer b) (GetRWLayer n) (\<lambda>_. True)" "ens (fresh_layer b) (GetMountID n) (\<lambda>_. True)"
  unfolding GetRWLayer_def GetMountID_def
  by (auto intro!: ens_intros ens_step ens_gets fresh_ml_getReference)

lemma fresh_Get: "ens (fresh_layer b) (Get c) (\<lambda>_. True)"
  unfolding Get_def by (rule ens_seq [OF fresh_getWithoutLock]) (auto intro!: ens_intros fresh_getReference)

text \<open>A layer of the table and its ancestors are published.\<close>

lemma fresh_chain: "ls_inv q s \<Longrightarrow> fresh_layer b s \<Longrightarrow> ls_layerMap s c = Some l \<Longrightarrow> b \<notin> ro_addr ` set (chain l)"
  using inv_chain [of q s c l] by (auto simp: fresh_layer_def)

lemma fresh_Release:
  assumes "ls_inv q s" and "fresh_layer b s"
  shows "fresh_layer b (snd (Release env r s))"
proof (cases "\<exists>l. ls_layerMap s (ro_chainID (lr_layer r)) = Some l \<and> lr_id r \<in> ls_refs s (ro_addr l)")
  case True
  then obtain l where l: "ls_layerMap s (ro_chainID (lr_layer r)) = Some l" "lr_id r \<in> ls_refs s (ro_addr l)" by blast
  then have "Release env r s = releaseLayer env l (deleteReference l r s)" by (simp add: Release_def go_defs hasReference_def)
  moreover have "fresh_layer b (deleteReference l r s)" using assms(2) l by (auto simp: deleteReference_def fresh_layer_def)
  ultimately show ?thesis using ensD [OF fresh_releaseLayer [OF fresh_chain [OF assms l(1)]]] by (metis prod.collapse)
next
  case False
  then show ?thesis using assms by (auto simp: Release_def go_defs hasReference_def split: option.split)
qed

text \<open>A section keeps the unpublished objects of other calls, and does not make one with the same address.\<close>

lemma section_fresh:
  assumes "\<And>l. retained c = Some l \<Longrightarrow> b \<notin> ro_addr ` set (chain l)" and "newObject c \<noteq> Some b"
  shows "ens (fresh_layer b) (runSection env c) (\<lambda>c'. newObject c' \<noteq> Some b)"
proof (cases c)
  case (CallRegister ts parent desc k stage)
  have "ens (fresh_layer b) (regSection env ts parent desc k stage) (\<lambda>st. newObject (CallRegister ts parent desc k st) \<noteq> Some b)"
  proof (cases "\<exists>p. stage = RegParent p")
    case True
    then show ?thesis unfolding regSection_def
      by (clarsimp, intro conjI impI ens_seq [OF fresh_allocLayer] ens_step ens_tryGo ens_intros) (auto split: sum.splits)
  next
    case False
    then show ?thesis using assms CallRegister unfolding regSection_def
      by (cases stage) (auto intro!: ens_intros ens_tryGo ens_ignore_err fresh_retainParent fresh_backend_calls fresh_publishLayer
        fresh_releaseParent ens_step simp: mkLayer_def split: sum.splits if_splits)
  qed
  then show ?thesis using CallRegister by (auto intro!: ens_seq ens_intros)
next
  case (CallCreateRW name parent label f opts i stage)
  have "ens (fresh_layer b) (crwSection env name parent label f opts i stage) (\<lambda>_. True)"
    using assms CallCreateRW unfolding crwSection_def
    by (cases stage) (auto intro!: ens_intros ens_tryGo ens_step ens_gets fresh_retainParent fresh_createRWBody fresh_releaseParent)
  then show ?thesis using CallCreateRW by (auto intro!: ens_seq ens_intros)
next
  case (CallReleaseRW l stage)
  have "ens (fresh_layer b) (rrwSection env l stage) (\<lambda>_. True)"
    using assms CallReleaseRW unfolding rrwSection_def
    by (cases stage) (auto intro!: ens_intros ens_tryGo ens_step fresh_releaseMount fresh_releaseLayer)
  then show ?thesis using CallReleaseRW by (auto intro!: ens_seq ens_intros)
qed


text \<open>The mounts, unless the section has \<open>mountL\<close>.\<close>

abbreviation sameMounts :: "(string \<rightharpoonup> mountedLayer) \<Rightarrow> ('d, 'm) layerStore \<Rightarrow> bool" where
  "sameMounts M s \<equiv> ls_mounts s = M"

lemma mounts_on_driver [ens_intros]: "(\<And>x. R x) \<Longrightarrow> ens (sameMounts M) (on_driver f) R"
  unfolding on_driver_def by (rule ens_call) simp_all

lemma mounts_on_store [ens_intros]: "(\<And>x. R x) \<Longrightarrow> ens (sameMounts M) (on_store f) R"
  unfolding on_store_def by (rule ens_call) simp_all

lemma mounts_getWithoutLock: "ens (sameMounts M) (getWithoutLock c) (\<lambda>_. True)"
  unfolding getWithoutLock_def by (auto intro!: ens_intros ens_step ens_gets ens_modify)

lemma mounts_getReference: "ens (sameMounts M) (getReference l) (\<lambda>_. True)"
  unfolding getReference_def by (auto intro!: ens_intros ens_step ens_gets ens_modify)

lemma mounts_releaseLayer: "ens (sameMounts M) (releaseLayer env l) (\<lambda>_. True)"
proof -
  have "ens (sameMounts M) (releaseLoop env dep removed l) (\<lambda>_. True)" for dep removed
  proof (induction l arbitrary: dep removed)
    case (RoLayer a c d k sz desc parent)
    then show ?case
      by (cases parent) (auto simp: deleteLayer_def seq_assoc intro!: ens_intros ens_step ens_gets ens_modify)
  qed
  then show ?thesis by (simp add: releaseLayer_def)
qed

lemma mounts_calls:
  "ens (sameMounts M) (Get c) (\<lambda>_. True)" "ens (sameMounts M) (Release env r) (\<lambda>_. True)"
  "ens (sameMounts M) (retainParent c) (\<lambda>_. True)" "ens (sameMounts M) (releaseParent env p) (\<lambda>_. True)"
  "ens (sameMounts M) (publishLayer env tx l) (\<lambda>_. True)" "ens (sameMounts M) allocLayer (\<lambda>_. True)"
  "ens (sameMounts M) (applyTar env tx ts pid k) (\<lambda>_. True)" "ens (sameMounts M) (storeLayer env tx l) (\<lambda>_. True)"
  unfolding Get_def Release_def retainParent_def releaseParent_def publishLayer_def allocLayer_def applyTar_def storeLayer_def
  by (auto intro!: ens_intros ens_step ens_gets ens_modify ens_ignore_err ens_defer_err mounts_getWithoutLock mounts_getReference
      mounts_releaseLayer simp: deleteReference_def)

lemma section_mounts:
  assumes "\<not> wantsMountL c" and "\<not> holdsMountL c"
  shows "ens (sameMounts M) (runSection env c) (\<lambda>_. True)"
proof (cases c)
  case (CallRegister ts parent desc k stage)
  have "ens (sameMounts M) (regSection env ts parent desc k stage) (\<lambda>_. True)"
    unfolding regSection_def
    by (cases stage) (auto intro!: ens_intros ens_tryGo ens_ignore_err ens_step mounts_calls)
  then show ?thesis using CallRegister by (auto intro!: ens_seq ens_intros)
next
  case (CallCreateRW name parent label f opts i stage)
  then show ?thesis using assms by (cases stage) (auto simp: crwSection_def intro!: ens_intros)
next
  case (CallReleaseRW l stage)
  then show ?thesis using assms by (cases stage) (auto simp: rrwSection_def intro!: ens_intros)
qed

text \<open>Only a call that had \<open>mountL\<close> or was waiting for it can have it afterwards.\<close>

lemma section_holds:
  assumes "runSection env c s = (Ret c', t)" and "holdsMountL c'"
  shows "holdsMountL c \<or> wantsMountL c"
  using assms
proof (cases c)
  case (CallCreateRW name parent label f opts i stage)
  then show ?thesis using assms by (cases stage) (auto simp: crwSection_def seq_Ret_iff ret_def)
next
  case (CallReleaseRW l stage)
  then show ?thesis using assms by (cases stage) (auto simp: rrwSection_def seq_Ret_iff ret_def)
qed (auto simp: seq_Ret_iff ret_def)

section \<open>The invariant of the pool\<close>

definition pendOf :: "'t lcall list \<Rightarrow> roLayer \<Rightarrow> nat" where
  "pendOf cs l = length (filter (\<lambda>c. retained c = Some l) cs)"

definition apart :: "'t lcall \<Rightarrow> 't lcall \<Rightarrow> bool" where
  "apart c d \<longleftrightarrow> (\<forall>a. newObject c = Some a \<longrightarrow> newObject d \<noteq> Some a) \<and> \<not> (holdsMountL c \<and> holdsMountL d)"

definition pool_inv :: "('d, 'm, 't) lpool \<Rightarrow> bool" where
  "pool_inv pl \<longleftrightarrow> ls_inv (pendOf (lp_calls pl)) (lp_store pl) \<and> (\<forall>c\<in>set (lp_calls pl). ready (lp_store pl) c) \<and>
     sorted_wrt apart (lp_calls pl)"

lemma pendOf_split: "pendOf (xs @ c # ys) = retain_opt (retained c) (pendOf (xs @ ys))"
  by (rule ext) (simp add: pendOf_def retain_opt_def split: option.split)

lemma apart_sym: "apart c d \<Longrightarrow> apart d c"
  by (auto simp: apart_def)

lemma sorted_apart: "sorted_wrt apart (xs @ c # ys) \<longleftrightarrow> sorted_wrt apart (xs @ ys) \<and> (\<forall>d\<in>set xs \<union> set ys. apart d c)"
  by (auto simp: sorted_wrt_append intro: apart_sym)

lemma ready_other:
  assumes d: "ready s d" and a: "apart d c" and run: "runSection env c s = (r, t)" and inv: "ls_inv q s"
    and p: "\<And>l. retained c = Some l \<Longrightarrow> ls_layerMap s (ro_chainID l) = Some l"
    and free: "wantsMountL c \<Longrightarrow> \<not> holdsMountL d"
  shows "ready t d"
proof -
  have "fresh_layer b t" if b: "newObject d = Some b" for b
  proof -
    have "fresh_layer b s" using d b by (simp add: ready_def)
    moreover have "newObject c \<noteq> Some b" using a b by (auto simp: apart_def)
    ultimately show ?thesis using ensD [OF section_fresh _ run] fresh_chain [OF inv] p by blast
  qed
  moreover have "localOk t d"
  proof (cases "holdsMountL d")
    case True
    then have "\<not> holdsMountL c" "\<not> wantsMountL c" using a free by (auto simp: apart_def)
    then have "ls_mounts t = ls_mounts s" using ensD [OF section_mounts _ run] by blast
    then show ?thesis using d by (cases d) (auto simp: ready_def split: crwStage.splits)
  next
    case False
    then show ?thesis using d by (cases d) (auto simp: ready_def split: crwStage.splits regStage.splits)
  qed
  ultimately show ?thesis by (simp add: ready_def)
qed

lemma continue_inv:
  assumes inv: "pool_inv pl" and calls: "lp_calls pl = xs @ c # ys" and free: "wantsMountL c \<Longrightarrow> mountLFree pl"
    and run: "runSection env c (lp_store pl) = (r, t)"
  shows "\<exists>c'. r = Ret c' \<and> pool_inv (pl\<lparr>lp_store := t, lp_calls := xs @ c' # ys\<rparr>)"
proof -
  let ?s = "lp_store pl" and ?q = "pendOf (xs @ ys)"
  have s: "ls_inv (retain_opt (retained c) ?q) ?s" "ready ?s c" and rest: "\<forall>d\<in>set xs \<union> set ys. ready ?s d \<and> apart d c" "sorted_wrt apart (xs @ ys)"
    using inv calls by (auto simp: pool_inv_def pendOf_split sorted_apart)
  obtain c' where c': "r = Ret c'" "ls_inv (retain_opt (retained c') ?q) t" "ready t c'"
    using runSection_inv [of c ?q env] s run unfolding triple_def by (auto dest!: spec [of _ ?s])
  have p: "ls_layerMap ?s (ro_chainID l) = Some l" if "retained c = Some l" for l
    using inv_retained [OF s(1), of l] that by (simp add: retain_opt_def)
  have other: "ready t d \<and> apart d c'" if d: "d \<in> set xs \<union> set ys" for d
  proof
    have free': "wantsMountL c \<Longrightarrow> \<not> holdsMountL d" using free calls d by (auto simp: mountLFree_def list_ex_iff)
    show "ready t d" using ready_other [OF _ _ run s(1) p free'] rest(1) d by blast
    have "newObject c' \<noteq> Some b" if "newObject d = Some b" for b
    proof -
      have "fresh_layer b ?s" "newObject c \<noteq> Some b" using rest(1) d that by (auto simp: ready_def apart_def)
      then show ?thesis using ensD [OF section_fresh _ run] fresh_chain [OF s(1)] p c'(1) by blast
    qed
    moreover have "\<not> (holdsMountL d \<and> holdsMountL c')"
      using section_holds [OF run [unfolded c'(1)]] free' rest(1) d by (auto simp: apart_def)
    ultimately show "apart d c'" by (auto simp: apart_def)
  qed
  have "pool_inv (pl\<lparr>lp_store := t, lp_calls := xs @ c' # ys\<rparr>)"
    using c' other rest(2) by (auto simp: pool_inv_def pendOf_split sorted_apart)
  then show ?thesis using c'(1) by blast
qed


lemma beginCall_inv:
  fixes c :: "'a lcall"
  assumes "retained c = None" and "newObject c = None" and "\<not> holdsMountL c" and "\<And>s :: ('d, 'm) layerStore. localOk s c"
  shows "triple pool_inv (beginCall c :: (('d, 'm, 'a) lpool, layer_err, unit) go) (\<lambda>_. pool_inv) (\<lambda>_. pool_inv)"
proof -
  have "pool_inv (pl\<lparr>lp_calls := lp_calls pl @ [c]\<rparr>)" if "pool_inv pl" for pl :: "('d, 'm, 'a) lpool"
    using that assms pendOf_split [of "lp_calls pl" c "[]"]
    by (auto simp: pool_inv_def sorted_wrt_append apart_def ready_def retain_opt_def)
  then show ?thesis unfolding beginCall_def by (intro triple_modify)
qed

text \<open>A call that is one section keeps the counts, and what the calls in progress know.\<close>

lemma whole_inv:
  assumes keep: "\<And>q. triple (ls_inv q) m (\<lambda>_. ls_inv q) (\<lambda>_. ls_inv q)"
    and fresh: "\<And>q b s. ls_inv q s \<Longrightarrow> fresh_layer b s \<Longrightarrow> fresh_layer b (snd (m s))"
    and mounts: "\<And>s. pool_inv pl \<Longrightarrow> \<not> mountLFree pl \<Longrightarrow> ls_mounts (snd (m s)) = ls_mounts s"
    and pl: "pool_inv pl" and run: "onPool m pl = (r, pl')"
  shows "pool_inv pl' \<and> \<not> is_Panic r"
proof -
  let ?s = "lp_store pl" and ?q = "pendOf (lp_calls pl)"
  obtain r0 t where t: "m ?s = (r0, t)" by (metis surj_pair)
  have pl': "pl' = pl\<lparr>lp_store := t\<rparr>" "is_Panic r = is_Panic r0"
    using run t by (auto simp: onPool_def zoom_def split: outcome.splits)
  have s: "ls_inv ?q ?s" using pl by (simp add: pool_inv_def)
  then have inv: "ls_inv ?q t" "\<not> is_Panic r0" using keep [of ?q] t unfolding triple_def by (auto dest!: spec [of _ ?s])
  have "ready t d" if d: "d \<in> set (lp_calls pl)" for d
  proof -
    have r: "ready ?s d" using pl d by (auto simp: pool_inv_def)
    then have "fresh_layer b t" if "newObject d = Some b" for b using fresh [OF s, of b] that t by (simp add: ready_def)
    moreover have "localOk t d"
    proof (cases "holdsMountL d")
      case True
      then have "ls_mounts t = ls_mounts ?s" using mounts [OF pl, of ?s] d t by (auto simp: mountLFree_def list_ex_iff)
      then show ?thesis using r by (cases d) (auto simp: ready_def split: crwStage.splits)
    next
      case False
      then show ?thesis using r by (cases d) (auto simp: ready_def split: crwStage.splits regStage.splits)
    qed
    ultimately show ?thesis by (simp add: ready_def)
  qed
  then show ?thesis using inv pl pl' by (simp add: pool_inv_def)
qed

lemma lpStep_inv: "triple pool_inv (lpStep env ev) (\<lambda>_. pool_inv) (\<lambda>_. pool_inv)"
proof (rule triple_keepI)
  fix pl :: "('a, 'b, 'c) lpool"
  assume pl: "pool_inv pl"
  have fresh: "ens (fresh_layer b) m (\<lambda>_. True) \<Longrightarrow> fresh_layer b s \<Longrightarrow> fresh_layer b (snd (m s))" for b m and s :: "('a, 'b) layerStore"
    by (simp add: ens_def)
  have mounts: "(\<And>M. ens (sameMounts M) m (\<lambda>_. True)) \<Longrightarrow> ls_mounts (snd (m s)) = ls_mounts s" for m and s :: "('a, 'b) layerStore"
    by (simp add: ens_def)
  have then': "\<not> is_Panic (fst (seq (onPool m) (\<lambda>_. ret ()) pl)) \<and> pool_inv (snd (seq (onPool m) (\<lambda>_. ret ()) pl))"
    if "\<And>r pl'. onPool m pl = (r, pl') \<Longrightarrow> pool_inv pl' \<and> \<not> is_Panic r" for m :: "('a, 'b, 'x) lsM"
    using that by (cases "onPool m pl") (auto simp: seq_def ret_def split: outcome.split)
  have starts: "\<not> is_Panic (fst (beginCall c pl :: (layer_err, unit) outcome \<times> ('a, 'b, 'c) lpool)) \<and>
      pool_inv (snd (beginCall c pl :: (layer_err, unit) outcome \<times> ('a, 'b, 'c) lpool))"
    if "retained c = None" "newObject c = None" "\<not> holdsMountL c" "\<And>s :: ('a, 'b) layerStore. localOk s c" for c
    using triple_any [OF beginCall_inv [OF that] pl] by (simp add: beginCall_def modify_def)
  show "\<not> is_Panic (fst (lpStep env ev pl)) \<and> pool_inv (snd (lpStep env ev pl))"
  proof (cases ev)
    case (Continue i)
    show ?thesis
    proof (cases "i < length (lp_calls pl) \<and> (wantsMountL (lp_calls pl ! i) \<longrightarrow> mountLFree pl)")
      case True
      let ?xs = "take i (lp_calls pl)" and ?c = "lp_calls pl ! i" and ?ys = "drop (Suc i) (lp_calls pl)"
      have calls: "lp_calls pl = ?xs @ ?c # ?ys" using True by (simp add: id_take_nth_drop)
      obtain r t where run: "runSection env ?c (lp_store pl) = (r, t)" by (metis surj_pair)
      from continue_inv [OF pl calls _ run] True obtain c' where c': "r = Ret c'" "pool_inv (pl\<lparr>lp_store := t, lp_calls := ?xs @ c' # ?ys\<rparr>)" by blast
      have "(lp_calls pl)[i := c'] = ?xs @ c' # ?ys" using True by (simp add: upd_conv_take_nth_drop)
      then have "lpStep env ev pl = (Ret (), pl\<lparr>lp_store := t, lp_calls := ?xs @ c' # ?ys\<rparr>)"
        using Continue True run c'(1) by (simp add: go_defs onPool_def zoom_def)
      then show ?thesis using c'(2) by simp
    next
      case False
      then have "lpStep env ev pl = (Ret (), pl)" using Continue by (auto simp: go_defs)
      then show ?thesis using pl by simp
    qed
  next
    case (WholeGet c)
    show ?thesis unfolding WholeGet lpStep.simps
      by (rule then', rule whole_inv [OF Get_inv fresh [OF fresh_Get] mounts [OF mounts_calls(1)] pl])
  next
    case (WholeRelease x)
    show ?thesis unfolding WholeRelease lpStep.simps
      by (rule then', rule whole_inv [OF Release_inv fresh_Release mounts [OF mounts_calls(2)] pl])
  next
    case (WholeGetRW n)
    have "mountLFree pl \<Longrightarrow> \<not> is_Panic (fst (seq (onPool (GetRWLayer n)) (\<lambda>_. ret ()) pl)) \<and> pool_inv (snd (seq (onPool (GetRWLayer n)) (\<lambda>_. ret ()) pl))"
      by (rule then', rule whole_inv [OF GetRWLayer_inv fresh [OF fresh_mount_calls(1)] _ pl]) simp_all
    then show ?thesis using WholeGetRW pl by (auto simp: seq_def [of "gets mountLFree"] gets_def ret_def)
  next
    case (WholeGetMountID n)
    have "mountLFree pl \<Longrightarrow> \<not> is_Panic (fst (seq (onPool (GetMountID n)) (\<lambda>_. ret ()) pl)) \<and> pool_inv (snd (seq (onPool (GetMountID n)) (\<lambda>_. ret ()) pl))"
      by (rule then', rule whole_inv [OF GetMountID_inv fresh [OF fresh_mount_calls(2)] _ pl]) simp_all
    then show ?thesis using WholeGetMountID pl by (auto simp: seq_def [of "gets mountLFree"] gets_def ret_def)
  qed (use starts pl in auto)
qed


interpretation layer_pool: go_service "lpStep env" pool_inv
  by unfold_locales (rule lpStep_inv)

lemma pendOf_Nil: "pendOf [] = (\<lambda>_. 0)"
  by (simp add: pendOf_def fun_eq_iff)

lemma emptyPool_inv: "pool_inv (emptyPool d m)"
  using emptyStore_inv [of d m] by (simp add: pool_inv_def emptyPool_def pendOf_Nil)

section \<open>The property\<close>

text \<open>
  C10. Whatever the interleaving of any number of registrations, creations and releases of mounts, \<open>Get\<close>,
  \<open>Release\<close>, \<open>GetRWLayer\<close> and \<open>GetMountID\<close>, and whatever fails in the driver or the metadata store: no
  section panics, the count of every layer is the number of references, children and mounts it has
  plus the number of calls in progress that have retained it, and a layer that a call in progress has
  retained is still in the store.
\<close>

theorem overlapping_calls_keep_counts:
  fixes env :: "('d, 'm, 't) lenv" and evs :: "lpEvent list" and d :: 'd and m :: 'm
  defines "pl \<equiv> snd (runOps (lpStep env) evs (emptyPool d m))"
  shows "(\<forall>r\<in>set (fst (runOps (lpStep env) evs (emptyPool d m))). \<not> is_Panic r) \<and>
    (\<forall>c l. ls_layerMap (lp_store pl) c = Some l \<longrightarrow>
       ls_refCount (lp_store pl) (ro_addr l) =
         card (ls_refs (lp_store pl) (ro_addr l)) + card (children (lp_store pl) l) + card (mountsOn (lp_store pl) l) +
         length (filter (\<lambda>c. retained c = Some l) (lp_calls pl))) \<and>
    (\<forall>c\<in>set (lp_calls pl). \<forall>l. retained c = Some l \<longrightarrow> ls_layerMap (lp_store pl) (ro_chainID l) = Some l)"
proof -
  have pl: "pool_inv pl" unfolding pl_def using layer_pool.run_inv [OF emptyPool_inv] .
  then have inv: "ls_inv (pendOf (lp_calls pl)) (lp_store pl)" by (simp add: pool_inv_def)
  have "0 < pendOf (lp_calls pl) l" if "c \<in> set (lp_calls pl)" "retained c = Some l" for c l
    using that by (auto simp: pendOf_def filter_empty_conv)
  then show ?thesis
    using layer_pool.run_no_panic [OF emptyPool_inv, of env evs d m] inv_count [OF inv] inv_retained [OF inv] by (auto simp: holders_def pendOf_def)
qed

text \<open>Two registrations of the same stream that overlap: the second finds the layer of the first.\<close>

definition demo_events :: "lpEvent list" where
  "demo_events = [BeginRegister ''x'' '''' emptyDescriptor ''k0'', BeginRegister ''x'' '''' emptyDescriptor ''k1''] @
     replicate 5 (Continue 0) @ replicate 5 (Continue 1) @ [Continue 0, Continue 1, Continue 1, Continue 1]"

definition demo_pool :: "(unit, unit, unit) lpool" where
  "demo_pool = snd (runOps (lpStep demo_env) demo_events (emptyPool () ()))"

lemma demo_pool_layer: "\<exists>l. ls_layerMap (lp_store demo_pool) ''dx'' = Some l \<and> ls_refCount (lp_store demo_pool) (ro_addr l) = 2"
  by (simp add: demo_pool_def demo_events_def emptyPool_def beginCall_def regSection_def onPool_def zoom_def tryGo_def releaseParent_def demo_eval
    numeral_eq_Suc)

theorem overlapping_calls_keep_counts_witness:
  "\<exists>l. ls_layerMap (lp_store demo_pool) ''dx'' = Some l \<and>
     2 = card (ls_refs (lp_store demo_pool) (ro_addr l)) + card (children (lp_store demo_pool) l) + card (mountsOn (lp_store demo_pool) l) +
       length (filter (\<lambda>c. retained c = Some l) (lp_calls demo_pool))"
proof -
  obtain l where "ls_layerMap (lp_store demo_pool) ''dx'' = Some l" "ls_refCount (lp_store demo_pool) (ro_addr l) = 2"
    using demo_pool_layer by blast
  moreover note overlapping_calls_keep_counts [of demo_env demo_events "()" "()", folded demo_pool_def]
  ultimately show ?thesis by metis
qed

end
