(* ===== verification/LayerHold.thy ===== *)
theory LayerHold
  imports LayerStoreProps
begin

text \<open>
  What the holder of a layer reference can rely on, whatever the other clients of the layer store
  do: the contract \<open>layer_provider\<close>, which the image store is proved against, and its
  interpretation on \<open>Get\<close> and \<open>Release\<close> of the layer store.
\<close>

section \<open>A held layer stays held\<close>

definition holding :: "layerRef \<Rightarrow> (roLayer \<Rightarrow> nat) \<Rightarrow> ('d, 'm) layerStore \<Rightarrow> bool" where
  "holding r pend s \<longleftrightarrow> ls_inv pend s \<and> held r s"

lemma getWithoutLock_held: "triple (held r) (getWithoutLock c) (\<lambda>x s. held r s \<and> (x = None \<longrightarrow> ls_layerMap s c = None)) E"
  by (auto simp: triple_def getWithoutLock_def go_defs held_def split: option.split)

lemma getReference_held: "triple (held r) (getReference l) (\<lambda>_. held r) E"
  by (auto simp: triple_def getReference_def go_defs held_def)

lemma Get_held: "triple (held r) (Get c) (\<lambda>_. held r) (\<lambda>_. held r)"
  unfolding Get_def
  by (rule triple_seq [where R = "\<lambda>_. held r", OF triple_weaken [OF getWithoutLock_held]])
    (auto intro!: triple_option triple_fail getReference_held)

lemma alloc_held: "triple (holding r pend) allocLayer (\<lambda>_. held r) E"
proof -
  have "ro_addr (lr_layer r) \<noteq> ls_next s" if "holding r pend s" for s :: "('a, 'b) layerStore"
    using that inv_layer [of pend s "ro_chainID (lr_layer r)" "lr_layer r"] by (auto simp: holding_def held_def wf_layer_def)
  then show ?thesis by (auto simp: triple_def allocLayer_def go_defs held_def holding_def)
qed

lemma publishLayer_keeps: "triple (held r) (publishLayer env tx l) (\<lambda>_. held r) (\<lambda>_. held r)"
proof -
  let ?I = "\<lambda>s. held r s \<and> ls_layerMap s (ro_chainID l) = None"
  have commit: "triple ?I (on_store f) (\<lambda>_. ?I) (\<lambda>_. held r)" for f
    by (rule triple_weaken [OF on_store_frame [of ?I]]) auto
  have add: "triple ?I (modify (\<lambda>ls. ls\<lparr>ls_layerMap := (ls_layerMap ls)(ro_chainID l \<mapsto> l)\<rparr>)) (\<lambda>_. held r) (\<lambda>_. held r)"
    by (rule triple_modify) (auto simp: held_def)
  show ?thesis
    unfolding publishLayer_def
    by (rule triple_seq [OF getWithoutLock_held])
      (auto intro!: triple_option triple_seq [OF getReference_held] triple_ret triple_seq [OF triple_pre [OF commit]]
        triple_seq [OF add])
qed

lemma registerBody_keeps:
  "triple (holding r q) (registerBody env ts p desc k) (\<lambda>_. held r) (\<lambda>_. held r)"
proof -
  let ?clean = "\<lambda>tx. seq (ignore_err (on_driver (drv_Remove env k))) (\<lambda>_. ignore_err (on_store (tx_Cancel env tx)))"
  have drv: "triple (held r) (on_driver f) (\<lambda>_. held r) (\<lambda>_. held r)" for f by (rule on_driver_frame) simp
  have sto: "triple (held r) (on_store f) (\<lambda>_. held r) (\<lambda>_. held r)" for f by (rule on_store_frame) simp
  have clean: "triple (held r) (?clean tx) (\<lambda>_. held r) (\<lambda>_. held r)" for tx
    by (intro triple_seq [of "held r" _ "\<lambda>_. held r"] triple_ignore_err drv sto)
  have body: "triple (held r) (seq (applyTar env tx ts pid k) (\<lambda>(sz, diffID).
      let layer = mkLayer env a p k desc sz diffID in seq (storeLayer env tx layer) (\<lambda>_. publishLayer env tx layer)))
      (\<lambda>_. held r) (\<lambda>_. held r)" for tx pid a
    unfolding Let_def
    by (rule triple_seq [OF applyTar_frame], simp, simp, rule triple_case_prod)
      (auto intro!: triple_seq [OF storeLayer_frame] publishLayer_keeps)
  show ?thesis
    unfolding registerBody_def Let_def
    by (intro triple_if triple_fail triple_seq [OF alloc_held] triple_seq [OF drv] triple_seq [OF sto]
        triple_defer_set [OF body [unfolded Let_def] clean clean])
      (auto simp: holding_def)
qed

lemma retainParent_held:
  "triple (holding r pend) (retainParent c) (\<lambda>p. holding r (retain_opt p pend)) (\<lambda>_. held r)"
proof -
  have "triple (held r) (retainParent c) (\<lambda>_. held r) (\<lambda>_. held r)"
    unfolding retainParent_def
    by (auto intro!: triple_if triple_ret triple_option triple_fail triple_seq [OF getWithoutLock_held])
  from triple_conj [OF retainParent_inv this] show ?thesis by (rule triple_weaken) (auto simp: holding_def)
qed

lemma registerWithDescriptor_keeps:
  "triple (holding r pend) (registerWithDescriptor env ts parent desc k) (\<lambda>_. held r) (\<lambda>_. held r)"
  unfolding registerWithDescriptor_def
proof (rule triple_seq [OF retainParent_held])
  fix p :: "roLayer option"
  have body: "triple (holding r (retain_opt p pend)) (registerBody env ts p desc k)
      (\<lambda>x s. ls_inv (if snd x then retain_opt p pend else pend) s \<and> held r s) (\<lambda>_. holding r (retain_opt p pend))"
    by (rule triple_weaken [OF triple_conj [OF registerBody_inv registerBody_keeps]]) (auto simp: holding_def)
  have rel: "triple (holding r (retain_opt p pend)) (releaseParent env p) (\<lambda>_. held r) (\<lambda>_. held r)"
    by (rule triple_weaken [OF releaseParent_held]) (auto simp: holding_def)
  have "triple (holding r (retain_opt p pend)) (defer_set (releaseParent env p) (registerBody env ts p desc k))
      (\<lambda>_. held r) (\<lambda>_. held r)"
    by (rule triple_defer_set [OF body rel]) (auto intro: triple_pre [OF rel] simp: holding_def)
  then show "triple (holding r (retain_opt p pend))
     (seq (defer_set (releaseParent env p) (registerBody env ts p desc k)) (\<lambda>(r, _). ret r)) (\<lambda>_. held r) (\<lambda>_. held r)"
    by (rule triple_seq) (auto intro: triple_ret split: prod.split)
qed

lemma held_mounts [simp]: "held r (s\<lparr>ls_mounts := m\<rparr>) = held r s" "held r (s\<lparr>ls_next := k\<rparr>) = held r s"
  by (simp_all add: held_def)

lemma ml_getReference_held: "triple (held r) (ml_getReference n m) (\<lambda>_. held r) E"
  by (auto simp: triple_def ml_getReference_def go_defs)

lemma createRWBody_held:
  "triple (held r) (createRWBody env name p label f opts k) (\<lambda>_. held r) (\<lambda>_. held r)"
proof -
  have drv: "triple (held r) (on_driver g) (\<lambda>_. held r) (\<lambda>_. held r)" for g by (rule on_driver_frame) simp
  have sto: "triple (held r) (on_store g) (\<lambda>_. held r) (\<lambda>_. held r)" for g by (rule on_store_frame) simp
  have init: "triple (held r) (initMount env k pid label g opts) (\<lambda>_. held r) (\<lambda>_. held r)" for pid g
    unfolding initMount_def Let_def
    by (intro triple_seq [of "held r" _ "\<lambda>_. held r"] triple_ignore_err on_driver_frame triple_option triple_ret triple_fail) simp_all
  have save: "triple (held r) (saveMount env m) (\<lambda>_. held r) (\<lambda>_. held r)" for m
    unfolding saveMount_def
    by (intro triple_seq [of "held r" _ "\<lambda>_. held r"] triple_if triple_option triple_ret sto triple_modify) simp_all
  show ?thesis
    unfolding createRWBody_def Let_def
    by (intro triple_seq [of "held r" _ "\<lambda>_. held r"] triple_case_prod triple_option triple_ret init drv save
        ml_getReference_held)
qed

lemma CreateRWLayer_held:
  "triple (holding r pend) (CreateRWLayer env name parent label f opts k) (\<lambda>_. held r) (\<lambda>_. held r)"
  unfolding CreateRWLayer_def
proof (rule triple_gets, rule triple_option)
  fix found :: "mountedLayer option" assume none: "found = None"
  let ?J = "\<lambda>p s. holding r (retain_opt p pend) s \<and> ls_mounts s name = None"
  have keep: "triple (\<lambda>s. holding r pend s \<and> ls_mounts s name = found) (retainParent parent) ?J (\<lambda>_. held r)"
    by (rule triple_weaken [OF triple_conj [OF retainParent_held retainParent_mounts [of "\<lambda>x. x name = None"]]])
      (auto simp: none)
  have body: "triple (?J p) (createRWBody env name p label f opts k) (\<lambda>_. held r) (\<lambda>_. holding r (retain_opt p pend))" for p
    by (rule triple_weaken [OF triple_conj [OF createRWBody_inv [where P = "?J p"] createRWBody_held]]) (auto simp: holding_def)
  have rel: "triple (holding r (retain_opt p pend)) (releaseParent env p) (\<lambda>_. held r) (\<lambda>_. held r)" for p
    by (rule triple_weaken [OF releaseParent_held]) (auto simp: holding_def)
  show "triple (\<lambda>s. holding r pend s \<and> ls_mounts s name = found)
     (seq (retainParent parent) (\<lambda>p. defer_err (releaseParent env p) (createRWBody env name p label f opts k)))
     (\<lambda>_. held r) (\<lambda>_. held r)"
    by (rule triple_seq [OF keep], rule triple_defer_err [OF body rel])
qed (auto intro: triple_fail simp: holding_def)

lemma releaseLayer_holding:
  "triple (holding r (retain l pend)) (releaseLayer env l) (\<lambda>_. held r) (\<lambda>_. held r)"
proof (rule triple_keepI)
  fix s :: "('a, 'b) layerStore"
  assume s: "holding r (retain l pend) s"
  then have "ls_layerMap s (ro_chainID l) = Some l" using inv_retained [of "retain l pend" s l] by (simp add: holding_def)
  then have "held r (snd (releaseLayer env l s))" using releaseLayer_held s unfolding holding_def by blast
  then show "\<not> is_Panic (fst (releaseLayer env l s)) \<and> held r (snd (releaseLayer env l s))"
    using s releaseLayer_inv [where l = l and pend = pend and env = env] by (fastforce simp: triple_def holding_def)
qed

lemma Release_held:
  assumes "ro_chainID (lr_layer y) \<noteq> ro_chainID (lr_layer r) \<or> lr_id y \<noteq> lr_id r"
  shows "triple (holding r pend) (Release env y) (\<lambda>_. held r) (\<lambda>_. held r)"
proof (rule triple_keepI)
  fix s :: "('a, 'b) layerStore"
  let ?c = "ro_chainID (lr_layer y)"
  assume s: "holding r pend s"
  show "\<not> is_Panic (fst (Release env y s)) \<and> held r (snd (Release env y s))"
  proof (cases "\<exists>l. ls_layerMap s ?c = Some l \<and> lr_id y \<in> ls_refs s (ro_addr l)")
    case True
    then obtain l where l: "ls_layerMap s ?c = Some l" "lr_id y \<in> ls_refs s (ro_addr l)" by blast
    let ?t = "deleteReference l y s"
    have inv: "ls_inv pend s" and r: "ls_layerMap s (ro_chainID (lr_layer r)) = Some (lr_layer r)"
      using s by (simp_all add: holding_def held_def)
    have "lr_id r \<noteq> lr_id y \<or> ro_addr (lr_layer r) \<noteq> ro_addr l"
      using inv_addr [OF inv r l(1)] inv_chainID [OF inv l(1)] assms by metis
    then have "held r ?t" using s by (auto simp: holding_def held_def deleteReference_def)
    moreover have "ls_inv (retain l pend) ?t"
      using ls_inv_deleteReference [of pend s ?c l "lr_id y"] l s by (simp add: deleteReference_def holding_def)
    ultimately have "triple (\<lambda>u. u = ?t) (releaseLayer env l) (\<lambda>_. held r) (\<lambda>_. held r)"
      by (intro triple_pre [OF releaseLayer_holding]) (simp add: holding_def)
    moreover have "Release env y s = releaseLayer env l ?t"
      using l by (simp add: Release_def go_defs hasReference_def)
    ultimately show ?thesis unfolding triple_def by auto
  next
    case False
    then show ?thesis using s by (auto simp: Release_def go_defs hasReference_def holding_def split: option.split)
  qed
qed

lemma ReleaseRWLayer_held:
  "triple (holding r pend) (ReleaseRWLayer env l) (\<lambda>_. held r) (\<lambda>_. held r)"
  unfolding ReleaseRWLayer_def
proof (rule triple_gets, rule triple_option)
  fix found :: "mountedLayer option" and m assume found: "found = Some m"
  let ?m = "m\<lparr>ml_references := ml_references m - {rw_id l}\<rparr>"
  let ?I = "\<lambda>s. holding r pend s \<and> ls_mounts s (ml_name m) = Some ?m \<and> ml_name m = rw_name l"
  let ?E = "\<lambda>_. held r"
  let ?rm = "seq (on_driver (drv_Remove env (ml_mountID m))) (\<lambda>_.
      seq (if ml_initID m \<noteq> '''' then on_driver (drv_Remove env (ml_initID m)) else ret ()) (\<lambda>_.
      on_store (md_RemoveMount env (ml_name m))))"
  have set: "triple (\<lambda>s. holding r pend s \<and> ls_mounts s (rw_name l) = found) (modify (setMount ?m)) (\<lambda>_. ?I) ?E"
  proof (rule triple_modify)
    fix s assume s: "holding r pend s \<and> ls_mounts s (rw_name l) = found"
    then have "ml_name m = rw_name l"
      using inv_mount [of pend s "rw_name l" m] found by (simp add: wf_mount_def holding_def)
    then show "?I (setMount ?m s)"
      using s found setMount_inv [of pend s "rw_name l" m ?m] by (simp add: setMount_def holding_def)
  qed
  have rm: "triple ?I (defer_err (modify (retakeReference l)) ?rm) (\<lambda>_. ?I) ?E"
  proof (rule triple_defer_err)
    show "triple ?I ?rm (\<lambda>_. ?I) (\<lambda>_. ?I)"
      by (intro triple_seq [of ?I _ "\<lambda>_. ?I"] triple_if triple_ret on_driver_frame on_store_frame) (auto simp: holding_def)
    show "triple ?I (modify (retakeReference l)) ?E ?E"
      by (rule triple_modify) (auto simp: retakeReference_def setMount_def holding_def)
  qed
  have drop: "triple ?I (modify (\<lambda>ls. ls\<lparr>ls_mounts := (ls_mounts ls)(ml_name m := None)\<rparr>))
      (\<lambda>_. holding r (retain_opt (ml_parent m) pend)) ?E"
    by (rule triple_modify) (use ls_inv_dropMount [of pend _ "ml_name m" ?m] in \<open>auto simp: holding_def\<close>)
  have last: "triple (holding r (retain_opt (ml_parent m) pend))
      (case ml_parent m of None \<Rightarrow> ret [] | Some p \<Rightarrow> releaseLayer env p) ?E ?E"
    by (rule triple_option) (auto simp: retain_opt_def holding_def [abs_def] intro!: triple_ret triple_pre [OF releaseLayer_holding])
  show "triple (\<lambda>s. holding r pend s \<and> ls_mounts s (rw_name l) = found)
     (if rw_id l \<notin> ml_references m then fail ErrLayerNotRetained else
      seq (modify (setMount ?m)) (\<lambda>_.
      if ml_references m - {rw_id l} \<noteq> {} then ret [] else
      seq (defer_err (modify (retakeReference l)) ?rm) (\<lambda>_.
      seq (modify (\<lambda>ls. ls\<lparr>ls_mounts := (ls_mounts ls)(ml_name m := None)\<rparr>)) (\<lambda>_.
      (case ml_parent m of None \<Rightarrow> ret [] | Some p \<Rightarrow> releaseLayer env p))))) ?E ?E"
    by (intro triple_if triple_fail triple_seq [OF set] triple_ret triple_seq [OF rm]
        triple_seq [OF drop] last) (auto simp: holding_def)
qed (auto intro: triple_ret simp: holding_def)

lemma GetRWLayer_held: "triple (held r) (GetRWLayer n) (\<lambda>_. held r) (\<lambda>_. held r)"
  unfolding GetRWLayer_def
  by (rule triple_gets, rule triple_option) (auto intro: triple_fail triple_pre [OF ml_getReference_held])

lemma GetMountID_held: "triple (held r) (GetMountID n) (\<lambda>_. held r) (\<lambda>_. held r)"
  unfolding GetMountID_def by (rule triple_gets) (auto intro!: triple_option triple_ret triple_fail)

fun releases :: "layerRef \<Rightarrow> lsOp \<Rightarrow> bool" where
  "releases r (OpRelease y) \<longleftrightarrow> ro_chainID (lr_layer y) = ro_chainID (lr_layer r) \<and> lr_id y = lr_id r"
| "releases r _ \<longleftrightarrow> False"

lemma lsStep_held:
  assumes "\<not> releases r op"
  shows "triple (holding r pend) (lsStep env op) (\<lambda>_. holding r pend) (\<lambda>_. holding r pend)"
proof -
  have "triple (holding r pend) (lsStep env op) (\<lambda>_. held r) (\<lambda>_. held r)"
    using assms by (cases op)
      (auto intro!: triple_ret triple_seq [OF registerWithDescriptor_keeps] triple_seq [OF triple_pre [OF Get_held]]
         triple_seq [OF Release_held] triple_seq [OF CreateRWLayer_held] triple_seq [OF triple_pre [OF GetRWLayer_held]]
         triple_seq [OF triple_pre [OF GetMountID_held]] triple_seq [OF ReleaseRWLayer_held] simp: holding_def)
  from triple_conj [OF lsStep_inv this] show ?thesis by (rule triple_weaken) (auto simp: holding_def)
qed

section \<open>The contract\<close>

text \<open>
  \<open>LayerGetReleaser\<close>: a reference that \<open>Get\<close> returns is new and is held; calls on other references
  do not take it away.
\<close>

locale layer_provider =
  fixes lget :: "string \<Rightarrow> ('l, 'e, layerRef) go" and lrelease :: "layerRef \<Rightarrow> ('l, 'e, 'm) go"
    and linv :: "'l \<Rightarrow> bool" and holds :: "layerRef \<Rightarrow> 'l \<Rightarrow> bool"
  assumes get_inv: "linv s \<Longrightarrow> lget c s = (r, t) \<Longrightarrow> linv t"
    and get_keeps: "linv s \<Longrightarrow> lget c s = (r, t) \<Longrightarrow> holds y s \<Longrightarrow> holds y t"
    and get_new: "linv s \<Longrightarrow> lget c s = (Ret x, t) \<Longrightarrow> holds x t \<and> \<not> holds x s"
    and get_chain: "linv s \<Longrightarrow> lget c s = (Ret x, t) \<Longrightarrow> ro_chainID (lr_layer x) = c"
    and release_inv: "linv s \<Longrightarrow> lrelease x s = (r', t) \<Longrightarrow> linv t"
    and release_keeps: "linv s \<Longrightarrow> holds x s \<Longrightarrow> lrelease x s = (r', t) \<Longrightarrow> holds y s \<Longrightarrow> y \<noteq> x \<Longrightarrow> holds y t"

lemma Get_new:
  assumes "ls_inv pend s" and "Get c s = (Ret x, t)"
  shows "held x t \<and> \<not> held x s \<and> ro_chainID (lr_layer x) = c"
proof -
  obtain l where l: "ls_layerMap s c = Some l"
    using assms(2) by (auto simp: Get_def getWithoutLock_def go_defs split: option.splits)
  have x: "x = LayerRef (ls_next s) l"
    using assms(2) l by (auto simp: Get_def getWithoutLock_def getReference_def go_defs)
  have "\<not> held x s" using inv_layer [OF assms(1) l] x by (auto simp: held_def wf_layer_def)
  moreover have "held x t" using assms(2) l inv_chainID [OF assms(1) l]
    by (auto simp: Get_def getWithoutLock_def getReference_def go_defs held_def)
  ultimately show ?thesis using x inv_chainID [OF assms(1) l] by simp
qed

interpretation layers: layer_provider Get "Release env" "ls_inv (\<lambda>_. 0)" held
proof (unfold_locales, goal_cases)
  case 1
  then show ?case using triple_any [OF Get_inv] by blast
next
  case 2
  then show ?case using triple_any [OF Get_held] by blast
next
  case 3
  then show ?case using Get_new by blast
next
  case 4
  then show ?case using Get_new by blast
next
  case 5
  then show ?case using triple_any [OF Release_inv] by blast
next
  case (6 s x r t y)
  then have "ro_chainID (lr_layer x) \<noteq> ro_chainID (lr_layer y) \<or> lr_id x \<noteq> lr_id y"
    by (cases x; cases y) (auto simp: held_def)
  from triple_any [OF Release_held [where pend = "\<lambda>_. 0", OF this]] 6 show ?case by (auto simp: holding_def)
qed

end
