(* ===== verification/AtomicFile.thy ===== *)
theory AtomicFile
  imports GoFS
begin

text \<open>
  Writing a file atomically, \<^verbatim>\<open>pkg/ioutils/fswriters.go\<close>: the data goes to a temporary file in the same
  directory, which is renamed over the target when it is closed.
\<close>

section \<open>The writer\<close>

text \<open>The writer is the path of its temporary file; \<open>filepath.Abs\<close> of an absolute path cannot fail.\<close>

definition NewAtomicFileWriter :: "path \<Rightarrow> path fsM" where
  "NewAtomicFileWriter filename = TempFile (butlast filename) (''.tmp-'' @ last filename)"

text \<open>\<open>Write\<close> of the open file; a failing one has written the beginning of the data.\<close>

definition atomicWrite :: "path \<Rightarrow> string \<Rightarrow> unit fsM" where
  "atomicWrite tmp dt = attempt (\<lambda>f. put tmp (File (take (flt_written f) dt))) (\<lambda>es. Inr ((), put tmp (File dt) es))"

text \<open>\<open>Close\<close> syncs, closes and renames; if anything has failed, also a write before, the temporary file is removed.\<close>

definition atomicCloseBody :: "path \<Rightarrow> path \<Rightarrow> bool \<Rightarrow> unit fsM" where
  "atomicCloseBody tmp fn writeErr =
     seq (defer_err touch touch) (\<lambda>_.
     seq touch (\<lambda>_.
     seq touch (\<lambda>_.
     if \<not> writeErr then Rename tmp fn else ret ())))"

definition atomicClose :: "path \<Rightarrow> path \<Rightarrow> bool \<Rightarrow> unit fsM" where
  "atomicClose tmp fn writeErr fs = (case atomicCloseBody tmp fn writeErr fs of
      (r, fs) \<Rightarrow> if writeErr \<or> r \<noteq> Ret () then (r, snd (Remove tmp fs)) else (r, fs))"

definition AtomicWriteFile :: "path \<Rightarrow> string \<Rightarrow> unit fsM" where
  "AtomicWriteFile filename dt =
     seq (NewAtomicFileWriter filename) (\<lambda>tmp fs.
     case atomicWrite tmp dt fs of
       (Ret _, fs) \<Rightarrow> atomicClose tmp filename False fs
     | (r, fs) \<Rightarrow> (r, snd (atomicClose tmp filename True fs)))"

section \<open>What it does to the tree\<close>

lemma within_defer_err [within_intros]:
  assumes "within X m" and "within X c"
  shows "within X (defer_err c m)"
  unfolding within_def
proof (intro allI impI)
  fix fs r fs' assume a: "defer_err c m fs = (r, fs')"
  obtain r1 fs1 where 1: "m fs = (r1, fs1)" by (metis surj_pair)
  obtain r2 fs2 where 2: "c fs1 = (r2, fs2)" by (metis surj_pair)
  have "fs' = fs1 \<or> fs' = fs2" using a 1 2 by (auto simp: defer_err_def split: outcome.splits)
  then show "(\<forall>q. \<not> prefix X q \<longrightarrow> look (fs_entries fs') q = look (fs_entries fs) q) \<and>
      fs_unreadable fs' = fs_unreadable fs \<and> fs_random fs' = fs_random fs"
    using withinD [OF assms(1) 1] withinD [OF assms(2) 2] by auto
qed

lemma within_atomicWrite [within_intros]: "within tmp (atomicWrite tmp dt)"
  unfolding atomicWrite_def by (rule within_attempt) auto

lemma attempt_not_Panic: "attempt partly act fs \<noteq> (Panic m, fs')"
  using attempt_rest(3) by blast

text \<open>A call that leaves the tree as it is.\<close>

definition same_tree :: "filesys \<Rightarrow> filesys \<Rightarrow> bool" where
  "same_tree fs fs' \<longleftrightarrow> fs_entries fs' = fs_entries fs \<and> fs_unreadable fs' = fs_unreadable fs \<and> fs_random fs' = fs_random fs"

definition calm :: "'a fsM \<Rightarrow> bool" where
  "calm m \<longleftrightarrow> (\<forall>fs r fs'. m fs = (r, fs') \<longrightarrow> same_tree fs fs' \<and> (\<nexists>p. r = Panic p))"

lemma calmD: "calm m \<Longrightarrow> m fs = (r, fs') \<Longrightarrow> same_tree fs fs' \<and> (\<nexists>p. r = Panic p)"
  by (simp add: calm_def)

lemma calm_touch: "calm touch"
  unfolding calm_def
proof (intro allI impI)
  fix fs and r :: "(os_err, unit) outcome" and fs' assume a: "touch fs = (r, fs')"
  note a' = a [unfolded touch_def]
  from a' have "fs_entries fs' = fs_entries fs" by (cases rule: attempt_cases) (auto simp: nothing_def)
  then show "same_tree fs fs' \<and> (\<nexists>p. r = Panic p)" using attempt_rest [OF a'] by (simp add: same_tree_def)
qed

lemma calm_seq:
  assumes "calm m" and "\<And>x. calm (f x)"
  shows "calm (seq m f)"
  unfolding calm_def
proof (intro allI impI)
  fix fs r fs' assume a: "seq m f fs = (r, fs')"
  obtain r1 fs1 where 1: "m fs = (r1, fs1)" by (metis surj_pair)
  show "same_tree fs fs' \<and> (\<nexists>p. r = Panic p)"
  proof (cases r1)
    case (Ret x)
    then have "f x fs1 = (r, fs')" using a 1 by (simp add: seq_def)
    from calmD [OF assms(2) this] calmD [OF assms(1) 1] show ?thesis by (simp add: same_tree_def)
  qed (use a 1 calmD [OF assms(1) 1] in \<open>auto simp: seq_def\<close>)
qed

lemma calm_sync: "calm (defer_err touch touch)"
  unfolding calm_def
proof (intro allI impI)
  fix fs and r :: "(os_err, unit) outcome" and fs' assume a: "defer_err touch touch fs = (r, fs')"
  obtain r1 fs1 where 1: "touch fs = (r1, fs1)" by (metis surj_pair)
  obtain r2 fs2 where 2: "touch fs1 = (r2, fs2)" by (metis surj_pair)
  have "(fs' = fs1 \<or> fs' = fs2) \<and> (\<nexists>p. r = Panic p)"
    using a 1 2 calmD [OF calm_touch 1] calmD [OF calm_touch 2] by (auto simp: defer_err_def split: outcome.splits)
  then show "same_tree fs fs' \<and> (\<nexists>p. r = Panic p)"
    using calmD [OF calm_touch 1] calmD [OF calm_touch 2] by (auto simp: same_tree_def)
qed

lemma Rename_cases:
  assumes "Rename old new fs = (r, fs')"
  shows "\<nexists>p. r = Panic p" and "r \<noteq> Ret () \<Longrightarrow> same_tree fs fs'"
proof -
  note a = assms [unfolded Rename_def]
  show "\<nexists>p. r = Panic p" using attempt_rest(3) [OF a] .
  from a show "r \<noteq> Ret () \<Longrightarrow> same_tree fs fs'"
    using attempt_rest [OF a] by (cases rule: attempt_cases) (auto simp: nothing_def same_tree_def)
qed

text \<open>The body of \<open>Close\<close> renames the temporary file as its last step, or leaves the tree as it is.\<close>

lemma atomicCloseBody_cases:
  assumes "atomicCloseBody tmp fn w fs = (r, fs')"
  obtains (same) "same_tree fs fs'" and "\<nexists>m. r = Panic m" and "w \<or> r \<noteq> Ret ()"
  | (renamed) fs1 where "\<not> w" and "r = Ret ()" and "same_tree fs fs1" and "Rename tmp fn fs1 = (Ret (), fs')"
proof -
  let ?c = "seq (defer_err touch touch) (\<lambda>_. seq touch (\<lambda>_. touch))"
  have c: "calm ?c" by (intro calm_seq calm_sync calm_touch)
  have body: "atomicCloseBody tmp fn w = seq ?c (\<lambda>_. if \<not> w then Rename tmp fn else ret ())"
    by (simp add: atomicCloseBody_def seq_assoc)
  obtain r1 fs1 where 1: "?c fs = (r1, fs1)" by (metis surj_pair)
  note d = calmD [OF c 1]
  show thesis
  proof (cases r1)
    case (Ret x)
    with assms 1 have 2: "(if \<not> w then Rename tmp fn else ret ()) fs1 = (r, fs')" by (simp add: body seq_def)
    show thesis
    proof (cases "w \<or> r \<noteq> Ret ()")
      case True
      then have "same_tree fs1 fs' \<and> (\<nexists>m. r = Panic m)" using 2 Rename_cases [of tmp fn fs1 r fs']
        by (auto simp: ret_def same_tree_def split: if_splits)
      then show thesis using True d by (intro same) (auto simp: same_tree_def)
    qed (use 2 d renamed in auto)
  qed (use assms 1 d same in \<open>auto simp: body seq_def\<close>)
qed

lemma Remove_within: "Remove p fs = (r, fs') \<Longrightarrow> \<not> prefix p q \<Longrightarrow> look (fs_entries fs') q = look (fs_entries fs) q"
  using withinD(1) [OF within_Remove] by blast

text \<open>
  Everything but the target and names of temporary files is as before; the target has the new
  content if the call succeeded and its old content otherwise.
\<close>

lemma atomicClose_spec:
  assumes "atomicClose tmp fn w fs = (r, fs')" and ok: "fs_ok fs" and tmp: "look (fs_entries fs) tmp = Some (File dt)"
    and np: "\<not> prefix tmp fn" "\<not> prefix fn tmp"
  shows "r = Ret () \<Longrightarrow> \<not> w \<Longrightarrow> look (fs_entries fs') fn = Some (File dt)"
    and "r \<noteq> Ret () \<or> w \<Longrightarrow> look (fs_entries fs') fn = look (fs_entries fs) fn"
    and "q \<noteq> fn \<Longrightarrow> \<not> prefix tmp q \<Longrightarrow> look (fs_entries fs') q = look (fs_entries fs) q"
    and "\<nexists>m. r = Panic m" and "fs_unreadable fs' = fs_unreadable fs" and "fs_ok fs'"
proof -
  obtain fs1 where 1: "atomicCloseBody tmp fn w fs = (r, fs1)" "fs' = (if w \<or> r \<noteq> Ret () then snd (Remove tmp fs1) else fs1)"
    using assms(1) by (auto simp: atomicClose_def split: prod.splits if_splits)
  have tne: "tmp \<noteq> []" using np(1) by auto
  from 1(1) have all: "(r = Ret () \<longrightarrow> \<not> w \<longrightarrow> look (fs_entries fs') fn = Some (File dt)) \<and>
    (r \<noteq> Ret () \<or> w \<longrightarrow> look (fs_entries fs') fn = look (fs_entries fs) fn) \<and>
    (\<forall>q. q \<noteq> fn \<longrightarrow> \<not> prefix tmp q \<longrightarrow> look (fs_entries fs') q = look (fs_entries fs) q) \<and>
    (\<nexists>m. r = Panic m) \<and> fs_unreadable fs' = fs_unreadable fs \<and> fs_ok fs'"
  proof (cases rule: atomicCloseBody_cases)
    case same
    obtain r2 fs2 where rm: "Remove tmp fs1 = (r2, fs2)" by (metis surj_pair)
    have fs': "fs' = fs2" using 1(2) same(3) rm by auto
    have "fs_ok fs1" using same(1) ok by (simp add: same_tree_def fs_ok_def)
    then have "fs_ok fs2" using ensD [OF ens_Remove [OF tne] _ rm] by blast
    then show ?thesis using same withinD [OF within_Remove [OF prefix_order.refl] rm] np fs' by (auto simp: same_tree_def)
  next
    case (renamed fs3)
    have ok3: "fs_ok fs3" "look (fs_entries fs3) tmp = Some (File dt)" "fs_entries fs3 = fs_entries fs"
      using renamed(3) ok tmp by (auto simp: same_tree_def fs_ok_def)
    have mv: "fs_entries fs1 = move tmp fn (fs_entries fs3)" "fs_unreadable fs1 = fs_unreadable fs3" "fs_ok fs1"
      using Rename_Ret [OF renamed(4) np(2)] np(1) ensD [OF ens_Rename ok3(1) renamed(4)] by auto
    note lk = look_move [OF np(2,1), of "fs_entries fs3"]
    have "look (fs_entries fs3) fn \<noteq> Some Dir" using Rename_file [OF renamed(4) ok3(2)] np(1) by auto
    then have none: "look (fs_entries fs3) (tmp @ q) = None" and below: "look (fs_entries fs3) (fn @ q) = None" if "q \<noteq> []" for q
      using look_below [OF _ _ that, of "fs_entries fs3"] ok3(1,2) by (simp_all add: fs_ok_def)
    have "look (fs_entries fs1) fn = Some (File dt)" using ok3(2) by (simp add: mv(1) lk)
    moreover have "look (fs_entries fs1) q = look (fs_entries fs) q" if qn: "q \<noteq> fn" "\<not> prefix tmp q" for q
    proof (cases "prefix fn q")
      case True
      then obtain q' where "q = fn @ q'" "q' \<noteq> []" using qn(1) by (auto simp: prefix_def)
      then show ?thesis unfolding mv(1) lk using none below ok3(3) by simp
    next
      case False
      then show ?thesis unfolding mv(1) lk using qn ok3(3) by simp
    qed
    moreover have "fs_unreadable fs1 = fs_unreadable fs" using mv(2) renamed(3) by (simp add: same_tree_def)
    ultimately show ?thesis using 1(2) renamed mv(3) by auto
  qed
  then show "r = Ret () \<Longrightarrow> \<not> w \<Longrightarrow> look (fs_entries fs') fn = Some (File dt)"
    "r \<noteq> Ret () \<or> w \<Longrightarrow> look (fs_entries fs') fn = look (fs_entries fs) fn"
    "q \<noteq> fn \<Longrightarrow> \<not> prefix tmp q \<Longrightarrow> look (fs_entries fs') q = look (fs_entries fs) q"
    "\<nexists>m. r = Panic m" "fs_unreadable fs' = fs_unreadable fs" "fs_ok fs'" by blast+
qed


lemma plain_tmp: "plain n \<Longrightarrow> plain (''.tmp-'' @ n)"
  by (auto simp: plain_def)

lemma atomicWrite_spec:
  assumes "atomicWrite tmp dt fs = (r, fs')" and "fs_ok fs" and "look (fs_entries fs) tmp = Some (File s)" and "tmp \<noteq> []"
  shows "fs_ok fs'" and "\<exists>s'. look (fs_entries fs') tmp = Some (File s') \<and> (r = Ret () \<longrightarrow> s' = dt)"
    and "q \<noteq> tmp \<Longrightarrow> look (fs_entries fs') q = look (fs_entries fs) q" and "\<nexists>m. r = Panic m" and "fs_unreadable fs' = fs_unreadable fs"
proof -
  note a = assms(1) [unfolded atomicWrite_def]
  note rest = attempt_rest [OF a]
  have "look (fs_entries fs) (butlast tmp) = Some Dir"
    using wf_treeD(3) [of "fs_entries fs" "butlast tmp" "last tmp"] assms(2-4) by (simp add: fs_ok_def)
  then have wf: "wf_tree (put tmp (File s') (fs_entries fs))" for s' using wf_put [of "fs_entries fs" tmp "File s'"] assms(2-4) by (simp add: fs_ok_def)
  from a have "\<exists>s'. fs_entries fs' = put tmp (File s') (fs_entries fs) \<and> (r = Ret () \<longrightarrow> s' = dt)"
    by (cases rule: attempt_cases) auto
  then obtain s' where s': "fs_entries fs' = put tmp (File s') (fs_entries fs)" "r = Ret () \<longrightarrow> s' = dt" by blast
  then show "fs_ok fs'" "\<exists>s'. look (fs_entries fs') tmp = Some (File s') \<and> (r = Ret () \<longrightarrow> s' = dt)"
    "q \<noteq> tmp \<Longrightarrow> look (fs_entries fs') q = look (fs_entries fs) q" "\<nexists>m. r = Panic m" "fs_unreadable fs' = fs_unreadable fs"
    using wf rest assms(2) by (auto simp: fs_ok_def)
qed

lemma AtomicWriteFile_spec:
  assumes "AtomicWriteFile p dt fs = (r, fs')" and ok: "fs_ok fs" and ne: "p \<noteq> []" and pl: "plain (last p)"
  shows "look (fs_entries fs') p = (if r = Ret () then Some (File dt) else look (fs_entries fs) p)"
    and "q \<noteq> p \<Longrightarrow> (\<And>ds. \<not> prefix (butlast p @ [''.tmp-'' @ last p @ ds]) q) \<Longrightarrow> look (fs_entries fs') q = look (fs_entries fs) q"
    and "\<nexists>m. r = Panic m" and "fs_unreadable fs' = fs_unreadable fs" and "fs_ok fs'"
proof -
  have all: "look (fs_entries fs') p = (if r = Ret () then Some (File dt) else look (fs_entries fs) p) \<and>
      (\<forall>q. q \<noteq> p \<longrightarrow> (\<forall>ds. \<not> prefix (butlast p @ [''.tmp-'' @ last p @ ds]) q) \<longrightarrow> look (fs_entries fs') q = look (fs_entries fs) q) \<and>
      (\<nexists>m. r = Panic m) \<and> fs_unreadable fs' = fs_unreadable fs \<and> fs_ok fs'"
  proof -
    obtain r1 fs1 where 1: "newNode (File '''') (butlast p) (''.tmp-'' @ last p) fs = (r1, fs1)" by (metis surj_pair)
    note a = 1 [unfolded newNode_def]
    have ok1: "fs_ok fs1" using ensD [OF ens_newNode [OF plain_tmp [OF pl]] ok 1] by simp
    show ?thesis
    proof (cases r1)
      case (Ret tmp)
      note n = newNode_spec [OF ok plain_tmp [OF pl] 1 [unfolded Ret]]
      obtain ds where ds: "tmp = butlast p @ [''.tmp-'' @ last p @ ds]" using n(1) by auto
      have "length (last tmp) = length (last p) + length ds + 5" using ds by simp
      then have "tmp \<noteq> p" by auto
      moreover have "length tmp = length p" using ds ne by simp
      ultimately have np: "\<not> prefix tmp p" "\<not> prefix p tmp" by (auto simp: prefix_def)
      obtain r2 fs2 where 2: "atomicWrite tmp dt fs1 = (r2, fs2)" by (metis surj_pair)
      have t1: "look (fs_entries fs1) tmp = Some (File '''')" using n(2) [of "[]"] by simp
      note w = atomicWrite_spec [OF 2 ok1 t1]
      have tne: "tmp \<noteq> []" using ds by simp
      obtain s' where s': "look (fs_entries fs2) tmp = Some (File s')" "r2 = Ret () \<longrightarrow> s' = dt" using w(2) tne by blast
      obtain r3 fs3 where 3: "atomicClose tmp p (r2 \<noteq> Ret ()) fs2 = (r3, fs3)" by (metis surj_pair)
      note c = atomicClose_spec [OF 3 w(1) [OF tne] s'(1) np]
      have res: "fs' = fs3" "r = (if r2 = Ret () then r3 else r2)"
        using assms(1) 1 Ret 2 3 by (auto simp: AtomicWriteFile_def NewAtomicFileWriter_def TempFile_def seq_def split: outcome.splits)
      have lp: "look (fs_entries fs2) p = look (fs_entries fs) p" using w(3) [OF tne, of p] n(3) [of p] np by auto
      have "look (fs_entries fs3) q = look (fs_entries fs) q" if "q \<noteq> p" "\<not> prefix tmp q" for q
        using c(3) [OF that] w(3) [OF tne, of q] n(3) [of q] that(2) by auto
      then show ?thesis using c(1,2,4-6) w(4,5) [OF tne] s'(2) lp n(4) ds unfolding res by auto
    next
      case (Fail e)
      have "fs_entries fs1 = fs_entries fs" using a Fail by (cases rule: attempt_cases) (auto simp: nothing_def)
      moreover have "r = Fail e" "fs' = fs1"
        using assms(1) 1 Fail by (auto simp: AtomicWriteFile_def NewAtomicFileWriter_def TempFile_def seq_def)
      ultimately show ?thesis using attempt_rest [OF a] ok1 by auto
    next
      case (Panic m)
      then show ?thesis using attempt_rest(3) [OF a] by blast
    qed
  qed
  then show "look (fs_entries fs') p = (if r = Ret () then Some (File dt) else look (fs_entries fs) p)"
    "q \<noteq> p \<Longrightarrow> (\<And>ds. \<not> prefix (butlast p @ [''.tmp-'' @ last p @ ds]) q) \<Longrightarrow> look (fs_entries fs') q = look (fs_entries fs) q"
    "\<nexists>m. r = Panic m" "fs_unreadable fs' = fs_unreadable fs" "fs_ok fs'" by blast+
qed

end
