(* ===== verification/ImageFS.thy ===== *)
theory ImageFS
  imports AtomicFile DigestPath
begin

text \<open>
  The files of the image store, \<^verbatim>\<open>image/fs.go\<close>: the configuration of an image under its digest, and small
  metadata files beside it. The digest function is a parameter.
\<close>

section \<open>Operations\<close>

definition contentDirName :: string where "contentDirName = ''content''"
definition metadataDirName :: string where "metadataDirName = ''metadata''"
definition Canonical :: string where "Canonical = ''sha256''"

definition newFSStore :: "path \<Rightarrow> path fsM" where
  "newFSStore root =
     seq (MkdirAll (Join root [contentDirName, Canonical])) (\<lambda>_.
     seq (MkdirAll (Join root [metadataDirName, Canonical])) (\<lambda>_.
     ret root))"

definition digestPath :: "path \<Rightarrow> string \<Rightarrow> string \<Rightarrow> path fsM" where
  "digestPath root dir imgID = (case (Algorithm imgID, Hex imgID) of
      (Some a, Some h) \<Rightarrow> ret (Join root [dir, a, h])
    | _ \<Rightarrow> gopanic ''could not find ':' in digest'')"

definition contentFile :: "path \<Rightarrow> string \<Rightarrow> path fsM" where
  "contentFile root imgID = digestPath root contentDirName imgID"

definition metadataDir :: "path \<Rightarrow> string \<Rightarrow> path fsM" where
  "metadataDir root imgID = digestPath root metadataDirName imgID"

text \<open>The identifiers that \<open>Walk\<close> calls its function for.\<close>

definition WalkIDs :: "path \<Rightarrow> string list fsM" where
  "WalkIDs root =
     seq (ReadDir (Join root [contentDirName, Canonical])) (\<lambda>dir.
     ret (filter (\<lambda>d. Validate d = None) (map (\<lambda>(name, _). NewDigestFromHex Canonical name) dir)))"

definition fsGet :: "(string \<Rightarrow> string) \<Rightarrow> path \<Rightarrow> string \<Rightarrow> string fsM" where
  "fsGet h root imgID =
     seq (contentFile root imgID) (\<lambda>f.
     seq (ReadFile f) (\<lambda>content.
     if h content \<noteq> imgID then fail (ErrMsg ''failed to verify image'') else ret content))"

definition fsSet :: "(string \<Rightarrow> string) \<Rightarrow> path \<Rightarrow> string \<Rightarrow> string fsM" where
  "fsSet h root dt =
     (if length dt = 0 then fail (ErrMsg ''Invalid empty data'') else
      seq (contentFile root (h dt)) (\<lambda>f.
      seq (AtomicWriteFile f dt) (\<lambda>_.
      ret (h dt))))"

definition fsDelete :: "path \<Rightarrow> string \<Rightarrow> unit fsM" where
  "fsDelete root imgID =
     seq (metadataDir root imgID) (\<lambda>d.
     seq (RemoveAll d) (\<lambda>_.
     seq (contentFile root imgID) (\<lambda>f.
     Remove f)))"

definition fsSetMetadata :: "(string \<Rightarrow> string) \<Rightarrow> path \<Rightarrow> string \<Rightarrow> string \<Rightarrow> string \<Rightarrow> unit fsM" where
  "fsSetMetadata h root imgID key dt =
     seq (fsGet h root imgID) (\<lambda>_.
     seq (metadataDir root imgID) (\<lambda>baseDir.
     seq (MkdirAll baseDir) (\<lambda>_.
     AtomicWriteFile (Join baseDir [key]) dt)))"

definition fsGetMetadata :: "(string \<Rightarrow> string) \<Rightarrow> path \<Rightarrow> string \<Rightarrow> string \<Rightarrow> string fsM" where
  "fsGetMetadata h root imgID key =
     seq (fsGet h root imgID) (\<lambda>_.
     seq (metadataDir root imgID) (\<lambda>d.
     ReadFile (Join d [key])))"

definition fsDeleteMetadata :: "path \<Rightarrow> string \<Rightarrow> string \<Rightarrow> unit fsM" where
  "fsDeleteMetadata root imgID key = seq (metadataDir root imgID) (\<lambda>d. RemoveAll (Join d [key]))"

section \<open>The abstract store\<close>

text \<open>
  What a reader sees: the verified content of an image and its metadata. \<open>good_key\<close> excludes names
  that start with a dot, which temporary files use.
\<close>

definition good_key :: "string \<Rightarrow> bool" where
  "good_key k \<longleftrightarrow> plain k \<and> hd k \<noteq> CHR ''.''"

definition contentAt :: "path \<Rightarrow> string \<Rightarrow> path" where
  "contentAt root imgID = root @ [contentDirName, before_sep imgID, after_sep imgID]"

definition metaAt :: "path \<Rightarrow> string \<Rightarrow> path" where
  "metaAt root imgID = root @ [metadataDirName, before_sep imgID, after_sep imgID]"

definition fileAt :: "entries \<Rightarrow> path \<Rightarrow> string option" where
  "fileAt es p = (case look es p of Some (File s) \<Rightarrow> Some s | _ \<Rightarrow> None)"

type_synonym imageView = "(string \<rightharpoonup> string) \<times> (string \<Rightarrow> string \<rightharpoonup> string)"

definition imageViewOf :: "(string \<Rightarrow> string) \<Rightarrow> path \<Rightarrow> filesys \<Rightarrow> imageView" where
  "imageViewOf h root fs =
     (\<lambda>imgID. if Validate imgID = None then Option.bind (fileAt (fs_entries fs) (contentAt root imgID)) (\<lambda>s. if h s = imgID then Some s else None) else None,
      \<lambda>imgID k. if Validate imgID = None \<and> good_key k then fileAt (fs_entries fs) (metaAt root imgID @ [k]) else None)"

datatype imageOp = ISet string | IDelete string | ISetMeta string string string | IDelMeta string string

fun absImage :: "(string \<Rightarrow> string) \<Rightarrow> imageOp \<Rightarrow> imageView \<Rightarrow> imageView" where
  "absImage h (ISet dt) (C, M) = (C(h dt \<mapsto> dt), M)"
| "absImage h (IDelete imgID) (C, M) = (C(imgID := None), M(imgID := Map.empty))"
| "absImage h (ISetMeta imgID k dt) (C, M) = (C, M(imgID := (M imgID)(k \<mapsto> dt)))"
| "absImage h (IDelMeta imgID k) (C, M) = (C, M(imgID := (M imgID)(k := None)))"

fun runImage :: "(string \<Rightarrow> string) \<Rightarrow> path \<Rightarrow> imageOp \<Rightarrow> unit fsM" where
  "runImage h root (ISet dt) = seq (fsSet h root dt) (\<lambda>_. ret ())"
| "runImage h root (IDelete imgID) = fsDelete root imgID"
| "runImage h root (ISetMeta imgID k dt) = fsSetMetadata h root imgID k dt"
| "runImage h root (IDelMeta imgID k) = fsDeleteMetadata root imgID k"

fun goodOp :: "imageOp \<Rightarrow> bool" where
  "goodOp (ISet dt) = True"
| "goodOp (IDelete imgID) = (Validate imgID = None)"
| "goodOp (ISetMeta imgID k dt) = (Validate imgID = None \<and> good_key k)"
| "goodOp (IDelMeta imgID k) = (Validate imgID = None \<and> good_key k)"

lemma plain_dirs [simp]: "plain contentDirName" "plain metadataDirName" "plain Canonical"
  by (simp_all add: contentDirName_def metadataDirName_def Canonical_def plain_def)

lemma dirs_differ [simp]: "contentDirName \<noteq> metadataDirName" "metadataDirName \<noteq> contentDirName"
  by (simp_all add: contentDirName_def metadataDirName_def)

lemma paths_valid:
  assumes "Validate imgID = None"
  shows "contentFile root imgID = ret (contentAt root imgID)" and "metadataDir root imgID = ret (metaAt root imgID)"
  using valid_parts [OF assms] by (simp_all add: contentFile_def metadataDir_def digestPath_def contentAt_def metaAt_def Join_plain)

lemma valid_same: "Validate a = None \<Longrightarrow> Validate b = None \<Longrightarrow> before_sep a = before_sep b \<Longrightarrow> after_sep a = after_sep b \<Longrightarrow> a = b"
  using valid_parts(6) [of a] valid_parts(6) [of b] by metis

lemma hex_not_dot: "Validate imgID = None \<Longrightarrow> hd (after_sep imgID) \<noteq> CHR ''.''"
proof -
  assume "Validate imgID = None"
  then have "list_all hex_char (after_sep imgID)" "after_sep imgID \<noteq> []" by (auto simp: Validate_None digestRegexpAnchored_def)
  then have "hex_char (hd (after_sep imgID))" by (cases "after_sep imgID") auto
  then show ?thesis by (auto simp: hex_char_def in_range_def is_digit_def less_eq_char_def)
qed

text \<open>The view depends only on the two kinds of files.\<close>

lemma imageView_eqI:
  assumes "\<And>i. Validate i = None \<Longrightarrow> look (fs_entries fs') (contentAt root i) = look (fs_entries fs) (contentAt root i)"
    and "\<And>i k. Validate i = None \<Longrightarrow> good_key k \<Longrightarrow> look (fs_entries fs') (metaAt root i @ [k]) = look (fs_entries fs) (metaAt root i @ [k])"
  shows "imageViewOf h root fs' = imageViewOf h root fs"
  using assms by (auto simp: imageViewOf_def fileAt_def fun_eq_iff)

text \<open>Which of the two kinds of files an operation can touch.\<close>

lemma tmp_apart_content:
  assumes "Validate i = None"
  shows "\<not> prefix (butlast (contentAt root j) @ [''.tmp-'' @ x]) (contentAt root i)"
    and "\<not> prefix (metaAt root j @ [''.tmp-'' @ x]) (contentAt root i)"
  using hex_not_dot [OF assms] by (auto simp: contentAt_def metaAt_def butlast_append prefix_def)

lemma tmp_apart_meta:
  assumes "good_key k"
  shows "\<not> prefix (butlast (contentAt root j) @ [''.tmp-'' @ x]) (metaAt root i @ [k])"
    and "\<not> prefix (metaAt root j @ [''.tmp-'' @ x]) (metaAt root i @ [k])"
  using assms by (auto simp: contentAt_def metaAt_def good_key_def butlast_append prefix_def)

lemma paths_apart:
  assumes "Validate i = None" and "Validate j = None"
  shows "contentAt root i = contentAt root j \<longleftrightarrow> i = j" and "\<not> prefix (metaAt root j) (contentAt root i)"
    and "\<not> prefix (contentAt root j) (metaAt root i @ q)" and "prefix (metaAt root j) (metaAt root i @ q) \<longleftrightarrow> i = j"
    and "contentAt root i \<noteq> metaAt root j @ q" and "metaAt root i @ [k] = metaAt root j @ [k'] \<longleftrightarrow> i = j \<and> k = k'"
  using valid_same [OF assms] by (auto simp: contentAt_def metaAt_def)

lemma plain_last:
  "Validate i = None \<Longrightarrow> plain (last (contentAt root i))" "contentAt root i \<noteq> []" "metaAt root i \<noteq> []"
  using valid_parts(4) [of i] by (simp_all add: contentAt_def metaAt_def)


section \<open>Every operation, with every failure\<close>

lemma fsGet_pure: "Validate i = None \<Longrightarrow> snd (fsGet h root i fs) = fs"
  by (simp add: fsGet_def paths_valid seq_def ReadFile_def ret_def fail_def split: option.split node.split)

lemma ISet_step:
  assumes "runImage h root (ISet dt) fs = (r, fs')" and ok: "fs_ok fs" and v: "Validate (h dt) = None"
  shows "fs_ok fs'" and "r = Ret () \<Longrightarrow> imageViewOf h root fs' = absImage h (ISet dt) (imageViewOf h root fs)"
    and "r \<noteq> Ret () \<Longrightarrow> imageViewOf h root fs' = imageViewOf h root fs"
proof (atomize (full), cases "dt = ''''")
  case True
  then have "r \<noteq> Ret ()" "fs' = fs" using assms(1) by (auto simp: fsSet_def seq_def fail_def)
  then show "fs_ok fs' \<and> (r = Ret () \<longrightarrow> imageViewOf h root fs' = absImage h (ISet dt) (imageViewOf h root fs)) \<and>
      (r \<noteq> Ret () \<longrightarrow> imageViewOf h root fs' = imageViewOf h root fs)" using ok by simp
next
  case False
  then have w: "AtomicWriteFile (contentAt root (h dt)) dt fs = (r, fs')"
    using assms(1) by (auto simp: fsSet_def paths_valid [OF v] seq_def ret_def split: prod.splits outcome.splits)
  note a = AtomicWriteFile_spec [OF w ok plain_last(2) plain_last(1) [OF v]]
  have c: "look (fs_entries fs') (contentAt root i) =
      (if i = h dt \<and> r = Ret () then Some (File dt) else look (fs_entries fs) (contentAt root i))" if "Validate i = None" for i
  proof (cases "i = h dt")
    case False
    then have "contentAt root i \<noteq> contentAt root (h dt)" using paths_apart(1) [OF that v] by blast
    then have "look (fs_entries fs') (contentAt root i) = look (fs_entries fs) (contentAt root i)"
      using tmp_apart_content(1) [OF that] by (intro a(2))
    then show ?thesis using False by simp
  qed (use a(1) in auto)
  have mt: "look (fs_entries fs') (metaAt root i @ [k]) = look (fs_entries fs) (metaAt root i @ [k])"
    if "Validate i = None" "good_key k" for i k
  proof (rule a(2))
    show "metaAt root i @ [k] \<noteq> contentAt root (h dt)" using paths_apart(5) [OF v that(1)] by metis
  qed (use tmp_apart_meta(1) [OF that(2)] in simp)
  have "imageViewOf h root fs' = absImage h (ISet dt) (imageViewOf h root fs)" if "r = Ret ()"
    using c mt that v by (auto simp: imageViewOf_def fileAt_def fun_eq_iff)
  moreover have "imageViewOf h root fs' = imageViewOf h root fs" if "r \<noteq> Ret ()"
    by (rule imageView_eqI) (use c mt that in auto)
  ultimately show "fs_ok fs' \<and> (r = Ret () \<longrightarrow> imageViewOf h root fs' = absImage h (ISet dt) (imageViewOf h root fs)) \<and>
      (r \<noteq> Ret () \<longrightarrow> imageViewOf h root fs' = imageViewOf h root fs)" using a(5) by blast
qed

lemma ISetMeta_step:
  assumes "runImage h root (ISetMeta i k dt) fs = (r, fs')" and ok: "fs_ok fs" and good: "goodOp (ISetMeta i k dt)"
  shows "fs_ok fs'" and "r = Ret () \<Longrightarrow> imageViewOf h root fs' = absImage h (ISetMeta i k dt) (imageViewOf h root fs)"
    and "r \<noteq> Ret () \<Longrightarrow> imageViewOf h root fs' = imageViewOf h root fs"
proof -
  have v: "Validate i = None" and k: "plain k" "good_key k" using good by (auto simp: good_key_def)
  obtain r0 where g: "fsGet h root i fs = (r0, fs)" using fsGet_pure [OF v, of h root fs] by (metis prod.collapse)
  obtain r1 fs1 where mk: "MkdirAll (metaAt root i) fs = (r1, fs1)" by (metis surj_pair)
  have ok1: "fs_ok fs1" using ensD [OF ens_MkdirAll ok mk] by simp
  have same1: "look (fs_entries fs1) (contentAt root j) = look (fs_entries fs) (contentAt root j)"
    "good_key k' \<Longrightarrow> look (fs_entries fs1) (metaAt root j @ [k']) = look (fs_entries fs) (metaAt root j @ [k'])"
    if "Validate j = None" for j k'
  proof -
    have "\<not> prefix (contentAt root j) (metaAt root i)" "\<not> prefix (metaAt root j @ [k']) (metaAt root i)"
      using paths_apart(3) [OF v that, of root "[]"] by (auto simp: metaAt_def dest: prefix_length_le)
    then show "look (fs_entries fs1) (contentAt root j) = look (fs_entries fs) (contentAt root j)"
      "good_key k' \<Longrightarrow> look (fs_entries fs1) (metaAt root j @ [k']) = look (fs_entries fs) (metaAt root j @ [k'])"
      using MkdirAll_look [OF mk] by blast+
  qed
  have view1: "imageViewOf h root fs1 = imageViewOf h root fs" by (rule imageView_eqI) (use same1 in auto)
  consider (stop) "r \<noteq> Ret ()" "fs' = fs \<or> fs' = fs1" | (goes) "AtomicWriteFile (metaAt root i @ [k]) dt fs1 = (r, fs')"
    using assms(1) g mk by (auto simp: fsSetMetadata_def paths_valid [OF v] seq_def Join_plain k(1) split: outcome.splits)
  then have "fs_ok fs' \<and> (r = Ret () \<longrightarrow> imageViewOf h root fs' = absImage h (ISetMeta i k dt) (imageViewOf h root fs)) \<and>
    (r \<noteq> Ret () \<longrightarrow> imageViewOf h root fs' = imageViewOf h root fs)"
  proof cases
    case stop
    then show ?thesis using ok ok1 view1 by auto
  next
    case goes
    have pl: "metaAt root i @ [k] \<noteq> []" "plain (last (metaAt root i @ [k]))" using k(1) by simp_all
    note a = AtomicWriteFile_spec [OF goes ok1 pl]
    have mt: "look (fs_entries fs') (metaAt root j @ [k']) =
        (if j = i \<and> k' = k \<and> r = Ret () then Some (File dt) else look (fs_entries fs1) (metaAt root j @ [k']))"
      if "Validate j = None" "good_key k'" for j k'
    proof (cases "j = i \<and> k' = k")
      case False
      then have "metaAt root j @ [k'] \<noteq> metaAt root i @ [k]" using paths_apart(6) [OF that(1) v] by blast
      then have "look (fs_entries fs') (metaAt root j @ [k']) = look (fs_entries fs1) (metaAt root j @ [k'])"
        using tmp_apart_meta(2) [OF that(2)] by (intro a(2)) simp_all
      then show ?thesis using False by auto
    qed (use a(1) in auto)
    have c: "look (fs_entries fs') (contentAt root j) = look (fs_entries fs1) (contentAt root j)" if "Validate j = None" for j
      using paths_apart(5) [OF that v, of root "[k]"] tmp_apart_content(2) [OF that] by (intro a(2)) simp_all
    have "imageViewOf h root fs' = absImage h (ISetMeta i k dt) (imageViewOf h root fs1)" if "r = Ret ()"
      using c mt that v k(2) by (auto simp: imageViewOf_def fileAt_def fun_eq_iff)
    moreover have "imageViewOf h root fs' = imageViewOf h root fs1" if "r \<noteq> Ret ()"
      by (rule imageView_eqI) (use c mt that in auto)
    ultimately show ?thesis using a(5) view1 by simp
  qed
  then show "fs_ok fs'" "r = Ret () \<Longrightarrow> imageViewOf h root fs' = absImage h (ISetMeta i k dt) (imageViewOf h root fs)"
    "r \<noteq> Ret () \<Longrightarrow> imageViewOf h root fs' = imageViewOf h root fs" by blast+
qed


lemma IDelMeta_step:
  assumes "runImage h root (IDelMeta i k) fs = (r, fs')" and ok: "fs_ok fs" and good: "goodOp (IDelMeta i k)"
  shows "fs_ok fs'" and "r = Ret () \<Longrightarrow> imageViewOf h root fs' = absImage h (IDelMeta i k) (imageViewOf h root fs)"
    and "r \<noteq> Ret () \<Longrightarrow> imageViewOf h root fs' = imageViewOf h root fs"
proof -
  have v: "Validate i = None" and k: "plain k" "good_key k" using good by (auto simp: good_key_def)
  let ?p = "metaAt root i @ [k]"
  have rm: "RemoveAll ?p fs = (r, fs')" using assms(1) by (simp add: fsDeleteMetadata_def paths_valid [OF v] Join_plain k(1))
  show "fs_ok fs'" using ensD [OF ens_RemoveAll ok rm] by simp
  have c: "\<not> prefix ?p (contentAt root j)" if "Validate j = None" for j
    using paths_apart(2) [OF that v] append_prefixD by blast
  have mt: "prefix ?p (metaAt root j @ [k']) \<longleftrightarrow> j = i \<and> k' = k" if "Validate j = None" for j k'
    using paths_apart(6) [OF that v, of root k' k] by (auto simp: metaAt_def prefix_def)
  from rm have "(r = Ret () \<longrightarrow> imageViewOf h root fs' = absImage h (IDelMeta i k) (imageViewOf h root fs)) \<and>
    (r \<noteq> Ret () \<longrightarrow> imageViewOf h root fs' = imageViewOf h root fs)"
  proof (cases rule: RemoveAll_cases)
    case ok
    then show ?thesis using c mt v k(2) by (auto simp: imageViewOf_def fileAt_def fun_eq_iff)
  next
    case fault
    have "imageViewOf h root fs' = imageViewOf h root fs"
    proof (rule imageView_eqI)
      fix j assume "Validate j = None"
      then show "look (fs_entries fs') (contentAt root j) = look (fs_entries fs) (contentAt root j)" using fault(2) c by blast
    next
      fix j k' assume "Validate j = None"
      then show "look (fs_entries fs') (metaAt root j @ [k']) = look (fs_entries fs) (metaAt root j @ [k'])"
        using fault(2) [of "metaAt root j @ [k']"] mt by auto
    qed
    then show ?thesis using fault(1) by simp
  qed
  then show "r = Ret () \<Longrightarrow> imageViewOf h root fs' = absImage h (IDelMeta i k) (imageViewOf h root fs)"
    "r \<noteq> Ret () \<Longrightarrow> imageViewOf h root fs' = imageViewOf h root fs" by blast+
qed

text \<open>A failed deletion keeps the content, but may have lost metadata of this image.\<close>

lemma IDelete_step:
  assumes "runImage h root (IDelete i) fs = (r, fs')" and ok: "fs_ok fs" and v: "Validate i = None"
  shows "fs_ok fs'" and "r = Ret () \<Longrightarrow> imageViewOf h root fs' = absImage h (IDelete i) (imageViewOf h root fs)"
    and "r \<noteq> Ret () \<Longrightarrow> fst (imageViewOf h root fs') = fst (imageViewOf h root fs) \<and>
      snd (imageViewOf h root fs') i \<subseteq>\<^sub>m snd (imageViewOf h root fs) i \<and>
      (\<forall>j. j \<noteq> i \<longrightarrow> snd (imageViewOf h root fs') j = snd (imageViewOf h root fs) j)"
proof -
  obtain r1 fs1 where 1: "RemoveAll (metaAt root i) fs = (r1, fs1)" by (metis surj_pair)
  obtain r2 fs2 where 2: "Remove (contentAt root i) fs1 = (r2, fs2)" by (metis surj_pair)
  have res: "(r, fs') = (case r1 of Ret _ \<Rightarrow> (r2, fs2) | _ \<Rightarrow> (r1, fs1))"
    using assms(1) 1 2 by (auto simp: fsDelete_def paths_valid [OF v] seq_def split: outcome.splits)
  have ok1: "fs_ok fs1" using ensD [OF ens_RemoveAll [OF plain_last(3)] ok 1] by simp
  have ok2: "fs_ok fs2" using ensD [OF ens_Remove [OF plain_last(2)] ok1 2] by simp
  show "fs_ok fs'" using res ok1 ok2 by (auto split: outcome.splits)
  have c1: "look (fs_entries fs1) (contentAt root j) = look (fs_entries fs) (contentAt root j)" if "Validate j = None" for j
    using withinD(1) [OF within_RemoveAll [OF prefix_order.refl] 1] paths_apart(2) [OF that v] by blast
  have m1: "look (fs_entries fs1) (metaAt root j @ [k]) = look (fs_entries fs) (metaAt root j @ [k])" if "Validate j = None" "j \<noteq> i" for j k
    using withinD(1) [OF within_RemoveAll [OF prefix_order.refl] 1] paths_apart(4) [OF that(1) v] that(2) by blast
  have mi: "r1 = Ret () \<Longrightarrow> look (fs_entries fs1) (metaAt root i @ [k]) = None"
    "look (fs_entries fs1) (metaAt root i @ [k]) \<in> {look (fs_entries fs) (metaAt root i @ [k]), None}" for k
  proof -
    from 1 show "r1 = Ret () \<Longrightarrow> look (fs_entries fs1) (metaAt root i @ [k]) = None" by (cases rule: RemoveAll_cases) simp_all
    from 1 show "look (fs_entries fs1) (metaAt root i @ [k]) \<in> {look (fs_entries fs) (metaAt root i @ [k]), None}"
    proof (cases rule: RemoveAll_cases)
      case fault
      from fault(2) [of "metaAt root i @ [k]"] show ?thesis by blast
    qed simp
  qed
  have c2: "look (fs_entries fs2) (contentAt root j) = (if j = i \<and> r2 = Ret () then None else look (fs_entries fs1) (contentAt root j))"
    if "Validate j = None" for j
  proof -
    have px: "prefix (contentAt root i) (contentAt root j) \<longleftrightarrow> j = i" using paths_apart(1) [OF v that, of root] by (auto simp: contentAt_def prefix_def)
    from 2 show ?thesis using px by (cases rule: Remove_cases) auto
  qed
  have m2: "look (fs_entries fs2) (metaAt root j @ [k]) = look (fs_entries fs1) (metaAt root j @ [k])" if "Validate j = None" for j k
    using withinD(1) [OF within_Remove [OF prefix_order.refl] 2] paths_apart(3) [OF that v] by blast
  show "imageViewOf h root fs' = absImage h (IDelete i) (imageViewOf h root fs)" if "r = Ret ()"
  proof -
    have "r1 = Ret ()" "r2 = Ret ()" "fs' = fs2" using res that by (auto split: outcome.splits)
    moreover have "fileAt (fs_entries fs1) (metaAt root i @ [k]) = None" for k using mi(1) [OF calculation(1), of k] by (simp add: fileAt_def)
    ultimately show ?thesis using c1 c2 m1 m2 v by (auto simp: imageViewOf_def fileAt_def fun_eq_iff)
  qed
  show "fst (imageViewOf h root fs') = fst (imageViewOf h root fs) \<and> snd (imageViewOf h root fs') i \<subseteq>\<^sub>m snd (imageViewOf h root fs) i \<and>
      (\<forall>j. j \<noteq> i \<longrightarrow> snd (imageViewOf h root fs') j = snd (imageViewOf h root fs) j)" if "r \<noteq> Ret ()"
  proof -
    have same: "look (fs_entries fs') (contentAt root j) = look (fs_entries fs) (contentAt root j)"
      "look (fs_entries fs') (metaAt root j @ [k]) = look (fs_entries fs1) (metaAt root j @ [k])" if "Validate j = None" for j k
      using res \<open>r \<noteq> Ret ()\<close> c1 [OF that] c2 [OF that] m2 [OF that] by (auto split: outcome.splits)
    have sub: "fileAt (fs_entries fs') (metaAt root i @ [k]) = Some s \<Longrightarrow> fileAt (fs_entries fs) (metaAt root i @ [k]) = Some s" for k s
      using mi(2) [of k] same(2) [OF v, of k] by (auto simp: fileAt_def)
    have "snd (imageViewOf h root fs') i \<subseteq>\<^sub>m snd (imageViewOf h root fs) i"
      using sub by (auto simp: imageViewOf_def map_le_def dom_def v)
    moreover have "fst (imageViewOf h root fs') = fst (imageViewOf h root fs)" using same(1) by (auto simp: imageViewOf_def fileAt_def fun_eq_iff)
    moreover have "snd (imageViewOf h root fs') j = snd (imageViewOf h root fs) j" if "j \<noteq> i" for j
      using same(2) m1 that by (auto simp: imageViewOf_def fileAt_def fun_eq_iff)
    ultimately show ?thesis by blast
  qed
qed


section \<open>The properties\<close>

lemma fsGet_view:
  assumes "Validate i = None" and "fs_unreadable fs = (\<lambda>_. False)"
  shows "(\<exists>s. fst (fsGet h root i fs) = Ret s \<and> fst (imageViewOf h root fs) i = Some s) \<or>
    (\<exists>e. fst (fsGet h root i fs) = Fail e \<and> fst (imageViewOf h root fs) i = None)"
  using assms by (auto simp: fsGet_def paths_valid seq_def ReadFile_def ret_def fail_def imageViewOf_def fileAt_def split: option.splits node.splits)

lemma fsGetMetadata_view:
  assumes "Validate i = None" and "good_key k" and "fs_unreadable fs = (\<lambda>_. False)"
  shows "(\<exists>s. fst (fsGetMetadata h root i k fs) = Ret s \<and> fst (imageViewOf h root fs) i \<noteq> None \<and> snd (imageViewOf h root fs) i k = Some s) \<or>
    (\<exists>e. fst (fsGetMetadata h root i k fs) = Fail e \<and> (fst (imageViewOf h root fs) i = None \<or> snd (imageViewOf h root fs) i k = None))"
proof -
  have "Join (metaAt root i) [k] = metaAt root i @ [k]" using assms(2) by (simp add: Join_plain good_key_def)
  then have meta: "(\<exists>s. fst (ReadFile (Join (metaAt root i) [k]) fs) = Ret s \<and> snd (imageViewOf h root fs) i k = Some s) \<or>
      (\<exists>e. fst (ReadFile (Join (metaAt root i) [k]) fs) = Fail e \<and> snd (imageViewOf h root fs) i k = None)"
    using assms by (auto simp: imageViewOf_def fileAt_def ReadFile_def split: option.splits node.splits)
  obtain r where get: "fsGet h root i fs = (r, fs)" using fsGet_pure [OF assms(1), of h root fs] by (metis prod.collapse)
  from fsGet_view [OF assms(1,3), of h root] meta get show ?thesis
    by (auto simp: fsGetMetadata_def paths_valid [OF assms(1)] seq_def)
qed

text \<open>\<open>SetMetadata\<close> needs the verified content of the image.\<close>

lemma ISetMeta_content:
  assumes "runImage h root (ISetMeta i k dt) fs = (Ret (), fs')" and "Validate i = None"
  shows "fst (imageViewOf h root fs) i \<noteq> None"
  using assms
  by (auto simp: fsSetMetadata_def fsGet_def paths_valid seq_def ReadFile_def ret_def fail_def imageViewOf_def fileAt_def
      split: option.splits node.splits if_splits)

text \<open>
  C30. The image files implement an abstract store of contents and metadata: an operation that succeeds
  does what the abstract operation does, and \<open>SetMetadata\<close> succeeds only for an image whose content is
  stored. A failed \<open>Set\<close>, \<open>SetMetadata\<close> or \<open>DeleteMetadata\<close> leaves everything as it was. A failed
  \<open>Delete\<close> keeps all contents and the metadata of the other images, but may have lost some or all of
  the metadata of its image, which it removes first. \<open>Get\<close> gives exactly the abstract content, and
  never content that does not have the digest it is stored under; \<open>GetMetadata\<close> gives exactly the
  abstract metadata of an image whose content is stored.
\<close>

theorem image_files_refine_store:
  assumes "runImage h root op fs = (r, fs')" and "fs_ok fs" and "\<And>s. Validate (h s) = None" and "goodOp op" and "Validate i = None"
    and "fs_unreadable fs' = (\<lambda>_. False)" and "good_key k"
  shows "fs_ok fs' \<and>
    (r = Ret () \<longrightarrow> imageViewOf h root fs' = absImage h op (imageViewOf h root fs) \<and>
      (case op of ISetMeta d _ _ \<Rightarrow> fst (imageViewOf h root fs) d \<noteq> None | _ \<Rightarrow> True)) \<and>
    (r \<noteq> Ret () \<longrightarrow> (case op of
        IDelete d \<Rightarrow> fst (imageViewOf h root fs') = fst (imageViewOf h root fs) \<and>
          snd (imageViewOf h root fs') d \<subseteq>\<^sub>m snd (imageViewOf h root fs) d \<and>
          (\<forall>j. j \<noteq> d \<longrightarrow> snd (imageViewOf h root fs') j = snd (imageViewOf h root fs) j)
      | _ \<Rightarrow> imageViewOf h root fs' = imageViewOf h root fs)) \<and>
    (case fst (fsGet h root i fs') of Ret s \<Rightarrow> fst (imageViewOf h root fs') i = Some s \<and> h s = i | _ \<Rightarrow> fst (imageViewOf h root fs') i = None) \<and>
    (case fst (fsGetMetadata h root i k fs') of
       Ret s \<Rightarrow> fst (imageViewOf h root fs') i \<noteq> None \<and> snd (imageViewOf h root fs') i k = Some s
     | _ \<Rightarrow> fst (imageViewOf h root fs') i = None \<or> snd (imageViewOf h root fs') i k = None)" (is "_ \<and> _ \<and> _ \<and> ?get \<and> ?getMeta")
proof -
  have "fst (imageViewOf h root fs') i = Some s \<Longrightarrow> h s = i" for s
    using assms(5) by (auto simp: imageViewOf_def bind_eq_Some_conv split: if_splits)
  with fsGet_view [OF assms(5,6), of h root] have get: ?get by auto
  have meta: ?getMeta using fsGetMetadata_view [OF assms(5,7,6), of h root] by auto
  show ?thesis
  proof (cases op)
    case (ISet dt)
    from ISet_step [OF assms(1) [unfolded ISet] assms(2,3)] ISet get meta show ?thesis by simp
  next
    case (IDelete d)
    from IDelete_step [OF assms(1) [unfolded IDelete] assms(2)] assms(4) IDelete get meta show ?thesis by simp
  next
    case (ISetMeta d l dt)
    then have "r = Ret () \<Longrightarrow> fst (imageViewOf h root fs) d \<noteq> None" using ISetMeta_content assms(1,4) by fastforce
    with ISetMeta_step [OF assms(1) [unfolded ISetMeta] assms(2) assms(4) [unfolded ISetMeta]] ISetMeta get meta show ?thesis by simp
  next
    case (IDelMeta d l)
    from IDelMeta_step [OF assms(1) [unfolded IDelMeta] assms(2) assms(4) [unfolded IDelMeta]] IDelMeta get meta show ?thesis by simp
  qed
qed

definition demo_img_fs :: filesys where
  "demo_img_fs = demo_fs\<lparr>fs_entries := [([], Dir), ([contentDirName], Dir), ([contentDirName, Canonical], Dir)]\<rparr>"

lemma demo_img_ok: "fs_ok demo_img_fs"
  using showNat_digits
  by (auto simp: fs_ok_def demo_img_fs_def demo_fs_def wf_tree_def look_def contentDirName_def Canonical_def)

lemma demo_image_set: "\<exists>fs'. runImage (\<lambda>_. demo_dgst CHR ''a'') [] (ISet ''x'') demo_img_fs = (Ret (), fs') \<and> fs_unreadable fs' = (\<lambda>_. False)"
proof -
  define hex where "hex = replicate 64 CHR ''a''"
  let ?fn = "[contentDirName, Canonical, hex]" and ?tmp = "[contentDirName, Canonical, ''.tmp-'' @ hex @ showNat 0]"
  have hex: "plain hex" unfolding hex_def by (simp add: plain_def) (auto dest: arg_cong [where f = length])
  have ne: "hex \<noteq> ''.tmp-'' @ hex @ showNat 0" using arg_cong [of hex "''.tmp-'' @ hex @ showNat 0" length] by auto
  have at: "contentAt [] (demo_dgst CHR ''a'') = ?fn" by (simp add: contentAt_def demo_parts hex_def Canonical_def)
  have "plain (''.tmp-'' @ hex @ showNat 0)"
    using plain_random [OF plain_tmp [OF hex], of "showNat 0"] showNat_digits [of 0] by simp
  then have fresh: "freshName 10000 [contentDirName, Canonical] (''.tmp-'' @ hex) showNat 0
      [([], Dir), ([contentDirName], Dir), ([contentDirName, Canonical], Dir)] = Some ?tmp"
    by (subst freshName_first) (simp_all add: Join_plain look_def)
  show ?thesis using ne ne [symmetric]
    by (simp add: fsSet_def paths_valid [OF demo_dgst_valid] at AtomicWriteFile_def NewAtomicFileWriter_def TempFile_def newNode_def seq_def attempt_def
      demo_img_fs_def demo_fs_def look_def fresh put_def atomicWrite_def atomicClose_def atomicCloseBody_def defer_err_def touch_def nothing_def
      Rename_def move_def cut_def ret_def fresh [simplified])
qed

theorem image_files_refine_store_witness:
  "\<exists>fs'. runImage (\<lambda>_. demo_dgst CHR ''a'') [] (ISet ''x'') demo_img_fs = (Ret (), fs') \<and>
     imageViewOf (\<lambda>_. demo_dgst CHR ''a'') [] fs' =
       absImage (\<lambda>_. demo_dgst CHR ''a'') (ISet ''x'') (imageViewOf (\<lambda>_. demo_dgst CHR ''a'') [] demo_img_fs)"
proof -
  obtain fs' where run: "runImage (\<lambda>_. demo_dgst CHR ''a'') [] (ISet ''x'') demo_img_fs = (Ret (), fs')" "fs_unreadable fs' = (\<lambda>_. False)"
    using demo_image_set by blast
  from image_files_refine_store [where k = "''k''", OF run(1) demo_img_ok demo_dgst_valid _ demo_dgst_valid run(2)] run show ?thesis
    by (auto simp: good_key_def plain_def)
qed

end
