(* ===== verification/DigestSet.thy ===== *)
theory DigestSet
  imports Digest
begin

text \<open>
  The sorted set of digests of \<^verbatim>\<open>digest/set.go\<close>: its entries are ordered by hexadecimal value and
  then by algorithm, \<open>Add\<close> and \<open>Remove\<close> find their place by binary search, and \<open>Lookup\<close> resolves
  a full digest, a full value or a prefix of one.
\<close>

record digestEntry =
  de_alg :: string
  de_val :: string
  de_digest :: string

datatype set_err = ErrDigestNotFound | ErrDigestAmbiguous

definition checkShortMatch :: "string \<Rightarrow> string \<Rightarrow> string \<Rightarrow> string \<Rightarrow> bool" where
  "checkShortMatch alg hex shortAlg shortHex =
     (if length hex = length shortHex then
        (if hex \<noteq> shortHex then False
         else if length shortAlg > 0 \<and> alg \<noteq> shortAlg then False
         else True)
      else if \<not> prefix shortHex hex then False
      else if length shortAlg > 0 \<and> alg \<noteq> shortAlg then False
      else True)"

definition entryAtLeast :: "digestEntry \<Rightarrow> string \<Rightarrow> string \<Rightarrow> bool" where
  "entryAtLeast e alg hex = (if de_val e = hex then de_alg e \<ge> alg else de_val e \<ge> hex)"

definition searchPos :: "digestEntry list \<Rightarrow> string \<Rightarrow> string \<Rightarrow> nat" where
  "searchPos entries alg hex = Search (length entries) (\<lambda>i. entryAtLeast (entries ! i) alg hex)"

definition newEntry :: "string \<Rightarrow> digestEntry" where
  "newEntry d = \<lparr>de_alg = the (Algorithm d), de_val = the (Hex d), de_digest = d\<rparr>"

definition Lookup :: "digestEntry list \<Rightarrow> string \<Rightarrow> set_err + string" where
  "Lookup entries d =
     (if length entries = 0 then Inl ErrDigestNotFound else
      let (dgst, err) = ParseDigest d;
          (alg, hex, idx) =
            (if err = Some ErrDigestInvalidFormat
             then ('''', d, Search (length entries) (\<lambda>i. de_val (entries ! i) \<ge> d))
             else (the (Algorithm dgst), the (Hex dgst),
                   searchPos entries (the (Algorithm dgst)) (the (Hex dgst)))) in
      if idx = length entries \<or> \<not> checkShortMatch (de_alg (entries ! idx)) (de_val (entries ! idx)) alg hex
      then Inl ErrDigestNotFound
      else if de_alg (entries ! idx) = alg \<and> de_val (entries ! idx) = hex
      then Inr (de_digest (entries ! idx))
      else if idx + 1 < length entries \<and>
              checkShortMatch (de_alg (entries ! (idx + 1))) (de_val (entries ! (idx + 1))) alg hex
      then Inl ErrDigestAmbiguous
      else Inr (de_digest (entries ! idx)))"

definition Add :: "digestEntry list \<Rightarrow> string \<Rightarrow> digest_err + digestEntry list" where
  "Add entries d =
     (case Validate d of
        Some err \<Rightarrow> Inl err
      | None \<Rightarrow>
          let entry = newEntry d;
              idx = searchPos entries (de_alg entry) (de_val entry) in
          if idx = length entries then Inr (entries @ [entry])
          else if de_digest (entries ! idx) = d then Inr entries
          else Inr (take idx entries @ [entry] @ drop idx entries))"

definition Remove :: "digestEntry list \<Rightarrow> string \<Rightarrow> digest_err + digestEntry list" where
  "Remove entries d =
     (case Validate d of
        Some err \<Rightarrow> Inl err
      | None \<Rightarrow>
          let entry = newEntry d;
              idx = searchPos entries (de_alg entry) (de_val entry) in
          if idx = length entries \<or> de_digest (entries ! idx) \<noteq> d then Inr entries
          else Inr (take idx entries @ drop (idx + 1) entries))"

definition All :: "digestEntry list \<Rightarrow> string list" where
  "All entries = map de_digest entries"

section \<open>The order and the invariant\<close>

definition entry_lt :: "digestEntry \<Rightarrow> digestEntry \<Rightarrow> bool" where
  "entry_lt a b \<longleftrightarrow> (if de_val a \<noteq> de_val b then de_val a < de_val b else de_alg a < de_alg b)"

definition wf_entry :: "digestEntry \<Rightarrow> bool" where
  "wf_entry e \<longleftrightarrow> Validate (de_digest e) = None \<and> e = newEntry (de_digest e)"

definition set_inv :: "digestEntry list \<Rightarrow> bool" where
  "set_inv es \<longleftrightarrow> sorted_wrt entry_lt es \<and> list_all wf_entry es"

definition abs_set :: "digestEntry list \<Rightarrow> string set" where
  "abs_set es = set (All es)"

lemma entry_lt_trans: "entry_lt a b \<Longrightarrow> entry_lt b c \<Longrightarrow> entry_lt a c"
  by (auto simp: entry_lt_def split: if_splits)

lemma entry_lt_total: "entry_lt a b \<or> entry_lt b a \<or> (de_val a = de_val b \<and> de_alg a = de_alg b)"
  by (auto simp: entry_lt_def)

lemma entry_lt_irrefl: "\<not> entry_lt a a"
  by (simp add: entry_lt_def)

lemma entryAtLeast_iff: "entryAtLeast e alg hex \<longleftrightarrow> \<not> entry_lt e \<lparr>de_alg = alg, de_val = hex, de_digest = x\<rparr>"
  by (auto simp: entryAtLeast_def entry_lt_def)

lemma valid_split:
  assumes "Validate d = None"
  shows "d = de_alg (newEntry d) @ sep # de_val (newEntry d)" and "de_alg (newEntry d) \<noteq> []"
    and "list_all hex_char (de_val (newEntry d))" and "de_val (newEntry d) \<noteq> []"
proof -
  have "digestRegexpAnchored d" using assms by (simp add: Validate_None)
  then show "d = de_alg (newEntry d) @ sep # de_val (newEntry d)" "de_alg (newEntry d) \<noteq> []"
    "list_all hex_char (de_val (newEntry d))" "de_val (newEntry d) \<noteq> []"
    using sep_split [of d] by (auto simp: newEntry_def Algorithm_eq Hex_eq digestRegexpAnchored_def)
qed

lemma wf_entryD [simp]: "wf_entry e \<Longrightarrow> newEntry (de_digest e) = e"
  by (simp add: wf_entry_def)

lemma wf_entry_digest: "wf_entry e \<Longrightarrow> de_digest e = de_alg e @ sep # de_val e"
  by (metis wf_entry_def valid_split(1))

lemma wf_entry_inj: "wf_entry a \<Longrightarrow> wf_entry b \<Longrightarrow> de_alg a = de_alg b \<Longrightarrow> de_val a = de_val b \<Longrightarrow> a = b"
  by (metis wf_entry_def wf_entry_digest)

lemma newEntry_wf: "Validate d = None \<Longrightarrow> wf_entry (newEntry d)"
  by (simp add: wf_entry_def newEntry_def)

lemma searchPos_splits:
  assumes "set_inv es"
  shows "splits_at (length es) (\<lambda>i. entryAtLeast (es ! i) alg hex) (searchPos es alg hex)"
  unfolding searchPos_def
proof (rule Search_splits)
  let ?x = "\<lparr>de_alg = alg, de_val = hex, de_digest = []\<rparr>"
  show "monotone_upto (length es) (\<lambda>i. entryAtLeast (es ! i) alg hex)"
    unfolding monotone_upto_def entryAtLeast_iff [where x = "[]"]
  proof (intro allI impI notI)
    fix a b assume "\<not> entry_lt (es ! a) ?x" "a \<le> b" "b < length es" "entry_lt (es ! b) ?x"
    moreover from this assms have "a = b \<or> entry_lt (es ! a) (es ! b)"
      by (auto simp: set_inv_def sorted_wrt_iff_nth_less le_less)
    ultimately show False using entry_lt_trans by blast
  qed
qed

lemma searchPos_props:
  assumes inv: "set_inv es" and x: "wf_entry x" and i: "i = searchPos es (de_alg x) (de_val x)"
  shows "i \<le> length es" and "\<And>y. y \<in> set (take i es) \<Longrightarrow> entry_lt y x"
    and "\<And>y. y \<in> set (drop i es) \<Longrightarrow> y = x \<or> entry_lt x y"
    and "x \<in> set es \<longleftrightarrow> i < length es \<and> es ! i = x"
proof -
  have sp: "splits_at (length es) (\<lambda>i. entryAtLeast (es ! i) (de_alg x) (de_val x)) i"
    using searchPos_splits [OF inv] i by simp
  have al: "entryAtLeast e (de_alg x) (de_val x) \<longleftrightarrow> \<not> entry_lt e x" for e
    by (auto simp: entryAtLeast_def entry_lt_def)
  show le: "i \<le> length es" using sp by (simp add: splits_at_def)
  show lo: "entry_lt y x" if "y \<in> set (take i es)" for y
    using that sp le by (auto simp: splits_at_def al in_set_conv_nth)
  have wf: "wf_entry y" if "y \<in> set es" for y using inv that by (auto simp: set_inv_def list_all_iff)
  show hi: "y = x \<or> entry_lt x y" if y: "y \<in> set (drop i es)" for y
  proof -
    obtain j where j: "j < length es - i" "y = es ! (i + j)" using y by (auto simp: in_set_conv_nth)
    then have "\<not> entry_lt y x" using sp by (auto simp: splits_at_def al)
    then show ?thesis using entry_lt_total [of x y] wf_entry_inj [of x y] wf [of y] x set_drop_subset [of i es] y by auto
  qed
  show "x \<in> set es \<longleftrightarrow> i < length es \<and> es ! i = x"
  proof
    assume "x \<in> set es"
    then obtain j where j: "j < length es" "es ! j = x" by (auto simp: in_set_conv_nth)
    then have ij: "i \<le> j" using lo entry_lt_irrefl [of x] by (metis in_set_conv_nth leI length_take min.absorb2 le nth_take)
    have "es ! i \<in> set (drop i es)" using ij j by (metis Cons_nth_drop_Suc le_less_trans list.set_intros(1))
    then have "es ! i = x \<or> entry_lt x (es ! i)" by (rule hi)
    moreover have "i = j \<or> entry_lt (es ! i) (es ! j)"
      using inv ij j by (auto simp: set_inv_def sorted_wrt_iff_nth_less le_less)
    ultimately show "i < length es \<and> es ! i = x"
      using ij j entry_lt_trans entry_lt_irrefl by (metis le_less_trans)
  qed auto
qed

lemma abs_set_mem:
  assumes "set_inv es" and "Validate d = None"
  shows "d \<in> abs_set es \<longleftrightarrow> newEntry d \<in> set es"
proof
  assume "d \<in> abs_set es"
  then obtain e where "e \<in> set es" "d = de_digest e" by (auto simp: abs_set_def All_def)
  then show "newEntry d \<in> set es" using assms(1) by (simp add: set_inv_def list_all_iff)
next
  assume "newEntry d \<in> set es"
  then show "d \<in> abs_set es" by (force simp: abs_set_def All_def newEntry_def)
qed

lemma newEntry_simps [simp]: "de_digest (newEntry d) = d"
  by (simp add: newEntry_def)

lemma Add_ok:
  assumes inv: "set_inv es" and d: "Validate d = None"
  obtains es' where "Add es d = Inr es'" and "set_inv es'" and "abs_set es' = insert d (abs_set es)"
proof -
  let ?x = "newEntry d"
  define i where "i = searchPos es (de_alg ?x) (de_val ?x)"
  note p = searchPos_props [OF inv newEntry_wf [OF d] i_def]
  let ?new = "take i es @ [?x] @ drop i es"
  have es: "set es = set (take i es) \<union> set (drop i es)" by (metis append_take_drop_id set_append)
  show ?thesis
  proof (cases "?x \<in> set es")
    case True
    then have "Add es d = Inr es" using p(4) d by (simp add: Add_def Let_def i_def [symmetric])
    moreover have "abs_set es = insert d (abs_set es)" using True abs_set_mem [OF inv d] by auto
    ultimately show ?thesis using that inv by simp
  next
    case False
    have "de_digest (es ! i) \<noteq> d" if "i < length es"
      using False inv that by (metis list_all_length nth_mem set_inv_def wf_entry_def)
    then have "Add es d = Inr ?new" using d p(1) by (auto simp: Add_def Let_def i_def [symmetric])
    moreover have "set_inv ?new"
    proof -
      have "sorted_wrt entry_lt (take i es @ drop i es)" using inv by (simp add: set_inv_def)
      then have "sorted_wrt entry_lt (take i es)" "sorted_wrt entry_lt (drop i es)"
        "\<forall>a\<in>set (take i es). \<forall>b\<in>set (drop i es). entry_lt a b" unfolding sorted_wrt_append by auto
      moreover have "entry_lt ?x b" if "b \<in> set (drop i es)" for b using p(3) [OF that] that False es by auto
      ultimately have "sorted_wrt entry_lt ?new" using p(2) by (auto simp: sorted_wrt_append)
      then show ?thesis using inv newEntry_wf [OF d] es by (auto simp: set_inv_def list_all_iff)
    qed
    moreover have "abs_set ?new = insert d (abs_set es)" using es by (auto simp: abs_set_def All_def)
    ultimately show ?thesis using that by blast
  qed
qed

lemma Remove_ok:
  assumes inv: "set_inv es" and d: "Validate d = None"
  obtains es' where "Remove es d = Inr es'" and "set_inv es'" and "abs_set es' = abs_set es - {d}"
proof -
  let ?x = "newEntry d"
  define i where "i = searchPos es (de_alg ?x) (de_val ?x)"
  note p = searchPos_props [OF inv newEntry_wf [OF d] i_def]
  show ?thesis
  proof (cases "?x \<in> set es")
    case True
    then have i: "i < length es" "es ! i = ?x" using p(4) by auto
    let ?new = "take i es @ drop (i + 1) es"
    have es: "es = take i es @ ?x # drop (i + 1) es" using id_take_nth_drop [OF i(1)] i(2) by simp
    have "Remove es d = Inr ?new" using i d by (simp add: Remove_def Let_def i_def [symmetric])
    moreover have inv': "set_inv (take i es @ ?x # drop (i + 1) es)" using inv es by simp
    then have "set_inv ?new" by (auto simp: set_inv_def sorted_wrt_append)
    moreover have "d \<notin> abs_set ?new"
    proof
      assume "d \<in> abs_set ?new"
      then have "?x \<in> set ?new" using abs_set_mem [OF \<open>set_inv ?new\<close> d] by simp
      then show False using inv' entry_lt_irrefl by (auto simp: set_inv_def sorted_wrt_append)
    qed
    moreover have "abs_set es = insert d (abs_set ?new)" by (subst es) (auto simp: abs_set_def All_def)
    ultimately show ?thesis using that by auto
  next
    case False
    have "de_digest (es ! i) \<noteq> d" if "i < length es"
      using False inv that by (metis list_all_length nth_mem set_inv_def wf_entry_def)
    then have "Remove es d = Inr es" using d p(1) by (auto simp: Remove_def Let_def i_def [symmetric])
    moreover have "abs_set es = abs_set es - {d}" using False abs_set_mem [OF inv d] by auto
    ultimately show ?thesis using that inv by simp
  qed
qed

section \<open>Lookup by prefix\<close>

lemma prefix_le: "prefix s v \<Longrightarrow> s \<le> (v :: string)"
  by (induction s arbitrary: v) (auto simp: prefix_def)

lemma prefix_between: "s \<le> v \<Longrightarrow> v \<le> w \<Longrightarrow> prefix s (w :: string) \<Longrightarrow> prefix s v"
proof (induction s arbitrary: v w)
  case (Cons c s)
  then obtain w' where "w = c # w'" "prefix s w'" by (cases w) auto
  with Cons show ?case by (cases v) auto
qed simp

lemma checkShortMatch_iff:
  "checkShortMatch alg hex shortAlg shortHex \<longleftrightarrow> prefix shortHex hex \<and> (shortAlg = [] \<or> alg = shortAlg)"
  by (auto simp: checkShortMatch_def prefix_def)

text \<open>What a query string asks for: an algorithm, empty if none is given, and a prefix of the value.\<close>

definition query :: "string \<Rightarrow> string \<times> string" where
  "query d = (if Validate d = Some ErrDigestInvalidFormat then ('''', d) else (the (Algorithm d), the (Hex d)))"

definition matching :: "string \<Rightarrow> digestEntry \<Rightarrow> bool" where
  "matching d e \<longleftrightarrow> prefix (snd (query d)) (de_val e) \<and> (fst (query d) = [] \<or> de_alg e = fst (query d))"

definition lookupPos :: "digestEntry list \<Rightarrow> string \<Rightarrow> nat" where
  "lookupPos es d = searchPos es (fst (query d)) (snd (query d))"

lemma Lookup_eq:
  "Lookup es d =
     (let i = lookupPos es d in
      if es = [] \<or> i = length es \<or> \<not> matching d (es ! i) then Inl ErrDigestNotFound
      else if de_alg (es ! i) = fst (query d) \<and> de_val (es ! i) = snd (query d) then Inr (de_digest (es ! i))
      else if i + 1 < length es \<and> matching d (es ! (i + 1)) then Inl ErrDigestAmbiguous
      else Inr (de_digest (es ! i)))"
proof -
  have "(\<lambda>i. entryAtLeast (es ! i) [] d) = (\<lambda>i. d \<le> de_val (es ! i))"
    by (auto simp: entryAtLeast_def fun_eq_iff)
  note pos = this
  show ?thesis
  proof (cases "Validate d = Some ErrDigestInvalidFormat")
    case True
    then have "query d = ([], d)" "lookupPos es d = Search (length es) (\<lambda>i. d \<le> de_val (es ! i))"
      using pos by (simp_all add: query_def lookupPos_def searchPos_def)
    then show ?thesis using True by (auto simp: Lookup_def ParseDigest_def matching_def checkShortMatch_iff Let_def)
  next
    case False
    then have "query d = (the (Algorithm d), the (Hex d))" by (simp add: query_def)
    then show ?thesis using False
      by (auto simp: Lookup_def ParseDigest_def matching_def checkShortMatch_iff lookupPos_def Let_def)
  qed
qed

text \<open>
  The matching entries of a set with one algorithm are an interval that starts at the position
  the binary search finds.
\<close>

lemma lookupPos_first:
  assumes inv: "set_inv es" and k: "k < length es" "matching d (es ! k)"
  shows "lookupPos es d \<le> k"
proof (rule ccontr)
  assume "\<not> lookupPos es d \<le> k"
  then have "\<not> entryAtLeast (es ! k) (fst (query d)) (snd (query d))"
    using searchPos_splits [OF inv, of "fst (query d)" "snd (query d)"] by (simp add: splits_at_def lookupPos_def)
  then show False using k(2) prefix_le [of "snd (query d)" "de_val (es ! k)"]
    by (auto simp: entryAtLeast_def matching_def split: if_splits)
qed

lemma lookupPos_interval:
  assumes inv: "set_inv es" and alg: "\<forall>e\<in>set es. de_alg e = A"
    and k: "k < length es" "matching d (es ! k)" and j: "lookupPos es d \<le> j" "j \<le> k"
  shows "matching d (es ! j)"
proof -
  have "entryAtLeast (es ! j) (fst (query d)) (snd (query d))"
    using searchPos_splits [OF inv, of "fst (query d)" "snd (query d)"] j k by (simp add: splits_at_def lookupPos_def)
  then have lo: "snd (query d) \<le> de_val (es ! j)" by (auto simp: entryAtLeast_def split: if_splits)
  have "j = k \<or> entry_lt (es ! j) (es ! k)"
    using inv j k by (auto simp: set_inv_def sorted_wrt_iff_nth_less le_less)
  then have "de_val (es ! j) \<le> de_val (es ! k)" by (auto simp: entry_lt_def split: if_splits)
  from prefix_between [OF lo this] k alg j show ?thesis by (auto simp: matching_def)
qed

lemma wf_entry_exact:
  assumes "wf_entry e"
  shows "de_alg e = fst (query d) \<and> de_val e = snd (query d) \<longleftrightarrow> de_digest e = d"
proof -
  have e: "de_digest e = de_alg e @ sep # de_val e" "Validate (de_digest e) = None" "newEntry (de_digest e) = e"
    using assms wf_entry_digest wf_entryD wf_entry_def by blast+
  have ne: "de_alg e \<noteq> []" using valid_split(2) [OF e(2)] e(3) by metis
  show ?thesis
  proof (cases "Validate d = Some ErrDigestInvalidFormat")
    case True
    then show ?thesis using ne e(2) by (auto simp: query_def)
  next
    case False
    then have "digestRegexpAnchored d" by (auto simp: Validate_eq split: if_splits)
    then have "d = fst (query d) @ sep # snd (query d)" "query d = (de_alg (newEntry d), de_val (newEntry d))"
      using False sep_split [of d]
      by (auto simp: query_def Algorithm_eq Hex_eq digestRegexpAnchored_def newEntry_def)
    then show ?thesis using e(1,3) by (metis fst_conv snd_conv)
  qed
qed

text \<open>The digests of a set that a query can mean.\<close>

definition candidates :: "digestEntry list \<Rightarrow> string \<Rightarrow> string set" where
  "candidates es d = {x \<in> abs_set es. matching d (newEntry x)}"

lemma candidates_eq: "set_inv es \<Longrightarrow> candidates es d = de_digest ` {e \<in> set es. matching d e}"
  by (auto simp: candidates_def abs_set_def All_def set_inv_def list_all_iff)

lemma candidates_nth:
  "set_inv es \<Longrightarrow> k < length es \<Longrightarrow> matching d (es ! k) \<Longrightarrow> de_digest (es ! k) \<in> candidates es d"
  by (auto simp: candidates_eq)

lemma distinct_digests:
  assumes "set_inv es" and "i < j" and "j < length es"
  shows "de_digest (es ! i) \<noteq> de_digest (es ! j)"
  using assms entry_lt_irrefl
  by (metis dual_order.strict_trans list_all_length set_inv_def sorted_wrt_iff_nth_less wf_entry_def)

text \<open>The digest asked for is a candidate only if it is the first entry that is not below it.\<close>

lemma candidates_exact:
  assumes inv: "set_inv es" and i: "lookupPos es d < length es" and "d \<in> candidates es d"
  shows "de_digest (es ! lookupPos es d) = d"
proof (rule ccontr)
  assume ne: "de_digest (es ! lookupPos es d) \<noteq> d"
  obtain j where j: "j < length es" "matching d (es ! j)" "de_digest (es ! j) = d"
    using assms(3) by (auto simp: candidates_eq [OF inv] in_set_conv_nth)
  then have "wf_entry (es ! j)" using inv by (auto simp: set_inv_def list_all_length)
  from wf_entry_exact [OF this, of d] j have q: "de_val (es ! j) = snd (query d)" "de_alg (es ! j) = fst (query d)" by auto
  have "lookupPos es d \<noteq> j" using j(3) ne by blast
  then have "lookupPos es d < j" using lookupPos_first [OF inv j(1,2)] by simp
  then have "entry_lt (es ! lookupPos es d) (es ! j)" using inv j(1) by (auto simp: set_inv_def sorted_wrt_iff_nth_less)
  moreover have "entryAtLeast (es ! lookupPos es d) (fst (query d)) (snd (query d))"
    using searchPos_splits [OF inv, of "fst (query d)" "snd (query d)"] i by (simp add: splits_at_def lookupPos_def)
  ultimately show False using q by (auto simp: entryAtLeast_def entry_lt_def split: if_splits)
qed

lemma matching_only:
  assumes inv: "set_inv es" and alg: "\<forall>e\<in>set es. de_alg e = A" and j: "j < length es" "matching d (es ! j)"
    and none: "\<not> (lookupPos es d + 1 < length es \<and> matching d (es ! (lookupPos es d + 1)))"
  shows "j = lookupPos es d"
proof (rule ccontr)
  assume "j \<noteq> lookupPos es d"
  then have "lookupPos es d + 1 \<le> j" using lookupPos_first [OF inv j] by simp
  moreover then have "matching d (es ! (lookupPos es d + 1))" using lookupPos_interval [OF inv alg j] by simp
  ultimately show False using none j(1) by simp
qed

lemma Lookup_candidates:
  assumes inv: "set_inv es" and alg: "\<forall>e\<in>set es. de_alg e = A"
  shows "Lookup es d = (if candidates es d = {} then Inl ErrDigestNotFound
     else if d \<in> candidates es d then Inr d
     else if \<exists>x. candidates es d = {x} then Inr (the_elem (candidates es d))
     else Inl ErrDigestAmbiguous)"
proof (cases "\<exists>k<length es. matching d (es ! k)")
  case False
  then have "candidates es d = {}" by (auto simp: candidates_eq [OF inv] in_set_conv_nth)
  moreover have "lookupPos es d \<le> length es"
    using searchPos_splits [OF inv] by (simp add: lookupPos_def splits_at_def)
  then have "Lookup es d = Inl ErrDigestNotFound"
    using False by (auto simp: Lookup_eq Let_def le_less)
  ultimately show ?thesis by simp
next
  case True
  then obtain k where k: "k < length es" "matching d (es ! k)" by blast
  define i where "i = lookupPos es d"
  have i: "i \<le> k" "i < length es" "matching d (es ! i)"
    using lookupPos_first [OF inv k] lookupPos_interval [OF inv alg k] k by (auto simp: i_def)
  have wf: "wf_entry (es ! i)" using inv i(2) by (auto simp: set_inv_def list_all_length)
  note ci = candidates_nth [OF inv i(2,3)]
  have L: "Lookup es d = (if de_digest (es ! i) = d then Inr d
      else if i + 1 < length es \<and> matching d (es ! (i + 1)) then Inl ErrDigestAmbiguous
      else Inr (de_digest (es ! i)))"
    unfolding Lookup_eq Let_def i_def [symmetric] wf_entry_exact [OF wf] using i by auto
  show ?thesis
  proof (cases "de_digest (es ! i) = d")
    case True
    then show ?thesis using ci L by auto
  next
    case ne: False
    have d: "d \<notin> candidates es d" using candidates_exact [OF inv] i ne by (auto simp: i_def)
    show ?thesis
    proof (cases "i + 1 < length es \<and> matching d (es ! (i + 1))")
      case True
      then have "de_digest (es ! (i + 1)) \<in> candidates es d" "de_digest (es ! i) \<noteq> de_digest (es ! (i + 1))"
        using candidates_nth [OF inv] distinct_digests [OF inv, of i "i + 1"] by auto
      then have "\<nexists>x. candidates es d = {x}" using ci by (metis singletonD)
      then show ?thesis using True ne ci d L by auto
    next
      case False
      have "j = i" if "j < length es" "matching d (es ! j)" for j
        using matching_only [OF inv alg that] False by (simp add: i_def)
      then have "candidates es d = {de_digest (es ! i)}"
        using ci by (auto simp: candidates_eq [OF inv] in_set_conv_nth)
      then show ?thesis using False ne d L by simp
    qed
  qed
qed

section \<open>The properties\<close>

datatype setOp = SAdd string | SRemove string

fun setStep :: "setOp \<Rightarrow> digestEntry list \<Rightarrow> digestEntry list" where
  "setStep (SAdd d) es = (case Add es d of Inl _ \<Rightarrow> es | Inr es' \<Rightarrow> es')"
| "setStep (SRemove d) es = (case Remove es d of Inl _ \<Rightarrow> es | Inr es' \<Rightarrow> es')"

fun absStep :: "setOp \<Rightarrow> string set \<Rightarrow> string set" where
  "absStep (SAdd d) S = (if Validate d = None then insert d S else S)"
| "absStep (SRemove d) S = (if Validate d = None then S - {d} else S)"

lemma set_inv_Nil: "set_inv []"
  by (simp add: set_inv_def)

lemma setStep_refines:
  assumes "set_inv es"
  shows "set_inv (setStep op es) \<and> abs_set (setStep op es) = absStep op (abs_set es)"
proof (cases op)
  case (SAdd d)
  show ?thesis
  proof (cases "Validate d")
    case None
    with Add_ok [OF assms] obtain es' where "Add es d = Inr es'" "set_inv es'" "abs_set es' = insert d (abs_set es)" by blast
    with None SAdd show ?thesis by simp
  qed (use assms SAdd in \<open>simp add: Add_def\<close>)
next
  case (SRemove d)
  show ?thesis
  proof (cases "Validate d")
    case None
    with Remove_ok [OF assms] obtain es' where "Remove es d = Inr es'" "set_inv es'" "abs_set es' = abs_set es - {d}" by blast
    with None SRemove show ?thesis by simp
  qed (use assms SRemove in \<open>simp add: Remove_def\<close>)
qed

lemma fold_setStep_refines:
  "set_inv es \<Longrightarrow> set_inv (fold setStep ops es) \<and> abs_set (fold setStep ops es) = fold absStep ops (abs_set es)"
  by (induction ops arbitrary: es) (simp_all add: setStep_refines)

text \<open>
  C11. The sorted array with binary search implements a mathematical set: after any sequence of
  additions and removals its entries are strictly ordered and are exactly the valid digests added
  and not removed since.
\<close>

theorem digest_set_refines_set:
  "set_inv (fold setStep ops []) \<and> abs_set (fold setStep ops []) = fold absStep ops {}"
  using fold_setStep_refines [of "[]" ops] by (simp add: set_inv_def abs_set_def All_def)

text \<open>
  C12. Looking up a string in a set of digests of one algorithm gives the digest itself if it is in
  the set, else the only digest it abbreviates; if there is none it gives \<open>ErrDigestNotFound\<close>, if
  there are several \<open>ErrDigestAmbiguous\<close>.
\<close>

theorem lookup_resolves_unique_prefix:
  assumes "set_inv es" and "\<And>x. x \<in> abs_set es \<Longrightarrow> Algorithm x = Some A"
  shows "Lookup es d = (if candidates es d = {} then Inl ErrDigestNotFound
     else if d \<in> candidates es d then Inr d
     else if \<exists>x. candidates es d = {x} then Inr (the_elem (candidates es d))
     else Inl ErrDigestAmbiguous)"
proof (rule Lookup_candidates [OF assms(1)])
  show "\<forall>e\<in>set es. de_alg e = A"
  proof
    fix e assume e: "e \<in> set es"
    then have "wf_entry e" "de_digest e \<in> abs_set es"
      using assms(1) by (auto simp: set_inv_def list_all_iff abs_set_def All_def)
    then have "newEntry (de_digest e) = e" "Algorithm (de_digest e) = Some A" using assms(2) by simp_all
    then show "de_alg e = A" by (metis newEntry_def digestEntry.select_convs(1) option.sel)
  qed
qed

definition digest_of :: "string \<Rightarrow> char \<Rightarrow> string" where
  "digest_of p c = ''sha256:'' @ p @ replicate (64 - length p) c"

abbreviation demo_digests :: "digestEntry list" where
  "demo_digests \<equiv> fold setStep [SAdd (digest_of ''ab'' CHR ''0''), SAdd (digest_of ''aa'' CHR ''0'')] []"

lemma demo_set:
  "abs_set demo_digests = {digest_of ''aa'' CHR ''0'', digest_of ''ab'' CHR ''0''}"
  "Algorithm (digest_of ''aa'' CHR ''0'') = Some ''sha256''" "Algorithm (digest_of ''ab'' CHR ''0'') = Some ''sha256''"
  by code_simp+

theorem lookup_resolves_unique_prefix_witness:
  "Lookup demo_digests ''ab'' = Inr (digest_of ''ab'' CHR ''0'') \<and> Lookup demo_digests ''a'' = Inl ErrDigestAmbiguous"
proof -
  have inv: "set_inv demo_digests" by (rule conjunct1 [OF fold_setStep_refines [OF set_inv_Nil]])
  have alg: "x \<in> abs_set demo_digests \<Longrightarrow> Algorithm x = Some ''sha256''" for x using demo_set by auto
  have "matching ''ab'' (newEntry (digest_of ''ab'' CHR ''0''))" "\<not> matching ''ab'' (newEntry (digest_of ''aa'' CHR ''0''))"
    "matching ''a'' (newEntry (digest_of ''ab'' CHR ''0''))" "matching ''a'' (newEntry (digest_of ''aa'' CHR ''0''))"
    "digest_of ''aa'' CHR ''0'' \<noteq> digest_of ''ab'' CHR ''0''" "''a'' \<notin> {digest_of ''aa'' CHR ''0'', digest_of ''ab'' CHR ''0''}"
    "''ab'' \<notin> {digest_of ''aa'' CHR ''0'', digest_of ''ab'' CHR ''0''}"
    by code_simp+
  then have "candidates demo_digests ''ab'' = {digest_of ''ab'' CHR ''0''}"
    "candidates demo_digests ''a'' = {digest_of ''aa'' CHR ''0'', digest_of ''ab'' CHR ''0''}"
    "''a'' \<notin> candidates demo_digests ''a''" "''ab'' \<notin> candidates demo_digests ''ab''"
    "digest_of ''aa'' CHR ''0'' \<noteq> digest_of ''ab'' CHR ''0''"
    unfolding candidates_def demo_set by auto
  with lookup_resolves_unique_prefix [OF inv alg, of "''ab''"] lookup_resolves_unique_prefix [OF inv alg, of "''a''"]
  show ?thesis by (auto simp: doubleton_eq_iff)
qed

text \<open>
  With several algorithms in a set the search stops too early: a digest of another algorithm whose
  value comes first hides the one that the query abbreviates.
\<close>

lemma lookup_misses_other_algorithm:
  "set_inv [newEntry (''sha384:'' @ replicate 96 CHR ''a''), newEntry (digest_of ''ab'' CHR ''0'')] \<and>
   Lookup [newEntry (''sha384:'' @ replicate 96 CHR ''a''), newEntry (digest_of ''ab'' CHR ''0'')] ''sha256:a'' =
     Inl ErrDigestNotFound \<and>
   candidates [newEntry (''sha384:'' @ replicate 96 CHR ''a''), newEntry (digest_of ''ab'' CHR ''0'')] ''sha256:a'' =
     {digest_of ''ab'' CHR ''0''}"
  by code_simp

end
