(* ===== verification/ImageStore.thy ===== *)
theory ImageStore
  imports LayerHold ImageFS DigestSet
begin

text \<open>
  The image store, \<^verbatim>\<open>image/store.go\<close>, with the image type of \<^verbatim>\<open>image/image.go\<close> and the root file system of
  \<^verbatim>\<open>image/rootfs.go\<close>. The store keeps a table of images, each with a reference to its top layer and its
  children, a set of digests to search, and the configuration files behind \<open>StoreBackend\<close>. The backend
  and the layer store are the operations of the interfaces the code names; JSON, the digest function
  and the order in which Go ranges over a map are parameters.
\<close>

section \<open>Images\<close>

record RootFS =
  rf_Type :: string
  rf_DiffIDs :: "string list"

record History =
  hi_Created :: int
  hi_Author :: string
  hi_CreatedBy :: string
  hi_Comment :: string
  hi_EmptyLayer :: bool

text \<open>
  The configuration of a container and the fields of version 1 of the image format. Times are
  instants, and a Go map to \<open>struct{}\<close> is the set of its keys.
\<close>

record HealthConfig =
  hc_Test :: "string list"
  hc_Interval :: int64
  hc_Timeout :: int64
  hc_Retries :: int64

record Config =
  cc_Hostname :: string
  cc_Domainname :: string
  cc_User :: string
  cc_AttachStdin :: bool
  cc_AttachStdout :: bool
  cc_AttachStderr :: bool
  cc_ExposedPorts :: "string set"
  cc_Tty :: bool
  cc_OpenStdin :: bool
  cc_StdinOnce :: bool
  cc_Env :: "string list"
  cc_Cmd :: "string list"
  cc_Healthcheck :: "HealthConfig option"
  cc_ArgsEscaped :: bool
  cc_Image :: string
  cc_Volumes :: "string set"
  cc_WorkingDir :: string
  cc_Entrypoint :: "string list"
  cc_NetworkDisabled :: bool
  cc_MacAddress :: string
  cc_OnBuild :: "string list"
  cc_Labels :: "string \<rightharpoonup> string"
  cc_StopSignal :: string
  cc_StopTimeout :: "int64 option"
  cc_Shell :: "string list"

record V1Image =
  v1_ID :: string
  v1_Parent :: string
  v1_Comment :: string
  v1_Created :: int
  v1_Container :: string
  v1_ContainerConfig :: Config
  v1_DockerVersion :: string
  v1_Author :: string
  v1_Config :: "Config option"
  v1_Architecture :: string
  v1_OS :: string
  v1_Size :: int64

record Image =
  img_V1Image :: V1Image
  img_Parent :: string
  img_RootFS :: "RootFS option"
  img_History :: "History list"
  img_OSVersion :: string
  img_OSFeatures :: "string list"
  img_rawJSON :: string
  img_computedID :: string

definition TypeLayers :: string where "TypeLayers = ''layers''"

definition NewRootFS :: RootFS where
  "NewRootFS = \<lparr>rf_Type = TypeLayers, rf_DiffIDs = []\<rparr>"

definition AppendDiff :: "RootFS \<Rightarrow> string \<Rightarrow> RootFS" where
  "AppendDiff r d = r\<lparr>rf_DiffIDs := rf_DiffIDs r @ [d]\<rparr>"

definition ChainID :: "(string \<Rightarrow> string) \<Rightarrow> RootFS \<Rightarrow> string" where
  "ChainID h r = CreateChainID h (rf_DiffIDs r)"

section \<open>The store and its interfaces\<close>

record imageMeta =
  im_layer :: "layerRef option"
  im_children :: "string list"

record ('l, 'f) imageStore =
  is_ls :: 'l
  is_images :: "(string \<times> imageMeta) list"
  is_fs :: 'f
  is_digestSet :: "digestEntry list"

datatype image_err = ImgFS os_err | ImgLayer layer_err | ImgDigest digest_err | ImgLookup set_err | ImgMsg string

record ('l, 'f) imageEnv =
  bk_Walk :: "('f, os_err, string list) go"
  bk_Get :: "string \<Rightarrow> ('f, os_err, string) go"
  bk_Set :: "string \<Rightarrow> ('f, os_err, string) go"
  bk_Delete :: "string \<Rightarrow> ('f, os_err, unit) go"
  bk_SetMetadata :: "string \<Rightarrow> string \<Rightarrow> string \<Rightarrow> ('f, os_err, unit) go"
  bk_GetMetadata :: "string \<Rightarrow> string \<Rightarrow> ('f, os_err, string) go"
  bk_DeleteMetadata :: "string \<Rightarrow> string \<Rightarrow> ('f, os_err, unit) go"
  lg_Get :: "string \<Rightarrow> ('l, layer_err, layerRef) go"
  lg_Release :: "layerRef \<Rightarrow> ('l, layer_err, Metadata list) go"
  js_Unmarshal :: "string \<Rightarrow> string + Image"
  env_FromBytes :: "string \<Rightarrow> string"
  go_range :: "string list \<Rightarrow> string list"

type_synonym ('l, 'f, 'a) isM = "(('l, 'f) imageStore, image_err, 'a) go"

definition onFs :: "('f, os_err, 'a) go \<Rightarrow> ('l, 'f, 'a) isM" where
  "onFs = zoom is_fs (\<lambda>f s. s\<lparr>is_fs := f\<rparr>) ImgFS"

definition onLs :: "('l, layer_err, 'a) go \<Rightarrow> ('l, 'f, 'a) isM" where
  "onLs = zoom is_ls (\<lambda>l s. s\<lparr>is_ls := l\<rparr>) ImgLayer"

definition imageOf :: "('l, 'f) imageStore \<Rightarrow> string \<Rightarrow> imageMeta option" where
  "imageOf s imgID = map_of (is_images s) imgID"

definition setImage :: "string \<Rightarrow> imageMeta \<Rightarrow> ('l, 'f) imageStore \<Rightarrow> ('l, 'f) imageStore" where
  "setImage imgID m s = s\<lparr>is_images := AList.update imgID m (is_images s)\<rparr>"

definition dropImage :: "string \<Rightarrow> ('l, 'f) imageStore \<Rightarrow> ('l, 'f) imageStore" where
  "dropImage imgID s = s\<lparr>is_images := AList.delete imgID (is_images s)\<rparr>"

text \<open>\<open>parentMeta.children[id] = struct{}{}\<close> and \<open>delete(is.images[parent].children, id)\<close>.\<close>

definition addChild :: "string \<Rightarrow> string \<Rightarrow> ('l, 'f) imageStore \<Rightarrow> ('l, 'f) imageStore" where
  "addChild parent imgID s = (case imageOf s parent of
      None \<Rightarrow> s
    | Some m \<Rightarrow> setImage parent (m\<lparr>im_children := List.insert imgID (im_children m)\<rparr>) s)"

definition dropChild :: "string \<Rightarrow> string \<Rightarrow> ('l, 'f) imageStore \<Rightarrow> ('l, 'f) imageStore" where
  "dropChild parent imgID s = (case imageOf s parent of
      None \<Rightarrow> s
    | Some m \<Rightarrow> setImage parent (m\<lparr>im_children := removeAll imgID (im_children m)\<rparr>) s)"

section \<open>Operations\<close>

definition NewFromJSON :: "('l, 'f) imageEnv \<Rightarrow> string \<Rightarrow> string + Image" where
  "NewFromJSON env src = (case js_Unmarshal env src of
      Inl e \<Rightarrow> Inl e
    | Inr img \<Rightarrow> if img_RootFS img = None then Inl ''Invalid image JSON, no RootFS key.''
        else Inr (img\<lparr>img_rawJSON := src\<rparr>))"

definition GetImageParent :: "('l, 'f) imageEnv \<Rightarrow> string \<Rightarrow> ('l, 'f, string) isM" where
  "GetImageParent env imgID = onFs (bk_GetMetadata env imgID ''parent'')"

definition GetImage :: "('l, 'f) imageEnv \<Rightarrow> string \<Rightarrow> ('l, 'f, Image) isM" where
  "GetImage env imgID =
     seq (onFs (bk_Get env imgID)) (\<lambda>config.
     case NewFromJSON env config of
       Inl e \<Rightarrow> fail (ImgMsg e)
     | Inr img \<Rightarrow>
         seq (tryGo (GetImageParent env imgID)) (\<lambda>p.
         ret (img\<lparr>img_computedID := imgID, img_Parent := (case p of Inr parent \<Rightarrow> parent | Inl _ \<Rightarrow> '''')\<rparr>)))"

text \<open>The reference to the top layer; an image without layers has none.\<close>

definition getLayer :: "('l, 'f) imageEnv \<Rightarrow> string \<Rightarrow> ('l, 'f, layerRef option) isM" where
  "getLayer env chainID =
     (if chainID \<noteq> '''' then seq (onLs (lg_Get env chainID)) (\<lambda>l. ret (Some l)) else ret None)"

definition restoreImage :: "('l, 'f) imageEnv \<Rightarrow> string \<Rightarrow> ('l, 'f, unit) isM" where
  "restoreImage env imgID =
     seq (tryGo (GetImage env imgID)) (\<lambda>found.
     case found of
       Inl _ \<Rightarrow> ret ()
     | Inr img \<Rightarrow>
         (case img_RootFS img of
            None \<Rightarrow> gopanic ''nil pointer dereference''
          | Some rootfs \<Rightarrow>
              seq (getLayer env (ChainID (env_FromBytes env) rootfs)) (\<lambda>l.
              seq (gets is_digestSet) (\<lambda>ds.
              case Add ds imgID of
                Inl e \<Rightarrow> fail (ImgDigest e)
              | Inr ds' \<Rightarrow>
                  seq (modify (\<lambda>s. s\<lparr>is_digestSet := ds'\<rparr>)) (\<lambda>_.
                  modify (setImage imgID \<lparr>im_layer = l, im_children = []\<rparr>))))))"

definition restoreChild :: "('l, 'f) imageEnv \<Rightarrow> string \<Rightarrow> ('l, 'f, unit) isM" where
  "restoreChild env imgID =
     seq (tryGo (GetImageParent env imgID)) (\<lambda>p.
     case p of
       Inl _ \<Rightarrow> ret ()
     | Inr parent \<Rightarrow> modify (addChild parent imgID))"

definition restore :: "('l, 'f) imageEnv \<Rightarrow> ('l, 'f, unit) isM" where
  "restore env =
     seq (onFs (bk_Walk env)) (\<lambda>ids.
     seq (forEach ids (restoreImage env)) (\<lambda>_.
     seq (gets (\<lambda>s. go_range env (map fst (is_images s)))) (\<lambda>ids'.
     forEach ids' (restoreChild env))))"

definition NewImageStore :: "('l, 'f) imageEnv \<Rightarrow> 'f \<Rightarrow> 'l \<Rightarrow> (image_err, unit) outcome \<times> ('l, 'f) imageStore" where
  "NewImageStore env fs ls = restore env \<lparr>is_ls = ls, is_images = [], is_fs = fs, is_digestSet = []\<rparr>"

text \<open>\<open>Create\<close> parses and writes the configuration before it takes the lock.\<close>

definition createWrite :: "('l, 'f) imageEnv \<Rightarrow> string \<Rightarrow> ('l, 'f, string \<times> RootFS) isM" where
  "createWrite env config =
     (case js_Unmarshal env config of
        Inl e \<Rightarrow> fail (ImgMsg e)
      | Inr img \<Rightarrow>
          (case img_RootFS img of
             None \<Rightarrow> gopanic ''nil pointer dereference''
           | Some rootfs \<Rightarrow>
               if length (filter (\<lambda>h. \<not> hi_EmptyLayer h) (img_History img)) > length (rf_DiffIDs rootfs)
               then fail (ImgMsg ''too many non-empty layers in History section'')
               else seq (onFs (bk_Set env config)) (\<lambda>dgst. ret (dgst, rootfs))))"

definition createLocked :: "('l, 'f) imageEnv \<Rightarrow> string \<Rightarrow> RootFS \<Rightarrow> ('l, 'f, string) isM" where
  "createLocked env imageID rootfs =
     seq (gets (\<lambda>s. imageOf s imageID)) (\<lambda>exists.
     if exists \<noteq> None then ret imageID else
     seq (getLayer env (ChainID (env_FromBytes env) rootfs)) (\<lambda>l.
     seq (modify (setImage imageID \<lparr>im_layer = l, im_children = []\<rparr>)) (\<lambda>_.
     seq (gets is_digestSet) (\<lambda>ds.
     case Add ds imageID of
       Inl e \<Rightarrow> seq (modify (dropImage imageID)) (\<lambda>_. fail (ImgDigest e))
     | Inr ds' \<Rightarrow> seq (modify (\<lambda>s. s\<lparr>is_digestSet := ds'\<rparr>)) (\<lambda>_. ret imageID)))))"

definition Create :: "('l, 'f) imageEnv \<Rightarrow> string \<Rightarrow> ('l, 'f, string) isM" where
  "Create env config = seq (createWrite env config) (\<lambda>(imageID, rootfs). createLocked env imageID rootfs)"

definition SearchImage :: "string \<Rightarrow> ('l, 'f, string) isM" where
  "SearchImage term =
     seq (gets is_digestSet) (\<lambda>ds.
     case Lookup ds term of
       Inl ErrDigestNotFound \<Rightarrow> fail (ImgMsg (''No such image: '' @ term))
     | Inl e \<Rightarrow> fail (ImgLookup e)
     | Inr dgst \<Rightarrow> ret dgst)"

text \<open>\<open>if parent, err := is.GetParent(id); err == nil \&\& is.images[parent] != nil\<close>, then the child is taken out.\<close>

definition leaveParent :: "('l, 'f) imageEnv \<Rightarrow> string \<Rightarrow> ('l, 'f, unit) isM" where
  "leaveParent env imgID =
     seq (tryGo (GetImageParent env imgID)) (\<lambda>p.
     case p of
       Inl _ \<Rightarrow> ret ()
     | Inr parent \<Rightarrow> modify (dropChild parent imgID))"

definition DeleteImage :: "('l, 'f) imageEnv \<Rightarrow> string \<Rightarrow> ('l, 'f, Metadata list) isM" where
  "DeleteImage env imgID =
     seq (gets (\<lambda>s. imageOf s imgID)) (\<lambda>found.
     case found of
       None \<Rightarrow> fail (ImgMsg (''unrecognized image ID '' @ imgID))
     | Some meta \<Rightarrow>
         seq (forEach (go_range env (im_children meta)) (\<lambda>c. ignore_err (onFs (bk_DeleteMetadata env c ''parent'')))) (\<lambda>_.
         seq (leaveParent env imgID) (\<lambda>_.
         seq (modify (\<lambda>s. case DigestSet.Remove (is_digestSet s) imgID of
                Inl _ \<Rightarrow> s
              | Inr ds \<Rightarrow> s\<lparr>is_digestSet := ds\<rparr>)) (\<lambda>_.
         seq (modify (dropImage imgID)) (\<lambda>_.
         seq (ignore_err (onFs (bk_Delete env imgID))) (\<lambda>_.
         case im_layer meta of
           None \<Rightarrow> ret []
         | Some l \<Rightarrow> onLs (lg_Release env l)))))))"

definition SetImageParent :: "('l, 'f) imageEnv \<Rightarrow> string \<Rightarrow> string \<Rightarrow> ('l, 'f, unit) isM" where
  "SetImageParent env imgID parent =
     seq (gets (\<lambda>s. imageOf s parent)) (\<lambda>parentMeta.
     if parentMeta = None then fail (ImgMsg (''unknown parent image ID '' @ parent)) else
     seq (leaveParent env imgID) (\<lambda>_.
     seq (modify (addChild parent imgID)) (\<lambda>_.
     onFs (bk_SetMetadata env imgID ''parent'' parent))))"

definition Children :: "('l, 'f) imageEnv \<Rightarrow> string \<Rightarrow> ('l, 'f) imageStore \<Rightarrow> string list" where
  "Children env imgID s = (case imageOf s imgID of None \<Rightarrow> [] | Some m \<Rightarrow> go_range env (im_children m))"

fun collectImages :: "('l, 'f) imageEnv \<Rightarrow> string list \<Rightarrow> (string \<times> Image) list \<Rightarrow> ('l, 'f, (string \<times> Image) list) isM" where
  "collectImages env [] images = ret images"
| "collectImages env (imgID # ids) images =
     seq (tryGo (GetImage env imgID)) (\<lambda>found.
     case found of
       Inl _ \<Rightarrow> collectImages env ids images
     | Inr img \<Rightarrow> collectImages env ids (AList.update imgID img images))"

definition imagesMap :: "('l, 'f) imageEnv \<Rightarrow> bool \<Rightarrow> ('l, 'f, (string \<times> Image) list) isM" where
  "imagesMap env all_images =
     seq (gets (\<lambda>s. filter (\<lambda>i. all_images \<or> Children env i s = []) (go_range env (map fst (is_images s))))) (\<lambda>ids.
     collectImages env ids [])"

definition Heads :: "('l, 'f) imageEnv \<Rightarrow> ('l, 'f, (string \<times> Image) list) isM" where
  "Heads env = imagesMap env False"

definition MapImages :: "('l, 'f) imageEnv \<Rightarrow> ('l, 'f, (string \<times> Image) list) isM" where
  "MapImages env = imagesMap env True"


section \<open>The invariant\<close>

definition layerOf :: "('l, 'f) imageStore \<Rightarrow> string \<Rightarrow> layerRef option" where
  "layerOf s i = Option.bind (imageOf s i) im_layer"

text \<open>The layer an image with this root file system refers to.\<close>

definition fits :: "('l, 'f) imageEnv \<Rightarrow> RootFS \<Rightarrow> layerRef option \<Rightarrow> bool" where
  "fits env rf l \<longleftrightarrow> (case l of None \<Rightarrow> ChainID (env_FromBytes env) rf = ''''
     | Some r \<Rightarrow> ro_chainID (lr_layer r) = ChainID (env_FromBytes env) rf)"

text \<open>\<open>good i config\<close>: the configuration is the one the identifier names.\<close>

definition configures :: "('l, 'f) imageEnv \<Rightarrow> (string \<Rightarrow> string \<Rightarrow> bool) \<Rightarrow> string \<Rightarrow> RootFS \<Rightarrow> bool" where
  "configures env good i rf \<longleftrightarrow>
     (\<exists>config img. good i config \<and> js_Unmarshal env config = Inr img \<and> img_RootFS img = Some rf)"

definition img_inv :: "('l, 'f) imageEnv \<Rightarrow> (string \<Rightarrow> string \<Rightarrow> bool) \<Rightarrow> ('l \<Rightarrow> bool) \<Rightarrow> (layerRef \<Rightarrow> 'l \<Rightarrow> bool) \<Rightarrow>
    ('l, 'f) imageStore \<Rightarrow> bool" where
  "img_inv env good linv holds s \<longleftrightarrow>
     linv (is_ls s) \<and> set_inv (is_digestSet s) \<and>
     (\<forall>i. imageOf s i \<noteq> None \<longleftrightarrow> i \<in> abs_set (is_digestSet s)) \<and>
     (\<forall>i r. layerOf s i = Some r \<longrightarrow> holds r (is_ls s)) \<and>
     (\<forall>i j r. layerOf s i = Some r \<longrightarrow> layerOf s j = Some r \<longrightarrow> i = j) \<and>
     (\<forall>i. imageOf s i \<noteq> None \<longrightarrow> (\<exists>rf. configures env good i rf \<and> fits env rf (layerOf s i)))"

lemma imageOf_simps [simp]:
  "imageOf (setImage i m s) j = (if j = i then Some m else imageOf s j)"
  "imageOf (dropImage i s) j = (if j = i then None else imageOf s j)"
  "imageOf (s\<lparr>is_fs := f\<rparr>) j = imageOf s j" "imageOf (s\<lparr>is_ls := l\<rparr>) j = imageOf s j" "imageOf (s\<lparr>is_digestSet := ds\<rparr>) j = imageOf s j"
  by (simp_all add: imageOf_def setImage_def dropImage_def update_conv' delete_conv')

lemma rest_simps [simp]:
  "is_ls (setImage i m s) = is_ls s" "is_fs (setImage i m s) = is_fs s" "is_digestSet (setImage i m s) = is_digestSet s"
  "is_ls (dropImage i s) = is_ls s" "is_fs (dropImage i s) = is_fs s" "is_digestSet (dropImage i s) = is_digestSet s"
  "is_ls (addChild p i s) = is_ls s" "is_fs (addChild p i s) = is_fs s" "is_digestSet (addChild p i s) = is_digestSet s"
  "is_ls (dropChild p i s) = is_ls s" "is_fs (dropChild p i s) = is_fs s" "is_digestSet (dropChild p i s) = is_digestSet s"
  by (simp_all add: setImage_def dropImage_def addChild_def dropChild_def split: option.split)

lemma child_simps [simp]:
  "imageOf (addChild p i s) j = None \<longleftrightarrow> imageOf s j = None" "layerOf (addChild p i s) j = layerOf s j"
  "imageOf (dropChild p i s) j = None \<longleftrightarrow> imageOf s j = None" "layerOf (dropChild p i s) j = layerOf s j"
  by (auto simp: addChild_def dropChild_def layerOf_def split: option.split)

lemma layerOf_simps [simp]:
  "layerOf (setImage i m s) j = (if j = i then im_layer m else layerOf s j)"
  "layerOf (dropImage i s) j = (if j = i then None else layerOf s j)"
  "layerOf (s\<lparr>is_fs := f\<rparr>) j = layerOf s j" "layerOf (s\<lparr>is_ls := l\<rparr>) j = layerOf s j" "layerOf (s\<lparr>is_digestSet := ds\<rparr>) j = layerOf s j"
  by (simp_all add: layerOf_def)

lemma img_inv_fs [simp]: "img_inv env good linv holds (s\<lparr>is_fs := f\<rparr>) = img_inv env good linv holds s"
  by (simp add: img_inv_def)

lemma img_inv_child [simp]:
  "img_inv env good linv holds (addChild p i s) = img_inv env good linv holds s"
  "img_inv env good linv holds (dropChild p i s) = img_inv env good linv holds s"
  by (auto simp: img_inv_def simp del: not_None_eq)

lemma img_inv_empty: "linv ls \<Longrightarrow> img_inv env good linv holds \<lparr>is_ls = ls, is_images = [], is_fs = fs, is_digestSet = []\<rparr>"
  by (simp add: img_inv_def set_inv_Nil imageOf_def layerOf_def abs_set_def All_def)

lemma img_inv_cong:
  assumes "\<And>i. imageOf t i = imageOf s i" and "is_ls t = is_ls s" and "is_digestSet t = is_digestSet s"
  shows "img_inv env good linv holds t = img_inv env good linv holds s"
  using assms by (simp add: img_inv_def layerOf_def)

lemma wf_entry_valid: "wf_entry e \<Longrightarrow> Validate (de_digest e) = None"
  unfolding wf_entry_def by blast

lemma abs_set_valid: "set_inv es \<Longrightarrow> i \<in> abs_set es \<Longrightarrow> Validate i = None"
  by (auto simp: abs_set_def All_def set_inv_def list_all_iff intro: wf_entry_valid)

lemma onFs_frame: "(\<And>s f. K s \<Longrightarrow> K (s\<lparr>is_fs := f\<rparr>)) \<Longrightarrow> ends K (onFs m) (\<lambda>_. K) K"
  unfolding onFs_def by (rule ends_zoom) (simp split: outcome.split)

lemma leaveParent_frame:
  "(\<And>s f. K s \<Longrightarrow> K (s\<lparr>is_fs := f\<rparr>)) \<Longrightarrow> (\<And>s p. K s \<Longrightarrow> K (dropChild p i s)) \<Longrightarrow> ends K (leaveParent env i) (\<lambda>_. K) K"
  unfolding leaveParent_def GetImageParent_def
  by (rule ends_seq [of _ _ "\<lambda>_. K"]) (auto intro!: ends_tryGo onFs_frame ends_sum ends_ret ends_modify)

lemma getLayer_images: "ends (\<lambda>s. imageOf s i = x) (getLayer env c) (\<lambda>_ s. imageOf s i = x) (\<lambda>_. True)"
  unfolding getLayer_def onLs_def
  by (auto intro!: ends_if ends_ret ends_seq [OF ends_zoom [where Q = "\<lambda>_ s. imageOf s i = x"]] split: outcome.split)

text \<open>
  What the image store relies on: the contract of the layer store, and that a configuration the
  backend returns or stores is the one its identifier names.
\<close>

locale image_client = layer_provider "lg_Get env" "lg_Release env" linv holds
  for env :: "('l, 'f) imageEnv" and linv :: "'l \<Rightarrow> bool" and holds :: "layerRef \<Rightarrow> 'l \<Rightarrow> bool" +
  fixes good :: "string \<Rightarrow> string \<Rightarrow> bool"
  assumes get_good: "bk_Get env i f = (Ret config, f') \<Longrightarrow> good i config"
    and set_good: "bk_Set env config f = (Ret i, f') \<Longrightarrow> good i config"
begin

abbreviation inv :: "('l, 'f) imageStore \<Rightarrow> bool" where "inv \<equiv> img_inv env good linv holds"

lemma onFs_inv: "ends inv (onFs m) (\<lambda>_. inv) inv"
  by (rule onFs_frame) simp

lemma leaveParent_inv: "ends inv (leaveParent env i) (\<lambda>_. inv) inv"
  by (rule leaveParent_frame) simp_all

lemma getLayer_inv:
  "ends inv (getLayer env (ChainID (env_FromBytes env) rf)) (\<lambda>l s. inv s \<and> fits env rf l \<and>
     (\<forall>r. l = Some r \<longrightarrow> holds r (is_ls s) \<and> (\<forall>i. layerOf s i \<noteq> Some r))) inv"
proof -
  let ?c = "ChainID (env_FromBytes env) rf"
  let ?Q = "\<lambda>r s. inv s \<and> ro_chainID (lr_layer r) = ?c \<and> holds r (is_ls s) \<and> (\<forall>i. layerOf s i \<noteq> Some r)"
  have "ends inv (onLs (lg_Get env ?c)) ?Q inv"
    unfolding onLs_def
  proof (rule ends_zoom)
    fix s r l assume s: "inv s" and g: "lg_Get env ?c (is_ls s) = (r, l)"
    then have lv: "linv (is_ls s)" by (simp add: img_inv_def)
    from s get_inv [OF lv g] get_keeps [OF lv g] have "inv (s\<lparr>is_ls := l\<rparr>)" by (auto simp: img_inv_def simp del: not_None_eq)
    moreover have "?Q x (s\<lparr>is_ls := l\<rparr>)" if "r = Ret x" for x
      using get_new [OF lv g [unfolded that]] get_chain [OF lv g [unfolded that]] s calculation by (auto simp: img_inv_def)
    ultimately show "case r of Ret x \<Rightarrow> ?Q x (s\<lparr>is_ls := l\<rparr>) | _ \<Rightarrow> inv (s\<lparr>is_ls := l\<rparr>)" by (cases r) auto
  qed
  then show ?thesis
    unfolding getLayer_def
    by (auto intro!: ends_if ends_ret ends_seq [of _ _ ?Q] simp: fits_def)
qed

text \<open>A new image with a new reference.\<close>

lemma add_image:
  assumes "inv s" and "Add (is_digestSet s) i = Inr ds" and "configures env good i rf" and "fits env rf l"
    and "\<forall>r. l = Some r \<longrightarrow> holds r (is_ls s) \<and> (\<forall>i. layerOf s i \<noteq> Some r)"
  shows "inv (setImage i \<lparr>im_layer = l, im_children = []\<rparr> (s\<lparr>is_digestSet := ds\<rparr>))"
proof -
  have v: "Validate i = None" using assms(2) by (auto simp: Add_def split: option.splits)
  obtain ds' where "Add (is_digestSet s) i = Inr ds'" "set_inv ds'" "abs_set ds' = insert i (abs_set (is_digestSet s))"
    using Add_ok [OF _ v, of "is_digestSet s"] assms(1) by (auto simp: img_inv_def)
  then have "set_inv ds" "abs_set ds = insert i (abs_set (is_digestSet s))" using assms(2) by auto
  then show ?thesis using assms(1,3-) unfolding img_inv_def by (auto simp del: not_None_eq)
qed

lemma createLocked_inv:
  assumes "configures env good i rf"
  shows "ends inv (createLocked env i rf) (\<lambda>_. inv) inv"
  unfolding createLocked_def
proof (rule ends_gets, rule ends_if [OF ends_ret], simp, rule ends_seq)
  fix x :: "imageMeta option" assume x: "\<not> x \<noteq> None"
  let ?Q = "\<lambda>l s. (inv s \<and> fits env rf l \<and> (\<forall>r. l = Some r \<longrightarrow> holds r (is_ls s) \<and> (\<forall>i. layerOf s i \<noteq> Some r))) \<and> imageOf s i = None"
  show "ends (\<lambda>s. inv s \<and> imageOf s i = x) (getLayer env (ChainID (env_FromBytes env) rf)) ?Q inv"
    by (rule ends_weaken [OF ends_conj [OF getLayer_inv getLayer_images [of i None]]]) (use x in auto)
  fix l
  have drop: "img_inv env good linv holds (dropImage i (setImage i m s)) = inv s" if "imageOf s i = None" for m s
    by (rule img_inv_cong) (use that in simp_all)
  have swap: "(setImage i m s)\<lparr>is_digestSet := ds\<rparr> = setImage i m (s\<lparr>is_digestSet := ds\<rparr>)" for m s ds
    by (simp add: setImage_def)
  show "ends (?Q l) (seq (modify (setImage i \<lparr>im_layer = l, im_children = []\<rparr>)) (\<lambda>_.
     seq (gets is_digestSet) (\<lambda>ds. case Add ds i of
       Inl e \<Rightarrow> seq (modify (dropImage i)) (\<lambda>_. fail (ImgDigest e))
     | Inr ds' \<Rightarrow> seq (modify (\<lambda>s. s\<lparr>is_digestSet := ds'\<rparr>)) (\<lambda>_. ret i)))) (\<lambda>_. inv) inv"
    by (rule endsI) (auto simp: go_defs drop swap split: sum.splits intro: add_image [OF _ _ assms])
qed

lemma createWrite_inv: "ends inv (createWrite env config) (\<lambda>(i, rf) s. inv s \<and> configures env good i rf) inv"
proof -
  have w: "ends inv (onFs (bk_Set env config)) (\<lambda>i s. inv s \<and> good i config) inv"
    unfolding onFs_def by (rule ends_zoom) (auto split: outcome.split dest: set_good)
  show ?thesis
    unfolding createWrite_def
    by (auto intro!: ends_sum ends_option ends_if ends_fail ends_gopanic ends_seq [OF w] ends_ret simp: configures_def)
qed

lemma Create_inv: "ends inv (Create env config) (\<lambda>_. inv) inv"
  unfolding Create_def
proof (rule ends_seq [OF createWrite_inv])
  fix x :: "string \<times> RootFS"
  obtain i rf where x: "x = (i, rf)" by (cases x)
  show "ends (case x of (i, rf) \<Rightarrow> \<lambda>s. inv s \<and> configures env good i rf) (case x of (i, rf) \<Rightarrow> createLocked env i rf) (\<lambda>_. inv) inv"
    unfolding x by (cases "configures env good i rf") (simp_all add: createLocked_inv, simp add: ends_def)
qed

lemma GetImage_inv:
  "ends inv (GetImage env i) (\<lambda>img s. inv s \<and> (\<exists>rf. img_RootFS img = Some rf \<and> configures env good i rf)) inv"
proof -
  have g: "ends inv (onFs (bk_Get env i)) (\<lambda>c s. inv s \<and> good i c) inv"
    unfolding onFs_def by (rule ends_zoom) (auto split: outcome.split dest: get_good)
  have p: "ends (\<lambda>s. inv s \<and> G) (tryGo (GetImageParent env i)) (\<lambda>_ s. inv s \<and> G) inv" for G
    unfolding GetImageParent_def
    by (rule ends_weaken [OF ends_const [OF ends_tryGo [OF onFs_inv]]]) auto
  show ?thesis
    unfolding GetImage_def
    by (rule ends_seq [OF g], rule ends_sum)
      (auto intro!: ends_fail ends_seq [OF p] ends_ret simp: NewFromJSON_def configures_def split: sum.splits if_splits, blast)
qed

lemma restoreImage_inv: "ends inv (restoreImage env i) (\<lambda>_. inv) inv"
proof -
  let ?G = "\<lambda>x s. inv s \<and> (\<forall>img. x = Inr img \<longrightarrow> (\<exists>rf. img_RootFS img = Some rf \<and> configures env good i rf))"
  have g: "ends inv (tryGo (GetImage env i)) ?G inv"
    by (rule ends_tryGo [OF ends_weaken [OF GetImage_inv]]) auto
  have add: "ends (\<lambda>s. inv s \<and> fits env rf l \<and> (\<forall>r. l = Some r \<longrightarrow> holds r (is_ls s) \<and> (\<forall>i. layerOf s i \<noteq> Some r)))
     (seq (gets is_digestSet) (\<lambda>ds. case Add ds i of
        Inl e \<Rightarrow> fail (ImgDigest e)
      | Inr ds' \<Rightarrow> seq (modify (\<lambda>s. s\<lparr>is_digestSet := ds'\<rparr>)) (\<lambda>_. modify (setImage i \<lparr>im_layer = l, im_children = []\<rparr>))))
     (\<lambda>_. inv) inv" if "configures env good i rf" for rf l
    by (rule endsI) (auto simp: go_defs split: sum.splits intro: add_image [OF _ _ that])
  have rest: "ends (?G (Inr img)) (case img_RootFS img of None \<Rightarrow> gopanic m
     | Some rf \<Rightarrow> seq (getLayer env (ChainID (env_FromBytes env) rf)) (\<lambda>l.
         seq (gets is_digestSet) (\<lambda>ds. case Add ds i of
           Inl e \<Rightarrow> fail (ImgDigest e)
         | Inr ds' \<Rightarrow> seq (modify (\<lambda>s. s\<lparr>is_digestSet := ds'\<rparr>)) (\<lambda>_. modify (setImage i \<lparr>im_layer = l, im_children = []\<rparr>)))))
     (\<lambda>_. inv) inv" for img m
    by (cases "\<exists>rf. img_RootFS img = Some rf \<and> configures env good i rf")
      (auto intro!: ends_seq [OF getLayer_inv add], auto simp: ends_def)
  show ?thesis
    unfolding restoreImage_def
    by (rule ends_seq [OF g], rule ends_sum) (auto intro: ends_ret ends_weaken [OF rest])
qed

lemma restore_inv: "ends inv (restore env) (\<lambda>_. inv) inv"
proof -
  have child: "ends inv (restoreChild env i) (\<lambda>_. inv) inv" for i
    unfolding restoreChild_def GetImageParent_def
    by (rule ends_seq [of _ _ "\<lambda>_. inv"]) (auto intro!: ends_tryGo onFs_inv ends_sum ends_ret ends_modify)
  show ?thesis
    unfolding restore_def
    by (rule ends_seq [OF onFs_inv], rule ends_seq [OF ends_forEach [OF restoreImage_inv]], rule ends_gets)
      (auto intro: ends_weaken [OF ends_forEach [OF child]])
qed

lemma SetImageParent_inv: "ends inv (SetImageParent env i p) (\<lambda>_. inv) inv"
  unfolding SetImageParent_def
  by (rule ends_gets, rule ends_if) (auto intro!: ends_fail ends_seq [OF ends_weaken [OF leaveParent_inv]] ends_seq [of inv _ "\<lambda>_. inv"] ends_modify onFs_inv)

text \<open>The table without an image that is being deleted; its reference is still held.\<close>

lemma drop_image:
  assumes "inv s"
  shows "inv (dropImage i (case DigestSet.Remove (is_digestSet s) i of Inl _ \<Rightarrow> s | Inr ds \<Rightarrow> s\<lparr>is_digestSet := ds\<rparr>))"
proof (cases "Validate i")
  case None
  obtain ds where "DigestSet.Remove (is_digestSet s) i = Inr ds" "set_inv ds" "abs_set ds = abs_set (is_digestSet s) - {i}"
    using Remove_ok [OF _ None, of "is_digestSet s"] assms by (auto simp: img_inv_def)
  then show ?thesis using assms by (auto simp: img_inv_def simp del: not_None_eq)
next
  case (Some e)
  have "i \<notin> abs_set (is_digestSet s)"
    using abs_set_valid [of "is_digestSet s" i] assms Some unfolding img_inv_def by auto
  then have "imageOf s i = None" using assms unfolding img_inv_def by blast
  moreover have "DigestSet.Remove (is_digestSet s) i = Inl e" using Some by (simp add: DigestSet.Remove_def)
  ultimately show ?thesis using assms by (simp add: img_inv_cong [of "dropImage i s" s])
qed

lemma Release_image:
  "ends (\<lambda>s. inv s \<and> holds r (is_ls s) \<and> (\<forall>j. layerOf s j \<noteq> Some r)) (onLs (lg_Release env r)) (\<lambda>_. inv) inv"
  unfolding onLs_def
proof (rule ends_zoom)
  fix s q l assume s: "inv s \<and> holds r (is_ls s) \<and> (\<forall>j. layerOf s j \<noteq> Some r)" and g: "lg_Release env r (is_ls s) = (q, l)"
  then have lv: "linv (is_ls s)" by (simp add: img_inv_def)
  have "holds y l" if "layerOf s i = Some y" for i y
  proof (rule release_keeps [OF lv _ g])
    show "holds r (is_ls s)" "y \<noteq> r" using s that by auto
    show "holds y (is_ls s)" using s that unfolding img_inv_def by blast
  qed
  then have "inv (s\<lparr>is_ls := l\<rparr>)" using s release_inv [OF lv g] by (auto simp: img_inv_def simp del: not_None_eq)
  then show "case q of Ret x \<Rightarrow> inv (s\<lparr>is_ls := l\<rparr>) | _ \<Rightarrow> inv (s\<lparr>is_ls := l\<rparr>)" by (simp split: outcome.split)
qed

lemma DeleteImage_inv: "ends inv (DeleteImage env i) (\<lambda>_. inv) inv"
  unfolding DeleteImage_def modify_modify
proof (rule ends_gets, rule ends_option [OF ends_fail], simp)
  fix found :: "imageMeta option" and meta :: imageMeta assume "found = Some meta"
  let ?l = "im_layer meta"
  let ?K = "\<lambda>s. inv s \<and> layerOf s i = ?l"
  let ?R = "\<lambda>s. inv s \<and> (\<forall>r. ?l = Some r \<longrightarrow> holds r (is_ls s) \<and> (\<forall>j. layerOf s j \<noteq> Some r))"
  let ?cut = "\<lambda>s. dropImage i (case DigestSet.Remove (is_digestSet s) i of Inl _ \<Rightarrow> s | Inr ds \<Rightarrow> s\<lparr>is_digestSet := ds\<rparr>)"
  have loop: "ends ?K (forEach cs (\<lambda>c. ignore_err (onFs (bk_DeleteMetadata env c ''parent'')))) (\<lambda>_. ?K) inv" for cs
    by (rule ends_weaken [OF ends_forEach [of cs ?K _ ?K]], rule ends_ignore_err [OF onFs_frame]) auto
  have leave: "ends ?K (leaveParent env i) (\<lambda>_. ?K) inv"
    by (rule ends_weaken [OF leaveParent_frame [of ?K]]) auto
  have cut: "ends ?K (modify ?cut) (\<lambda>_. ?R) inv"
  proof (rule ends_modify)
    fix s assume s: "?K s"
    have ls: "is_ls (?cut s) = is_ls s" and lo: "layerOf (?cut s) j = (if j = i then None else layerOf s j)" for j
      by (simp_all split: sum.split)
    have "holds r (is_ls s) \<and> (layerOf s j = Some r \<longrightarrow> j = i)" if "?l = Some r" for r j
    proof -
      have "layerOf s i = Some r" using s that by simp
      then show ?thesis using s unfolding img_inv_def by blast
    qed
    then show "?R (?cut s)" using drop_image [of s i] s unfolding ls lo by auto
  qed
  have del: "ends ?R (ignore_err (onFs m)) (\<lambda>_. ?R) inv" for m :: "('f, os_err, unit) go"
    by (rule ends_weaken [OF ends_ignore_err [OF onFs_frame [of ?R]]]) auto
  have rel: "ends ?R (case ?l of None \<Rightarrow> ret [] | Some l \<Rightarrow> onLs (lg_Release env l)) (\<lambda>_. inv) inv"
    by (rule ends_option) (auto intro!: ends_ret ends_weaken [OF Release_image])
  show "ends (\<lambda>s. inv s \<and> imageOf s i = found)
     (seq (forEach (go_range env (im_children meta)) (\<lambda>c. ignore_err (onFs (bk_DeleteMetadata env c ''parent'')))) (\<lambda>_.
      seq (leaveParent env i) (\<lambda>_. seq (modify ?cut) (\<lambda>_. seq (ignore_err (onFs (bk_Delete env i))) (\<lambda>_.
      case ?l of None \<Rightarrow> ret [] | Some l \<Rightarrow> onLs (lg_Release env l)))))) (\<lambda>_. inv) inv"
    by (rule ends_weaken [OF ends_seq [OF loop ends_seq [OF leave ends_seq [OF cut ends_seq [OF del rel]]]]])
      (simp_all add: layerOf_def \<open>found = Some meta\<close>)
qed

end


section \<open>The daemon's image store\<close>

text \<open>The store on the image files and the layer store, as the daemon sets it up.\<close>

definition daemonEnv :: "(string \<Rightarrow> string) \<Rightarrow> path \<Rightarrow> ('d, 'm, 't) lenv \<Rightarrow> (string \<Rightarrow> string + Image) \<Rightarrow>
    (string list \<Rightarrow> string list) \<Rightarrow> (('d, 'm) layerStore, filesys) imageEnv" where
  "daemonEnv h root lenv um rng =
     \<lparr>bk_Walk = WalkIDs root, bk_Get = fsGet h root, bk_Set = fsSet h root, bk_Delete = fsDelete root,
      bk_SetMetadata = fsSetMetadata h root, bk_GetMetadata = fsGetMetadata h root,
      bk_DeleteMetadata = fsDeleteMetadata root, lg_Get = LayerStore.Get, lg_Release = Release lenv,
      js_Unmarshal = um, env_FromBytes = h, go_range = rng\<rparr>"

lemma daemonEnv_simps [simp]:
  "bk_Walk (daemonEnv h root lenv um rng) = WalkIDs root" "bk_Get (daemonEnv h root lenv um rng) = fsGet h root"
  "bk_Set (daemonEnv h root lenv um rng) = fsSet h root" "bk_Delete (daemonEnv h root lenv um rng) = fsDelete root"
  "bk_SetMetadata (daemonEnv h root lenv um rng) = fsSetMetadata h root"
  "bk_GetMetadata (daemonEnv h root lenv um rng) = fsGetMetadata h root"
  "bk_DeleteMetadata (daemonEnv h root lenv um rng) = fsDeleteMetadata root"
  "lg_Get (daemonEnv h root lenv um rng) = LayerStore.Get" "lg_Release (daemonEnv h root lenv um rng) = Release lenv"
  "js_Unmarshal (daemonEnv h root lenv um rng) = um" "env_FromBytes (daemonEnv h root lenv um rng) = h"
  "go_range (daemonEnv h root lenv um rng) = rng"
  by (simp_all add: daemonEnv_def)

lemma fsGet_good: "fsGet h root i f = (Ret config, f') \<Longrightarrow> h config = i"
  by (auto simp: fsGet_def seq_Ret_iff ret_def fail_def split: if_splits)

lemma fsSet_good: "fsSet h root config f = (Ret i, f') \<Longrightarrow> h config = i"
  by (auto simp: fsSet_def seq_Ret_iff ret_def fail_def split: if_splits)

interpretation daemon: image_client "daemonEnv h root lenv um rng" "ls_inv (\<lambda>_. 0)" held "\<lambda>i config. h config = i"
proof (intro image_client.intro image_client_axioms.intro)
  show "layer_provider (lg_Get (daemonEnv h root lenv um rng)) (lg_Release (daemonEnv h root lenv um rng)) (ls_inv (\<lambda>_. 0)) held"
    using layers.layer_provider_axioms [of lenv] by simp
qed (simp_all add: fsGet_good fsSet_good)

text \<open>
  Requests run interleaved. A \<open>Create\<close> has two steps, the writing of the configuration and the part
  under the lock; the second component of the state holds the creations between the two. The other
  operations run under the lock. Other clients use the layer store at any time; they do not release
  references that images hold.
\<close>

type_synonym ('d, 'm) daemonState = "(('d, 'm) layerStore, filesys) imageStore \<times> (string \<times> RootFS) list"

inductive image_step :: "(('d, 'm) layerStore, filesys) imageEnv \<Rightarrow> ('d, 'm, 't) lenv \<Rightarrow>
    ('d, 'm) daemonState \<Rightarrow> ('d, 'm) daemonState \<Rightarrow> bool" for env lenv where
  wrote: "createWrite env config s = (Ret c, t) \<Longrightarrow> image_step env lenv (s, cs) (t, c # cs)"
| write_err: "createWrite env config s = (r, t) \<Longrightarrow> (\<And>c. r \<noteq> Ret c) \<Longrightarrow> image_step env lenv (s, cs) (t, cs)"
| finish: "(i, rf) \<in> set cs \<Longrightarrow> createLocked env i rf s = (r, t) \<Longrightarrow> image_step env lenv (s, cs) (t, remove1 (i, rf) cs)"
| delete: "DeleteImage env i s = (r, t) \<Longrightarrow> image_step env lenv (s, cs) (t, cs)"
| set_parent: "SetImageParent env i p s = (r, t) \<Longrightarrow> image_step env lenv (s, cs) (t, cs)"
| layers: "lsStep lenv op (is_ls s) = (r, l) \<Longrightarrow> (\<And>i x. layerOf s i = Some x \<Longrightarrow> \<not> releases x op) \<Longrightarrow>
    image_step env lenv (s, cs) (s\<lparr>is_ls := l\<rparr>, cs)"

inductive_cases image_stepE: "image_step env lenv (s, cs) (t, ds)"

definition steady :: "(string \<Rightarrow> string) \<Rightarrow> path \<Rightarrow> ('d, 'm, 't) lenv \<Rightarrow> (string \<Rightarrow> string + Image) \<Rightarrow>
    (string list \<Rightarrow> string list) \<Rightarrow> ('d, 'm) daemonState \<Rightarrow> bool" where
  "steady h root lenv um rng x \<longleftrightarrow>
     img_inv (daemonEnv h root lenv um rng) (\<lambda>i config. h config = i) (ls_inv (\<lambda>_. 0)) held (fst x) \<and>
     (\<forall>(i, rf) \<in> set (snd x). configures (daemonEnv h root lenv um rng) (\<lambda>i config. h config = i) i rf)"

lemma layers_step:
  assumes "img_inv env good (ls_inv (\<lambda>_. 0)) held s" and "lsStep lenv op (is_ls s) = (r, l)"
    and "\<And>i x. layerOf s i = Some x \<Longrightarrow> \<not> releases x op"
  shows "img_inv env good (ls_inv (\<lambda>_. 0)) held (s\<lparr>is_ls := l\<rparr>)"
proof -
  have lv: "ls_inv (\<lambda>_. 0) (is_ls s)" using assms(1) by (simp add: img_inv_def)
  have "held x l" if "layerOf s i = Some x" for i x
  proof -
    have "held x (is_ls s)" using assms(1) that unfolding img_inv_def by blast
    then have "holding x (\<lambda>_. 0) l"
      using triple_any [OF lsStep_held [OF assms(3) [OF that], where pend = "\<lambda>_. 0"] _ assms(2)] lv by (simp add: holding_def)
    then show ?thesis by (simp add: holding_def)
  qed
  moreover have "ls_inv (\<lambda>_. 0) l" using triple_any [OF lsStep_inv lv assms(2)] .
  ultimately show ?thesis using assms(1) by (auto simp: img_inv_def simp del: not_None_eq)
qed

lemma steady_step:
  assumes "image_step (daemonEnv h root lenv um rng) lenv x y" and "steady h root lenv um rng x"
  shows "steady h root lenv um rng y"
  using assms
proof (induction rule: image_step.induct)
  case (wrote config s c t cs)
  from endsD [OF daemon.createWrite_inv _ wrote(1)] wrote(2) show ?case by (auto simp: steady_def)
next
  case (write_err config s r t cs)
  from endsD [OF daemon.createWrite_inv _ write_err(1)] write_err(2,3) show ?case by (cases r) (auto simp: steady_def)
next
  case (finish i rf cs s r t)
  then have "configures (daemonEnv h root lenv um rng) (\<lambda>i config. h config = i) i rf" by (auto simp: steady_def)
  from ends_any [OF daemon.createLocked_inv [OF this] _ finish(2)] finish(3) show ?case
    by (auto simp: steady_def dest: notin_set_remove1 [THEN contrapos_nn] set_remove1_subset [THEN subsetD])
next
  case (delete i s r t cs)
  from ends_any [OF daemon.DeleteImage_inv _ delete(1)] delete(2) show ?case by (simp add: steady_def)
next
  case (set_parent i p s r t cs)
  from ends_any [OF daemon.SetImageParent_inv _ set_parent(1)] set_parent(2) show ?case by (simp add: steady_def)
next
  case (layers op s r l cs)
  from layers_step [OF _ layers(1,2)] layers(3) show ?case by (simp add: steady_def)
qed

lemma steady_reachable:
  assumes "(image_step (daemonEnv h root lenv um rng) lenv)\<^sup>*\<^sup>* x y" and "steady h root lenv um rng x"
  shows "steady h root lenv um rng y"
  using assms by (induction rule: rtranclp_induct) (auto intro: steady_step)

text \<open>
  C31. The layers of the images stay in the layer store: start the image store on any files and any
  consistent layer store, and run any interleaving of creations, deletions, changes of parents and
  other clients' calls to the layer store, failing ones included. Then the layer of every image is in
  the layer store and held by a reference that no other image has, it is the layer that the
  configuration of the image names, and the images that can be searched are exactly those in the table.
\<close>

theorem image_layers_stay_held:
  assumes "NewImageStore (daemonEnv h root lenv um rng) fs ls = (r, s)" and "ls_inv (\<lambda>_. 0) ls"
    and "(image_step (daemonEnv h root lenv um rng) lenv)\<^sup>*\<^sup>* (s, []) (t, cs)"
  shows "ls_inv (\<lambda>_. 0) (is_ls t) \<and>
    (\<forall>i m. imageOf t i = Some m \<longrightarrow>
       (\<exists>config img rf. h config = i \<and> um config = Inr img \<and> img_RootFS img = Some rf \<and>
         (case im_layer m of
            None \<Rightarrow> CreateChainID h (rf_DiffIDs rf) = ''''
          | Some x \<Rightarrow> held x (is_ls t) \<and> ro_chainID (lr_layer x) = CreateChainID h (rf_DiffIDs rf) \<and>
              (\<forall>j. layerOf t j = Some x \<longrightarrow> j = i)))) \<and>
    set (All (is_digestSet t)) = {i. imageOf t i \<noteq> None}"
proof -
  let ?env = "daemonEnv h root lenv um rng"
  have "steady h root lenv um rng (s, [])"
    using ends_any [OF daemon.restore_inv img_inv_empty assms(1) [unfolded NewImageStore_def]] assms(2) by (simp add: steady_def)
  from steady_reachable [OF assms(3) this]
  have inv: "img_inv ?env (\<lambda>i config. h config = i) (ls_inv (\<lambda>_. 0)) held t" by (simp add: steady_def)
  have "\<exists>config img rf. h config = i \<and> um config = Inr img \<and> img_RootFS img = Some rf \<and>
         (case im_layer m of
            None \<Rightarrow> CreateChainID h (rf_DiffIDs rf) = ''''
          | Some x \<Rightarrow> held x (is_ls t) \<and> ro_chainID (lr_layer x) = CreateChainID h (rf_DiffIDs rf) \<and>
              (\<forall>j. layerOf t j = Some x \<longrightarrow> j = i))" if img: "imageOf t i = Some m" for i m
  proof -
    have l: "layerOf t i = im_layer m" using img by (simp add: layerOf_def)
    obtain rf where rf: "configures ?env (\<lambda>i config. h config = i) i rf" "fits ?env rf (layerOf t i)"
      using inv img unfolding img_inv_def by blast
    have "held x (is_ls t)" "\<And>j. layerOf t j = Some x \<Longrightarrow> j = i" if "layerOf t i = Some x" for x
      using inv that unfolding img_inv_def by blast+
    with rf show ?thesis
      by (cases "im_layer m") (auto simp: configures_def fits_def ChainID_def l)
  qed
  moreover have "set (All (is_digestSet t)) = {i. imageOf t i \<noteq> None}"
    using inv unfolding img_inv_def abs_set_def by blast
  ultimately show ?thesis using inv unfolding img_inv_def by blast
qed


text \<open>One image on the layer \<open>dx\<close> of the demonstration layer store.\<close>

definition demo_config :: Config where
  "demo_config = \<lparr>cc_Hostname = '''', cc_Domainname = '''', cc_User = '''', cc_AttachStdin = False, cc_AttachStdout = False,
     cc_AttachStderr = False, cc_ExposedPorts = {}, cc_Tty = False, cc_OpenStdin = False, cc_StdinOnce = False, cc_Env = [],
     cc_Cmd = [], cc_Healthcheck = None, cc_ArgsEscaped = False, cc_Image = '''', cc_Volumes = {}, cc_WorkingDir = '''',
     cc_Entrypoint = [], cc_NetworkDisabled = False, cc_MacAddress = '''', cc_OnBuild = [], cc_Labels = Map.empty,
     cc_StopSignal = '''', cc_StopTimeout = None, cc_Shell = []\<rparr>"

definition demo_v1 :: V1Image where
  "demo_v1 = \<lparr>v1_ID = '''', v1_Parent = '''', v1_Comment = '''', v1_Created = 0, v1_Container = '''',
     v1_ContainerConfig = demo_config, v1_DockerVersion = '''', v1_Author = '''', v1_Config = None, v1_Architecture = '''',
     v1_OS = '''', v1_Size = 0\<rparr>"

definition demo_image :: Image where
  "demo_image = \<lparr>img_V1Image = demo_v1, img_Parent = '''', img_RootFS = Some (AppendDiff NewRootFS ''dx''), img_History = [], img_OSVersion = '''',
     img_OSFeatures = [], img_rawJSON = '''', img_computedID = ''''\<rparr>"

abbreviation demo_id :: string where "demo_id \<equiv> demo_dgst CHR ''a''"

definition demo_img_env :: "((unit, unit) layerStore, filesys) imageEnv" where
  "demo_img_env = daemonEnv (\<lambda>_. demo_id) [] demo_env (\<lambda>_. Inr demo_image) (\<lambda>xs. xs)"

definition demo_images :: "((unit, unit) layerStore, filesys) imageStore" where
  "demo_images = \<lparr>is_ls = demo_store, is_images = [], is_fs = demo_img_fs, is_digestSet = []\<rparr>"

lemma demo_new: "NewImageStore demo_img_env demo_img_fs demo_store = (Ret (), demo_images)"
proof -
  have "WalkIDs [] demo_img_fs = (Ret [], demo_img_fs)"
    by (simp add: WalkIDs_def Join_plain ReadDir_def demo_img_fs_def demo_fs_def look_def childNames_def go_defs)
  then have "NewImageStore demo_img_env demo_img_fs ls = (Ret (), \<lparr>is_ls = ls, is_images = [], is_fs = demo_img_fs, is_digestSet = []\<rparr>)" for ls
    by (simp add: NewImageStore_def restore_def demo_img_env_def onFs_def zoom_def go_defs)
  then show ?thesis by (simp only: demo_images_def)
qed

lemma demo_create:
  "\<exists>t x. createWrite demo_img_env ''x'' demo_images = (Ret (demo_id, AppendDiff NewRootFS ''dx''), t) \<and>
     (\<exists>u. createLocked demo_img_env demo_id (AppendDiff NewRootFS ''dx'') t = (Ret demo_id, u) \<and>
       imageOf u demo_id = Some \<lparr>im_layer = Some x, im_children = []\<rparr>)"
proof -
  define ls where "ls = demo_store"
  have start: "demo_images = \<lparr>is_ls = ls, is_images = [], is_fs = demo_img_fs, is_digestSet = []\<rparr>"
    by (simp only: demo_images_def ls_def)
  obtain fs' where "fsSet (\<lambda>_. demo_id) [] ''x'' demo_img_fs = (Ret demo_id, fs')"
    using demo_image_set by (auto simp: seq_Ret_iff fsSet_def ret_def)
  then have w: "createWrite demo_img_env ''x'' demo_images = (Ret (demo_id, AppendDiff NewRootFS ''dx''), demo_images\<lparr>is_fs := fs'\<rparr>)"
    by (simp add: createWrite_def demo_img_env_def demo_image_def onFs_def zoom_def go_defs start)
  obtain ds where "Add [] demo_id = Inr ds" using Add_ok [OF set_inv_Nil demo_dgst_valid] by blast
  moreover obtain x l where "LayerStore.Get ''dx'' ls = (Ret x, l)"
    using demo_layers(1) [folded ls_def] by (auto simp: Get_def getWithoutLock_def getReference_def go_defs)
  moreover have "ChainID h (AppendDiff NewRootFS ''dx'') = ''dx''" for h
    by (simp add: ChainID_def AppendDiff_def NewRootFS_def CreateChainID_def)
  ultimately have "\<exists>u. createLocked demo_img_env demo_id (AppendDiff NewRootFS ''dx'') (demo_images\<lparr>is_fs := fs'\<rparr>) = (Ret demo_id, u) \<and>
      imageOf u demo_id = Some \<lparr>im_layer = Some x, im_children = []\<rparr>"
    by (simp add: createLocked_def getLayer_def onLs_def zoom_def go_defs demo_img_env_def start imageOf_def setImage_def)
  with w show ?thesis by blast
qed

theorem image_layers_stay_held_witness:
  "\<exists>t x. (image_step demo_img_env demo_env)\<^sup>*\<^sup>* (demo_images, []) (t, []) \<and> layerOf t demo_id = Some x \<and> held x (is_ls t)"
proof -
  obtain t x u where t: "createWrite demo_img_env ''x'' demo_images = (Ret (demo_id, AppendDiff NewRootFS ''dx''), t)"
      "createLocked demo_img_env demo_id (AppendDiff NewRootFS ''dx'') t = (Ret demo_id, u)"
      "imageOf u demo_id = Some \<lparr>im_layer = Some x, im_children = []\<rparr>"
    using demo_create by blast
  have "image_step demo_img_env demo_env (t, [(demo_id, AppendDiff NewRootFS ''dx'')]) (u, [])"
    using image_step.finish [OF _ t(2), of "[(demo_id, AppendDiff NewRootFS ''dx'')]" demo_env] by simp
  with image_step.wrote [OF t(1), of demo_env "[]"]
  have run: "(image_step demo_img_env demo_env)\<^sup>*\<^sup>* (demo_images, []) (u, [])" by simp
  have "held x (is_ls u)"
    using image_layers_stay_held [OF demo_new [unfolded demo_img_env_def] demo_inv run [unfolded demo_img_env_def],
        THEN conjunct2, THEN conjunct1, rule_format, OF t(3)] by auto
  moreover have "layerOf u demo_id = Some x" using t(3) by (simp add: layerOf_def)
  ultimately show ?thesis using run by blast
qed

end
