(* ===== verification/ImageTree.thy ===== *)
theory ImageTree
  imports ImageStore
begin

text \<open>
  The image store and its files together: what can be read back after \<open>Create\<close>, the parents recorded
  on disk against the children kept in memory, and what a failed \<open>Create\<close> or \<open>SetParent\<close> leaves behind.
  The contract \<open>image_backend\<close> says what a backend on a disk without faults does to its contents.
\<close>

section \<open>A disk without faults\<close>

definition keeps_disk :: "'a fsM \<Rightarrow> bool" where
  "keeps_disk m \<longleftrightarrow> (\<forall>f r f'. m f = (r, f') \<longrightarrow> fs_fault f' = fs_fault f \<and> fs_unreadable f' = fs_unreadable f)"

named_theorems disk_intros

lemma keeps_diskD: "keeps_disk m \<Longrightarrow> m f = (r, f') \<Longrightarrow> fs_fault f' = fs_fault f \<and> fs_unreadable f' = fs_unreadable f"
  by (simp add: keeps_disk_def)

lemma keeps_disk_snd: "keeps_disk m \<Longrightarrow> fs_fault (snd (m f)) = fs_fault f \<and> fs_unreadable (snd (m f)) = fs_unreadable f"
  by (cases "m f") (simp add: keeps_disk_def)

lemma disk_attempt: "keeps_disk (attempt partly act)"
  by (auto simp: keeps_disk_def attempt_def Let_def split: option.splits sum.splits)

lemma disk_calls [disk_intros]:
  "keeps_disk (MkdirAll p)" "keeps_disk (RemoveAll p)" "keeps_disk (GoFS.Remove p)" "keeps_disk (Rename p q)" "keeps_disk touch"
  "keeps_disk (atomicWrite p s)"
  unfolding MkdirAll_def RemoveAll_def GoFS.Remove_def Rename_def touch_def atomicWrite_def by (rule disk_attempt)+

lemma disk_pure [disk_intros]: "keeps_disk (ret x)" "keeps_disk (fail e)" "keeps_disk (gopanic m)" "keeps_disk (ReadFile p)"
  by (auto simp: keeps_disk_def ret_def fail_def gopanic_def ReadFile_def split: option.splits node.splits if_splits)

lemma disk_seq [disk_intros]:
  assumes "keeps_disk m" and "\<And>x. keeps_disk (f x)"
  shows "keeps_disk (seq m f)"
  using assms unfolding keeps_disk_def seq_def
  by (auto split: prod.splits outcome.splits)

lemma disk_if [disk_intros]: "keeps_disk m \<Longrightarrow> keeps_disk n \<Longrightarrow> keeps_disk (if b then m else n)"
  by simp

lemma disk_defer_err [disk_intros]:
  assumes "keeps_disk c" and "keeps_disk m"
  shows "keeps_disk (defer_err c m)"
  unfolding keeps_disk_def
proof (intro allI impI)
  fix f r f' assume a: "defer_err c m f = (r, f')"
  obtain r1 f1 where 1: "m f = (r1, f1)" by (metis surj_pair)
  obtain r2 f2 where 2: "c f1 = (r2, f2)" by (metis surj_pair)
  have "f' = f1 \<or> f' = f2" using a 1 2 by (auto simp: defer_err_def split: outcome.splits)
  then show "fs_fault f' = fs_fault f \<and> fs_unreadable f' = fs_unreadable f"
    using keeps_diskD [OF assms(2) 1] keeps_diskD [OF assms(1) 2] by auto
qed

lemma disk_TempFile [disk_intros]: "keeps_disk (TempFile d p)"
  unfolding keeps_disk_def TempFile_def newNode_def using keeps_diskD [OF disk_attempt] by blast

lemma disk_atomicClose [disk_intros]: "keeps_disk (atomicClose tmp fn w)"
  unfolding keeps_disk_def
proof (intro allI impI)
  fix f r f' assume a: "atomicClose tmp fn w f = (r, f')"
  obtain q g where 1: "atomicCloseBody tmp fn w f = (q, g)" by (metis surj_pair)
  have "keeps_disk (atomicCloseBody tmp fn w)" unfolding atomicCloseBody_def by (intro disk_intros)
  from keeps_diskD [OF this 1] keeps_disk_snd [OF disk_calls(3), of tmp g] a 1
  show "fs_fault f' = fs_fault f \<and> fs_unreadable f' = fs_unreadable f" by (auto simp: atomicClose_def split: if_splits)
qed

lemma disk_AtomicWriteFile [disk_intros]: "keeps_disk (AtomicWriteFile fn dt)"
  unfolding AtomicWriteFile_def NewAtomicFileWriter_def
proof (rule disk_seq [OF disk_TempFile])
  fix tmp
  let ?m = "\<lambda>fs. case atomicWrite tmp dt fs of (Ret x, fs) \<Rightarrow> atomicClose tmp fn False fs
     | (Fail e, fs) \<Rightarrow> (Fail e, snd (atomicClose tmp fn True fs)) | (Panic p, fs) \<Rightarrow> (Panic p, snd (atomicClose tmp fn True fs))"
  show "keeps_disk ?m"
    unfolding keeps_disk_def
  proof (intro allI impI)
    fix f r f' assume a: "?m f = (r, f')"
    obtain q g where 1: "atomicWrite tmp dt f = (q, g)" by (metis surj_pair)
    show "fs_fault f' = fs_fault f \<and> fs_unreadable f' = fs_unreadable f"
      using a 1 keeps_diskD [OF disk_calls(6) 1] keeps_disk_snd [OF disk_atomicClose, of tmp fn True g]
      by (cases q) (auto dest: keeps_diskD [OF disk_atomicClose])
  qed
qed

lemma disk_digestPath [disk_intros]: "keeps_disk (contentFile root i)" "keeps_disk (metadataDir root i)"
  by (auto simp: contentFile_def metadataDir_def digestPath_def intro: disk_pure split: option.split)

lemma disk_image [disk_intros]:
  "keeps_disk (fsGet h root i)" "keeps_disk (fsSet h root dt)" "keeps_disk (fsDelete root i)"
  "keeps_disk (fsSetMetadata h root i k dt)" "keeps_disk (fsDeleteMetadata root i k)"
  unfolding fsGet_def fsSet_def fsDelete_def fsSetMetadata_def fsDeleteMetadata_def by (intro disk_intros)+

definition sound_disk :: "filesys \<Rightarrow> bool" where
  "sound_disk f \<longleftrightarrow> fs_ok f \<and> fs_fault f = (\<lambda>_. None) \<and> fs_unreadable f = (\<lambda>_. False)"


section \<open>The contract of the backend\<close>

abbreviation pkey :: string where "pkey \<equiv> ''parent''"

locale image_backend =
  fixes env :: "('l, 'f) imageEnv" and okf :: "'f \<Rightarrow> bool" and view :: "'f \<Rightarrow> imageView"
  assumes view_valid: "fst (view f) i \<noteq> None \<Longrightarrow> Validate i = None"
    and get_view: "okf f \<Longrightarrow> Validate i = None \<Longrightarrow> (\<exists>c. fst (view f) i = Some c \<and> bk_Get env i f = (Ret c, f)) \<or>
      (\<exists>e. fst (view f) i = None \<and> bk_Get env i f = (Fail e, f))"
    and getm_view: "okf f \<Longrightarrow> Validate i = None \<Longrightarrow>
      (\<exists>p. fst (view f) i \<noteq> None \<and> snd (view f) i pkey = Some p \<and> bk_GetMetadata env i pkey f = (Ret p, f)) \<or>
      (\<exists>e. (fst (view f) i = None \<or> snd (view f) i pkey = None) \<and> bk_GetMetadata env i pkey f = (Fail e, f))"
    and set_view: "okf f \<Longrightarrow> Validate (env_FromBytes env c) = None \<Longrightarrow> bk_Set env c f = (r, f') \<Longrightarrow> okf f' \<and>
      ((r = Ret (env_FromBytes env c) \<and> view f' = ((fst (view f))(env_FromBytes env c \<mapsto> c), snd (view f))) \<or>
       ((\<exists>e. r = Fail e) \<and> view f' = view f))"
    and setm_view: "okf f \<Longrightarrow> Validate i = None \<Longrightarrow> bk_SetMetadata env i pkey d f = (r', f') \<Longrightarrow> okf f' \<and>
      ((r' = Ret () \<and> fst (view f) i \<noteq> None \<and> view f' = (fst (view f), (snd (view f))(i := (snd (view f) i)(pkey \<mapsto> d)))) \<or>
       ((\<exists>e. r' = Fail e) \<and> view f' = view f))"
    and delm_view: "okf f \<Longrightarrow> Validate i = None \<Longrightarrow> \<exists>f'. bk_DeleteMetadata env i pkey f = (Ret (), f') \<and> okf f' \<and>
      view f' = (fst (view f), (snd (view f))(i := (snd (view f) i)(pkey := None)))"
    and del_view: "okf f \<Longrightarrow> fst (view f) i \<noteq> None \<Longrightarrow> \<exists>f'. bk_Delete env i f = (Ret (), f') \<and> okf f' \<and>
      view f' = ((fst (view f))(i := None), (snd (view f))(i := Map.empty))"

lemma good_parent: "good_key pkey" "plain pkey"
  by (simp_all add: good_key_def plain_def)

lemma RemoveAll_sound: "fs_fault f = (\<lambda>_. None) \<Longrightarrow> \<exists>f'. RemoveAll p f = (Ret (), f')"
  by (simp add: RemoveAll_def attempt_def Let_def)

lemma view_content: "fst (imageViewOf h root f) i = Some c \<longleftrightarrow>
    Validate i = None \<and> look (fs_entries f) (contentAt root i) = Some (File c) \<and> h c = i"
  by (auto simp: imageViewOf_def fileAt_def bind_eq_Some_conv split: option.splits node.splits if_splits)

lemma view_meta: "Validate i = None \<Longrightarrow> good_key k \<Longrightarrow> snd (imageViewOf h root f) i k = Some d \<longleftrightarrow>
    look (fs_entries f) (metaAt root i @ [k]) = Some (File d)"
  by (auto simp: imageViewOf_def fileAt_def split: option.splits node.splits)

lemma fsGet_sound:
  assumes "sound_disk f" and "Validate i = None"
  shows "(\<exists>c. fst (imageViewOf h root f) i = Some c \<and> fsGet h root i f = (Ret c, f)) \<or>
    (\<exists>e. fst (imageViewOf h root f) i = None \<and> fsGet h root i f = (Fail e, f))"
  using fsGet_view [OF assms(2), of f h root] fsGet_pure [OF assms(2), of h root f] assms(1)
  by (cases "fsGet h root i f") (auto simp: sound_disk_def)

lemma fsGetMetadata_sound:
  assumes "sound_disk f" and v: "Validate i = None"
  shows "(\<exists>p. fst (imageViewOf h root f) i \<noteq> None \<and> snd (imageViewOf h root f) i pkey = Some p \<and> fsGetMetadata h root i pkey f = (Ret p, f)) \<or>
    (\<exists>e. (fst (imageViewOf h root f) i = None \<or> snd (imageViewOf h root f) i pkey = None) \<and> fsGetMetadata h root i pkey f = (Fail e, f))"
proof -
  have "fsGetMetadata h root i pkey f = seq (fsGet h root i) (\<lambda>_. ReadFile (metaAt root i @ [pkey])) f"
    by (simp add: fsGetMetadata_def paths_valid [OF v] Join_plain good_parent)
  moreover have "(\<exists>p. snd (imageViewOf h root f) i pkey = Some p \<and> ReadFile (metaAt root i @ [pkey]) f = (Ret p, f)) \<or>
      (\<exists>e. snd (imageViewOf h root f) i pkey = None \<and> ReadFile (metaAt root i @ [pkey]) f = (Fail e, f))"
    using assms(1) view_meta [OF v good_parent(1), of h root f]
    by (auto simp: ReadFile_def sound_disk_def imageViewOf_def fileAt_def split: option.split node.split)
  ultimately show ?thesis using fsGet_sound [OF assms, of h root] by (auto simp: seq_def)
qed

text \<open>The calls of the backend do not panic on a valid digest.\<close>

definition no_panic :: "'a fsM \<Rightarrow> bool" where
  "no_panic m \<longleftrightarrow> (\<forall>f r f'. m f = (r, f') \<longrightarrow> (\<nexists>p. r = Panic p))"

lemma np_attempt: "no_panic (attempt partly act)"
  unfolding no_panic_def using attempt_rest(3) by blast

lemma np_seq: "no_panic m \<Longrightarrow> (\<And>x. no_panic (f x)) \<Longrightarrow> no_panic (seq m f)"
  unfolding no_panic_def seq_def by (auto split: prod.splits outcome.splits)

lemma np_simple: "no_panic (ret x)" "no_panic (fail e)" "no_panic (ReadFile p)" "no_panic (MkdirAll p)" "no_panic (TempFile d pre)"
  by (auto simp: no_panic_def ret_def fail_def ReadFile_def MkdirAll_def TempFile_def newNode_def split: option.splits node.splits if_splits
      dest!: attempt_rest(3))

lemma np_atomicClose: "no_panic (atomicClose tmp fn w)"
  unfolding no_panic_def
proof (intro allI impI)
  fix f r f' assume a: "atomicClose tmp fn w f = (r, f')"
  obtain q g where 1: "atomicCloseBody tmp fn w f = (q, g)" by (metis surj_pair)
  then have "\<nexists>p. q = Panic p" by (cases rule: atomicCloseBody_cases) simp_all
  moreover have "r = q" using a 1 by (auto simp: atomicClose_def split: if_splits)
  ultimately show "\<nexists>p. r = Panic p" by simp
qed

lemma np_AtomicWriteFile: "no_panic (AtomicWriteFile fn dt)"
  unfolding AtomicWriteFile_def NewAtomicFileWriter_def
proof (rule np_seq [OF np_simple(5)])
  fix tmp
  show "no_panic (\<lambda>fs. case atomicWrite tmp dt fs of (Ret x, fs) \<Rightarrow> atomicClose tmp fn False fs
     | (Fail e, fs) \<Rightarrow> (Fail e, snd (atomicClose tmp fn True fs)) | (Panic p, fs) \<Rightarrow> (Panic p, snd (atomicClose tmp fn True fs)))"
    using np_atomicClose [of tmp fn False]
    unfolding no_panic_def atomicWrite_def by (auto split: prod.splits outcome.splits dest: attempt_rest(3))
qed

lemma np_image:
  "Validate (h dt) = None \<Longrightarrow> no_panic (fsSet h root dt)" "Validate i = None \<Longrightarrow> no_panic (fsSetMetadata h root i k d)"
  by (auto simp: fsSet_def fsSetMetadata_def fsGet_def paths_valid intro!: np_seq np_simple np_AtomicWriteFile)

lemma fsSet_sound:
  assumes "sound_disk f" and v: "Validate (h c) = None" and w: "fsSet h root c f = (r, f')"
  shows "sound_disk f' \<and>
      ((r = Ret (h c) \<and> imageViewOf h root f' = ((fst (imageViewOf h root f))(h c \<mapsto> c), snd (imageViewOf h root f))) \<or>
       ((\<exists>e. r = Fail e) \<and> imageViewOf h root f' = imageViewOf h root f))"
proof -
  have np: "\<nexists>p. r = Panic p" using np_image(1) [of h c root, OF v] w unfolding no_panic_def by blast
  have hc: "r = Ret i \<Longrightarrow> i = h c" for i using fsSet_good w by metis
  have run: "runImage h root (ISet c) f = ((case r of Ret _ \<Rightarrow> Ret () | Fail e \<Rightarrow> Fail e | Panic p \<Rightarrow> Panic p), f')"
    using w by (simp add: seq_def ret_def split: outcome.split)
  have ok: "fs_ok f" using assms(1) by (simp add: sound_disk_def)
  obtain V M where vm: "imageViewOf h root f = (V, M)" by (metis surj_pair)
  have "sound_disk f'" using ISet_step(1) [OF run ok v] keeps_diskD [OF disk_image(2) w] assms(1) by (simp add: sound_disk_def)
  then show ?thesis
    using ISet_step(2,3) [OF run ok v] np hc by (cases r) (auto simp: vm)
qed

lemma fsSetMetadata_sound:
  assumes "sound_disk f" and v: "Validate i = None" and w: "fsSetMetadata h root i pkey d f = (r, f')"
  shows "sound_disk f' \<and>
      ((r = Ret () \<and> fst (imageViewOf h root f) i \<noteq> None \<and>
        imageViewOf h root f' = (fst (imageViewOf h root f), (snd (imageViewOf h root f))(i := (snd (imageViewOf h root f) i)(pkey \<mapsto> d)))) \<or>
       ((\<exists>e. r = Fail e) \<and> imageViewOf h root f' = imageViewOf h root f))"
proof -
  have np: "\<nexists>p. r = Panic p" using np_image(2) [OF v] w unfolding no_panic_def by blast
  have run: "runImage h root (ISetMeta i pkey d) f = (r, f')" using w by simp
  have ok: "fs_ok f" and good: "goodOp (ISetMeta i pkey d)" using assms(1) v good_parent by (simp_all add: sound_disk_def)
  obtain V M where vm: "imageViewOf h root f = (V, M)" by (metis surj_pair)
  have "fst (imageViewOf h root f) i \<noteq> None" if "r = Ret ()"
    using fsGet_sound [OF assms(1) v, of h root] w that by (auto simp: fsSetMetadata_def seq_def)
  moreover have "sound_disk f'" using ISetMeta_step(1) [OF run ok good] keeps_diskD [OF disk_image(4) w] assms(1) by (simp add: sound_disk_def)
  ultimately show ?thesis
    using ISetMeta_step(2,3) [OF run ok good] np by (cases r) (auto simp: vm)
qed

lemma fsDeleteMetadata_sound:
  assumes "sound_disk f" and v: "Validate i = None"
  shows "\<exists>f'. fsDeleteMetadata root i pkey f = (Ret (), f') \<and> sound_disk f' \<and>
      imageViewOf h root f' = (fst (imageViewOf h root f), (snd (imageViewOf h root f))(i := (snd (imageViewOf h root f) i)(pkey := None)))"
proof -
  obtain f' where w: "fsDeleteMetadata root i pkey f = (Ret (), f')"
    using RemoveAll_sound assms(1) by (fastforce simp: fsDeleteMetadata_def paths_valid [OF v] sound_disk_def)
  then have run: "runImage h root (IDelMeta i pkey) f = (Ret (), f')" by simp
  have ok: "fs_ok f" and good: "goodOp (IDelMeta i pkey)" using assms(1) v good_parent by (simp_all add: sound_disk_def)
  obtain V M where vm: "imageViewOf h root f = (V, M)" by (metis surj_pair)
  have "sound_disk f'" using IDelMeta_step(1) [OF run ok good] keeps_diskD [OF disk_image(5) w] assms(1) by (simp add: sound_disk_def)
  then show ?thesis using IDelMeta_step(2) [OF run ok good] w by (auto simp: vm)
qed

lemma fsDelete_sound:
  assumes "sound_disk f" and c: "fst (imageViewOf h root f) i \<noteq> None"
  shows "\<exists>f'. fsDelete root i f = (Ret (), f') \<and> sound_disk f' \<and>
      imageViewOf h root f' = ((fst (imageViewOf h root f))(i := None), (snd (imageViewOf h root f))(i := Map.empty))"
proof -
  obtain x where x: "Validate i = None" "look (fs_entries f) (contentAt root i) = Some (File x)" using c view_content by blast
  obtain f1 where 1: "RemoveAll (metaAt root i) f = (Ret (), f1)" using RemoveAll_sound assms(1) by (fastforce simp: sound_disk_def)
  have "look (fs_entries f1) (contentAt root i) = Some (File x)"
    using withinD(1) [OF within_RemoveAll [OF prefix_order.refl] 1] paths_apart(2) [OF x(1) x(1)] x(2) by metis
  then have "\<exists>f'. GoFS.Remove (contentAt root i) f1 = (Ret (), f')"
    using keeps_diskD [OF disk_calls(2) 1] assms(1) by (simp add: GoFS.Remove_def attempt_def Let_def sound_disk_def)
  then obtain f' where w: "fsDelete root i f = (Ret (), f')" using 1 by (auto simp: fsDelete_def paths_valid [OF x(1)] seq_def)
  then have run: "runImage h root (IDelete i) f = (Ret (), f')" by simp
  have ok: "fs_ok f" using assms(1) by (simp add: sound_disk_def)
  obtain V M where vm: "imageViewOf h root f = (V, M)" by (metis surj_pair)
  have "sound_disk f'" using IDelete_step(1) [OF run ok x(1)] keeps_diskD [OF disk_image(3) w] assms(1) by (simp add: sound_disk_def)
  then show ?thesis using IDelete_step(2) [OF run ok x(1)] w by (auto simp: vm)
qed

interpretation files: image_backend "daemonEnv h root lenv um rng" sound_disk "imageViewOf h root"
proof (unfold_locales, goal_cases)
  case (1 f i)
  then show ?case using view_content by blast
next
  case 2
  then show ?case unfolding daemonEnv_simps by (rule fsGet_sound)
next
  case 3
  then show ?case unfolding daemonEnv_simps by (rule fsGetMetadata_sound)
next
  case 4
  then show ?case unfolding daemonEnv_simps by (rule fsSet_sound)
next
  case 5
  then show ?case unfolding daemonEnv_simps by (rule fsSetMetadata_sound)
next
  case 6
  then show ?case unfolding daemonEnv_simps by (rule fsDeleteMetadata_sound)
next
  case 7
  then show ?case unfolding daemonEnv_simps by (rule fsDelete_sound)
qed


section \<open>Parents on disk and children in memory\<close>

definition childrenOf :: "('l, 'f) imageStore \<Rightarrow> string \<Rightarrow> string set" where
  "childrenOf s p = (case imageOf s p of None \<Rightarrow> {} | Some m \<Rightarrow> set (im_children m))"

definition mirrored :: "('f \<Rightarrow> imageView) \<Rightarrow> ('l, 'f) imageStore \<Rightarrow> bool" where
  "mirrored view s \<longleftrightarrow>
     (\<forall>i. imageOf s i \<noteq> None \<longrightarrow> fst (view (is_fs s)) i \<noteq> None) \<and>
     (\<forall>i. snd (view (is_fs s)) i pkey \<noteq> None \<longrightarrow> fst (view (is_fs s)) i \<noteq> None) \<and>
     (\<forall>p. childrenOf s p = {i. snd (view (is_fs s)) i pkey = Some p})"

lemma childrenOf_simps [simp]:
  "childrenOf (s\<lparr>is_fs := f\<rparr>) p = childrenOf s p" "childrenOf (s\<lparr>is_ls := l\<rparr>) p = childrenOf s p"
  "childrenOf (s\<lparr>is_digestSet := ds\<rparr>) p = childrenOf s p"
  "childrenOf (setImage i m s) p = (if p = i then set (im_children m) else childrenOf s p)"
  "childrenOf (dropImage i s) p = (if p = i then {} else childrenOf s p)"
  "childrenOf (dropChild q i s) p = (if p = q then childrenOf s p - {i} else childrenOf s p)"
  "childrenOf (addChild q i s) p = (if p = q \<and> imageOf s q \<noteq> None then insert i (childrenOf s p) else childrenOf s p)"
  by (auto simp: childrenOf_def dropChild_def addChild_def split: option.split)

lemma mirrored_cong:
  assumes "\<And>i. imageOf t i = None \<longleftrightarrow> imageOf s i = None" and "\<And>p. childrenOf t p = childrenOf s p"
    and "view (is_fs t) = view (is_fs s)"
  shows "mirrored view t = mirrored view s"
  using assms by (simp add: mirrored_def)

context image_backend
begin

abbreviation C :: "('l, 'f) imageStore \<Rightarrow> string \<Rightarrow> string option" where "C s \<equiv> fst (view (is_fs s))"
abbreviation M :: "('l, 'f) imageStore \<Rightarrow> string \<Rightarrow> string \<Rightarrow> string option" where "M s \<equiv> snd (view (is_fs s))"
abbreviation good_store :: "('l, 'f) imageStore \<Rightarrow> bool" where "good_store s \<equiv> okf (is_fs s) \<and> mirrored view s"

lemma GetImageParent_view:
  assumes "okf (is_fs s)" and "Validate i = None"
  shows "(\<exists>p. C s i \<noteq> None \<and> M s i pkey = Some p \<and> GetImageParent env i s = (Ret p, s)) \<or>
    (\<exists>e. (C s i = None \<or> M s i pkey = None) \<and> GetImageParent env i s = (Fail e, s))"
  using getm_view [OF assms] by (auto simp: GetImageParent_def onFs_def zoom_def)

lemma leaveParent_view:
  assumes "okf (is_fs s)" and "Validate i = None"
  shows "leaveParent env i s =
    (Ret (), if C s i \<noteq> None \<and> M s i pkey \<noteq> None then dropChild (the (M s i pkey)) i s else s)"
  using GetImageParent_view [OF assms] by (auto simp: leaveParent_def tryGo_def go_defs)

lemma forget_children:
  assumes "okf (is_fs s)" and "\<forall>c\<in>set cs. Validate c = None"
  shows "\<exists>f. forEach cs (\<lambda>c. ignore_err (onFs (bk_DeleteMetadata env c pkey))) s = (Ret (), s\<lparr>is_fs := f\<rparr>) \<and> okf f \<and>
    fst (view f) = C s \<and> (\<forall>i. snd (view f) i pkey = (if i \<in> set cs then None else M s i pkey)) \<and>
    (\<forall>i k. k \<noteq> pkey \<longrightarrow> snd (view f) i k = M s i k)"
  using assms
proof (induction cs arbitrary: s)
  case Nil
  then show ?case by (auto simp: ret_def intro!: exI [of _ "is_fs s"])
next
  case (Cons c cs)
  obtain g where g: "bk_DeleteMetadata env c pkey (is_fs s) = (Ret (), g)" "okf g"
      "view g = (C s, (M s)(c := (M s c)(pkey := None)))"
    using delm_view [of "is_fs s" c] Cons.prems by auto
  obtain f where "forEach cs (\<lambda>c. ignore_err (onFs (bk_DeleteMetadata env c pkey))) (s\<lparr>is_fs := g\<rparr>) = (Ret (), s\<lparr>is_fs := f\<rparr>)" "okf f"
      "fst (view f) = C s" "\<forall>i. snd (view f) i pkey = (if i \<in> set cs then None else snd (view g) i pkey)"
      "\<forall>i k. k \<noteq> pkey \<longrightarrow> snd (view f) i k = snd (view g) i k"
    using Cons.IH [of "s\<lparr>is_fs := g\<rparr>"] Cons.prems g by auto
  moreover have "ignore_err (onFs (bk_DeleteMetadata env c pkey)) s = (Ret (), s\<lparr>is_fs := g\<rparr>)"
    using g by (simp add: ignore_err_def onFs_def zoom_def)
  ultimately show ?case using g by (auto simp: seq_def intro!: exI [of _ f])
qed

lemma createWrite_mirrored:
  assumes "Validate (env_FromBytes env config) = None"
  shows "ends good_store (createWrite env config) (\<lambda>(i, rf) s. good_store s \<and> C s i \<noteq> None) good_store"
proof -
  have "ends good_store (onFs (bk_Set env config)) (\<lambda>i s. good_store s \<and> C s i \<noteq> None) good_store"
    unfolding onFs_def
  proof (rule ends_zoom)
    fix s r f assume s: "good_store s" and w: "bk_Set env config (is_fs s) = (r, f)"
    from set_view [OF conjunct1 [OF s] assms w] s
    show "case r of Ret i \<Rightarrow> good_store (s\<lparr>is_fs := f\<rparr>) \<and> C (s\<lparr>is_fs := f\<rparr>) i \<noteq> None | _ \<Rightarrow> good_store (s\<lparr>is_fs := f\<rparr>)"
      by (auto simp: mirrored_def)
  qed
  then show ?thesis
    unfolding createWrite_def
    by (auto intro!: ends_sum ends_option ends_if ends_fail ends_gopanic ends_ret ends_seq)
qed

lemma getLayer_frame: "(\<And>s l. K s \<Longrightarrow> K (s\<lparr>is_ls := l\<rparr>)) \<Longrightarrow> ends K (getLayer env c) (\<lambda>_. K) K"
  unfolding getLayer_def onLs_def
  by (auto intro!: ends_if ends_ret ends_seq [OF ends_zoom [where Q = "\<lambda>_. K"]] split: outcome.split)

lemma createLocked_mirrored:
  "ends (\<lambda>s. good_store s \<and> C s i \<noteq> None) (createLocked env i rf) (\<lambda>_. good_store) good_store"
  unfolding createLocked_def
proof (rule ends_gets, rule ends_if [OF ends_ret], simp, rule ends_seq)
  fix x :: "imageMeta option" and l assume x: "\<not> x \<noteq> None"
  let ?K = "\<lambda>s. good_store s \<and> C s i \<noteq> None \<and> imageOf s i = None"
  show "ends (\<lambda>s. (good_store s \<and> C s i \<noteq> None) \<and> imageOf s i = x) (getLayer env (ChainID (env_FromBytes env) rf)) (\<lambda>_. ?K) good_store"
    by (rule ends_weaken [OF getLayer_frame [of ?K]]) (use x in \<open>auto simp: mirrored_def\<close>)
  have drop: "mirrored view (dropImage i (setImage i m s)) = mirrored view s" if "imageOf s i = None" for m s
    by (rule mirrored_cong) (use that in \<open>auto simp: childrenOf_def\<close>)
  have add: "mirrored view ((setImage i \<lparr>im_layer = l, im_children = []\<rparr> s)\<lparr>is_digestSet := ds\<rparr>)"
    if s: "mirrored view s" and c: "C s i \<noteq> None" and n: "imageOf s i = None" for s l ds
  proof -
    have "childrenOf s i = {}" using n by (simp add: childrenOf_def)
    then have "{j. M s j pkey = Some i} = {}" using s unfolding mirrored_def by blast
    then show ?thesis using s c by (auto simp: mirrored_def)
  qed
  show "ends ?K (seq (modify (setImage i \<lparr>im_layer = l, im_children = []\<rparr>)) (\<lambda>_.
     seq (gets is_digestSet) (\<lambda>ds. case Add ds i of
       Inl e \<Rightarrow> seq (modify (dropImage i)) (\<lambda>_. fail (ImgDigest e))
     | Inr ds' \<Rightarrow> seq (modify (\<lambda>s. s\<lparr>is_digestSet := ds'\<rparr>)) (\<lambda>_. ret i)))) (\<lambda>_. good_store) good_store"
    by (rule endsI) (auto simp: go_defs drop add split: sum.splits)
qed

lemma Create_mirrored:
  "Validate (env_FromBytes env config) = None \<Longrightarrow> ends good_store (Create env config) (\<lambda>_. good_store) good_store"
  unfolding Create_def
  by (rule ends_seq [OF createWrite_mirrored], assumption)
    (auto intro: ends_weaken [OF createLocked_mirrored] split: prod.split)

lemma onFs_run: "m (is_fs s) = (Ret x, f) \<Longrightarrow> onFs m s = (Ret x, s\<lparr>is_fs := f\<rparr>)"
  by (simp add: onFs_def zoom_def)

lemma SetImageParent_run:
  assumes s: "okf (is_fs s)" and v: "Validate i = None" and p: "imageOf s p \<noteq> None"
    and run: "SetImageParent env i p s = (r, t)"
  obtains u where "u = addChild p i (if C s i \<noteq> None \<and> M s i pkey \<noteq> None then dropChild (the (M s i pkey)) i s else s)"
    and "onFs (bk_SetMetadata env i pkey p) u = (r, t)"
  using run p leaveParent_view [OF s v] by (simp add: SetImageParent_def go_defs)

lemma SetImageParent_mirrored:
  assumes s: "good_store s" and v: "Validate i = None" and run: "SetImageParent env i p s = (Ret (), t)"
  shows "good_store t"
proof -
  have p: "imageOf s p \<noteq> None" using run by (auto simp: SetImageParent_def go_defs split: if_splits)
  let ?d = "if C s i \<noteq> None \<and> M s i pkey \<noteq> None then dropChild (the (M s i pkey)) i s else s"
  from SetImageParent_run [OF conjunct1 [OF s] v p run]
  have w: "onFs (bk_SetMetadata env i pkey p) (addChild p i ?d) = (Ret (), t)" by blast
  have "is_fs ?d = is_fs s" by simp
  then obtain f where f: "bk_SetMetadata env i pkey p (is_fs s) = (Ret (), f)" "t = (addChild p i ?d)\<lparr>is_fs := f\<rparr>"
    using w by (auto simp: onFs_def zoom_def split: prod.splits outcome.splits)
  from setm_view [OF conjunct1 [OF s] v f(1)]
  have f': "okf f" "C s i \<noteq> None" "view f = (C s, (M s)(i := (M s i)(pkey \<mapsto> p)))" by auto
  have kids: "childrenOf s q = {j. M s j pkey = Some q}" for q using s unfolding mirrored_def by blast
  have "childrenOf t q = {j. snd (view f) j pkey = Some q}" for q
    using p by (cases "M s i pkey") (auto simp: f(2) f' kids)
  moreover have "\<forall>j. imageOf t j \<noteq> None \<longrightarrow> fst (view f) j \<noteq> None"
    using s f'(2) unfolding f(2) f'(3) mirrored_def by (simp del: not_None_eq)
  moreover have "\<forall>j. snd (view f) j pkey \<noteq> None \<longrightarrow> fst (view f) j \<noteq> None"
    using s f'(2) unfolding f'(3) mirrored_def by (simp del: not_None_eq)
  ultimately show ?thesis using f(2) f'(1) by (simp add: mirrored_def)
qed

lemma DeleteImage_mirrored:
  assumes s: "good_store s" and rng: "\<And>xs. set (go_range env xs) = set xs" and run: "DeleteImage env i s = (r, t)"
  shows "good_store t"
proof (cases "imageOf s i")
  case None
  then show ?thesis using run s by (simp add: DeleteImage_def go_defs)
next
  case (Some m)
  have kids: "childrenOf s q = {j. M s j pkey = Some q}" for q using s unfolding mirrored_def by blast
  have con: "imageOf s j \<noteq> None \<Longrightarrow> C s j \<noteq> None" "M s j pkey \<noteq> None \<Longrightarrow> C s j \<noteq> None" for j
    using s unfolding mirrored_def by blast+
  have m: "set (im_children m) = {j. M s j pkey = Some i}" using kids [of i] Some by (simp add: childrenOf_def)
  have "\<forall>c\<in>set (go_range env (im_children m)). Validate c = None" using rng m con(2) view_valid by fastforce
  from forget_children [OF conjunct1 [OF s] this]
  obtain f where f: "forEach (go_range env (im_children m)) (\<lambda>c. ignore_err (onFs (bk_DeleteMetadata env c pkey))) s = (Ret (), s\<lparr>is_fs := f\<rparr>)"
    "okf f" "fst (view f) = C s" "\<And>j. snd (view f) j pkey = (if M s j pkey = Some i then None else M s j pkey)"
    using rng m by auto
  have ci: "fst (view f) i \<noteq> None" using con(1) Some f(3) by simp
  define u where "u = (if snd (view f) i pkey \<noteq> None then dropChild (the (snd (view f) i pkey)) i (s\<lparr>is_fs := f\<rparr>) else s\<lparr>is_fs := f\<rparr>)"
  have leave: "leaveParent env i (s\<lparr>is_fs := f\<rparr>) = (Ret (), u)"
    using leaveParent_view [of "s\<lparr>is_fs := f\<rparr>" i] view_valid [OF ci] f(2) ci by (simp add: u_def)
  obtain g where g: "bk_Delete env i f = (Ret (), g)" "okf g" "view g = ((fst (view f))(i := None), (snd (view f))(i := Map.empty))"
    using del_view [OF f(2) ci] by blast
  define w where "w = dropImage i (case DigestSet.Remove (is_digestSet u) i of Inl _ \<Rightarrow> u | Inr ds \<Rightarrow> u\<lparr>is_digestSet := ds\<rparr>)"
  have del: "ignore_err (onFs (bk_Delete env i)) w = (Ret (), w\<lparr>is_fs := g\<rparr>)"
  proof -
    have "is_fs w = f" by (simp add: w_def u_def split: sum.split)
    then show ?thesis using g(1) by (simp add: ignore_err_def onFs_def zoom_def)
  qed
  have "\<exists>l. t = w\<lparr>is_fs := g, is_ls := l\<rparr>"
  proof -
    have "DeleteImage env i s = (case im_layer m of None \<Rightarrow> ret [] | Some l \<Rightarrow> onLs (lg_Release env l)) (w\<lparr>is_fs := g\<rparr>)"
      unfolding DeleteImage_def modify_modify by (simp add: seq_def gets_def modify_def Some f(1) leave w_def [symmetric] del)
    then have "(r, t) = (case im_layer m of None \<Rightarrow> ret [] | Some l \<Rightarrow> onLs (lg_Release env l)) (w\<lparr>is_fs := g\<rparr>)"
      using run by metis
    then show ?thesis
      by (auto simp: ret_def onLs_def zoom_def split: option.splits prod.splits outcome.splits intro: exI [of _ "is_ls w"])
  qed
  then obtain l where t: "t = w\<lparr>is_fs := g, is_ls := l\<rparr>" by blast
  have img: "imageOf t j = None \<longleftrightarrow> j = i \<or> imageOf s j = None" for j
    by (auto simp: t w_def u_def split: sum.split)
  have "childrenOf t q = (if q = i then {} else childrenOf u q)" for q by (simp add: t w_def split: sum.split)
  moreover have "childrenOf u q = (if snd (view f) i pkey = Some q then childrenOf s q - {i} else childrenOf s q)" for q
    by (auto simp: u_def)
  ultimately have "childrenOf t q = {j. snd (view g) j pkey = Some q}" for q
    by (auto simp: kids g(3) f(4))
  moreover have "\<forall>j. imageOf t j \<noteq> None \<longrightarrow> fst (view g) j \<noteq> None" using con(1) by (auto simp: img g(3) f(3))
  moreover have "\<forall>j. snd (view g) j pkey \<noteq> None \<longrightarrow> fst (view g) j \<noteq> None" using con(2) by (auto simp: g(3) f(3,4) split: if_splits)
  ultimately show ?thesis using g(2) by (simp add: t mirrored_def)
qed

end


text \<open>
  Operations one after another, on a disk without faults: any creation, any deletion, successful
  changes of parents, and the other clients of the layer store.
\<close>

inductive tree_step :: "('l, 'f) imageEnv \<Rightarrow> ('l, 'f) imageStore \<Rightarrow> ('l, 'f) imageStore \<Rightarrow> bool" for env where
  create: "Create env config s = (r, t) \<Longrightarrow> tree_step env s t"
| delete: "DeleteImage env i s = (r', t) \<Longrightarrow> tree_step env s t"
| set_parent: "Validate i = None \<Longrightarrow> SetImageParent env i p s = (Ret (), t) \<Longrightarrow> tree_step env s t"
| layers: "tree_step env s (s\<lparr>is_ls := l\<rparr>)"

lemma tree_step_mirrored:
  assumes "tree_step (daemonEnv h root lenv um rng) s t" and "\<And>c. Validate (h c) = None" and "\<And>xs. set (rng xs) = set xs"
    and "sound_disk (is_fs s) \<and> mirrored (imageViewOf h root) s"
  shows "sound_disk (is_fs t) \<and> mirrored (imageViewOf h root) t"
  using assms(1,4)
proof (induction rule: tree_step.induct)
  case (create config s r t)
  have v: "Validate (env_FromBytes (daemonEnv h root lenv um rng) config) = None" using assms(2) by simp
  from ends_any [OF files.Create_mirrored [OF v] create(2) create(1)] show ?case .
next
  case (delete i s r t)
  have g: "set (go_range (daemonEnv h root lenv um rng) xs) = set xs" for xs using assms(3) by simp
  from files.DeleteImage_mirrored [OF delete(2) g delete(1)] show ?case .
next
  case (set_parent i p s t)
  from files.SetImageParent_mirrored [OF set_parent(3,1,2)] show ?case .
next
  case (layers s l)
  then show ?case by (simp add: mirrored_def)
qed

lemma tree_run_mirrored:
  assumes "(tree_step (daemonEnv h root lenv um rng))\<^sup>*\<^sup>* s t" and "\<And>c. Validate (h c) = None" and "\<And>xs. set (rng xs) = set xs"
    and "sound_disk (is_fs s) \<and> mirrored (imageViewOf h root) s"
  shows "sound_disk (is_fs t) \<and> mirrored (imageViewOf h root) t"
  using assms(1,4) by (induction rule: rtranclp_induct) (auto dest: tree_step_mirrored [OF _ assms(2,3)])

text \<open>
  C32. The children that the store keeps in memory are the images whose parent on disk is this image:
  from a store where this holds, such as an empty one, any sequence of creations, deletions, successful
  changes of parents and other use of the layer store leads to one where \<open>Children\<close> of every image
  lists exactly the identifiers for which \<open>GetParent\<close> returns it, and only images of the store are parents.
\<close>

theorem children_mirror_parents:
  assumes "(tree_step (daemonEnv h root lenv um rng))\<^sup>*\<^sup>* s t" and "\<And>c. Validate (h c) = None" and "\<And>xs. set (rng xs) = set xs"
    and "sound_disk (is_fs s)" and "mirrored (imageViewOf h root) s" and "Validate i = None"
  shows "(i \<in> set (Children (daemonEnv h root lenv um rng) p t) \<longleftrightarrow>
      fst (GetImageParent (daemonEnv h root lenv um rng) i t) = Ret p) \<and>
    (fst (GetImageParent (daemonEnv h root lenv um rng) i t) = Ret p \<longrightarrow> imageOf t p \<noteq> None)"
proof -
  have t: "sound_disk (is_fs t)" "mirrored (imageViewOf h root) t"
    using tree_run_mirrored [OF assms(1,2,3)] assms(4,5) by blast+
  let ?M = "snd (imageViewOf h root (is_fs t)) i pkey"
  have kids: "set (Children (daemonEnv h root lenv um rng) p t) = childrenOf t p"
    using assms(3) by (simp add: Children_def childrenOf_def split: option.split)
  have m: "i \<in> childrenOf t p \<longleftrightarrow> ?M = Some p" and c: "?M \<noteq> None \<longrightarrow> fst (imageViewOf h root (is_fs t)) i \<noteq> None"
    using t(2) unfolding mirrored_def by blast+
  have g: "fst (GetImageParent (daemonEnv h root lenv um rng) i t) = Ret p \<longleftrightarrow> ?M = Some p"
    using files.GetImageParent_view [OF t(1) assms(6), of h root lenv um rng] c by (elim disjE exE conjE) auto
  have "i \<in> childrenOf t p \<Longrightarrow> imageOf t p \<noteq> None" by (auto simp: childrenOf_def split: option.splits)
  then show ?thesis unfolding kids m g by blast
qed


lemma demo_img_sound: "sound_disk demo_img_fs"
  using demo_img_ok by (simp add: sound_disk_def demo_img_fs_def demo_fs_def)

lemma demo_view: "imageViewOf h [] demo_img_fs = (\<lambda>_. None, \<lambda>_ _. None)"
  by (auto simp: imageViewOf_def fileAt_def demo_img_fs_def demo_fs_def look_def contentAt_def metaAt_def fun_eq_iff)

lemma demo_mirrored: "mirrored (imageViewOf h []) demo_images"
  using demo_view [of h] by (simp add: mirrored_def demo_images_def childrenOf_def imageOf_def)

theorem children_mirror_parents_witness:
  "\<exists>t. (tree_step demo_img_env)\<^sup>*\<^sup>* demo_images t \<and> imageOf t demo_id \<noteq> None \<and>
     demo_id \<notin> set (Children demo_img_env demo_id t) \<and> fst (GetImageParent demo_img_env demo_id t) \<noteq> Ret demo_id"
proof -
  obtain t x u where t: "createWrite demo_img_env ''x'' demo_images = (Ret (demo_id, AppendDiff NewRootFS ''dx''), t)"
      "createLocked demo_img_env demo_id (AppendDiff NewRootFS ''dx'') t = (Ret demo_id, u)"
      "imageOf u demo_id = Some \<lparr>im_layer = Some x, im_children = []\<rparr>"
    using demo_create by blast
  then have "Create demo_img_env ''x'' demo_images = (Ret demo_id, u)" by (simp add: Create_def seq_def)
  then have run: "(tree_step demo_img_env)\<^sup>*\<^sup>* demo_images u" by (intro r_into_rtranclp tree_step.create)
  have "demo_id \<notin> set (Children demo_img_env demo_id u)" using t(3) by (simp add: Children_def demo_img_env_def)
  moreover have "sound_disk (is_fs demo_images)" using demo_img_sound by (simp add: demo_images_def)
  moreover have v: "Validate demo_id = None" by (rule demo_dgst_valid) simp
  ultimately have "fst (GetImageParent demo_img_env demo_id u) \<noteq> Ret demo_id"
    using children_mirror_parents [OF run [unfolded demo_img_env_def] v refl _ demo_mirrored v, where p = demo_id]
    unfolding demo_img_env_def [symmetric] by blast
  then show ?thesis using run t(3) \<open>demo_id \<notin> set (Children demo_img_env demo_id u)\<close> by auto
qed


section \<open>Reading back what was created\<close>

lemma createLocked_fs: "ends (\<lambda>s. is_fs s = f) (createLocked env i rf) (\<lambda>x s. is_fs s = f \<and> x = i \<and> imageOf s i \<noteq> None) (\<lambda>s. is_fs s = f)"
proof -
  let ?K = "\<lambda>s. is_fs s = f"
  have l: "ends ?K (getLayer env c) (\<lambda>_. ?K) ?K" for c
    unfolding getLayer_def onLs_def
    by (auto intro!: ends_if ends_ret ends_seq [OF ends_zoom [where Q = "\<lambda>_. ?K"]] split: outcome.split)
  have r: "ends ?K (seq (modify (setImage i \<lparr>im_layer = l, im_children = []\<rparr>)) (\<lambda>_.
     seq (gets is_digestSet) (\<lambda>ds. case Add ds i of
       Inl e \<Rightarrow> seq (modify (dropImage i)) (\<lambda>_. fail (ImgDigest e))
     | Inr ds' \<Rightarrow> seq (modify (\<lambda>s. s\<lparr>is_digestSet := ds'\<rparr>)) (\<lambda>_. ret i))))
     (\<lambda>x s. is_fs s = f \<and> x = i \<and> imageOf s i \<noteq> None) ?K" for l
    by (rule endsI) (auto simp: go_defs split: sum.splits)
  show ?thesis
    unfolding createLocked_def
    by (rule ends_gets, rule ends_if [OF ends_ret ends_weaken [OF ends_seq [OF l r]]]) simp_all
qed

lemma createWrite_Ret:
  assumes "createWrite env config s = (Ret (i, rf), t)"
  obtains img f where "js_Unmarshal env config = Inr img" and "img_RootFS img = Some rf"
    and "bk_Set env config (is_fs s) = (Ret i, f)" and "t = s\<lparr>is_fs := f\<rparr>"
  using assms by (auto simp: createWrite_def go_defs onFs_def zoom_def split: sum.splits option.splits if_splits prod.splits outcome.splits)

lemma Create_Ret:
  assumes "Create env config s = (Ret i, t)"
  obtains img rf f where "js_Unmarshal env config = Inr img" and "img_RootFS img = Some rf"
    and "bk_Set env config (is_fs s) = (Ret i, f)" and "is_fs t = f" and "imageOf t i \<noteq> None"
proof -
  obtain j rf u where w: "createWrite env config s = (Ret (j, rf), u)" "createLocked env j rf u = (Ret i, t)"
    using assms by (auto simp: Create_def seq_Ret_iff)
  from endsD [OF createLocked_fs refl w(2)] have t: "is_fs t = is_fs u" "i = j" "imageOf t j \<noteq> None" by auto
  from w(1) show thesis by (rule createWrite_Ret) (use t that in auto)
qed

lemma matching_self: "Validate i = None \<Longrightarrow> matching i (newEntry i)"
  by (simp add: matching_def query_def newEntry_def)

lemma Lookup_self:
  assumes "set_inv ds" and "i \<in> abs_set ds" and "\<And>x. x \<in> abs_set ds \<Longrightarrow> Algorithm x = Some A"
  shows "Lookup ds i = Inr i"
proof -
  have "\<forall>e\<in>set ds. de_alg e = A"
  proof
    fix e assume e: "e \<in> set ds"
    then have "wf_entry e" "Algorithm (de_digest e) = Some A"
      using assms(1,3) by (auto simp: set_inv_def list_all_iff abs_set_def All_def)
    then have "newEntry (de_digest e) = e" by simp
    then have "de_alg e = the (Algorithm (de_digest e))" by (metis newEntry_def digestEntry.select_convs(1))
    then show "de_alg e = A" using \<open>Algorithm (de_digest e) = Some A\<close> by simp
  qed
  note alg = this
  have "i \<in> candidates ds i"
    using assms(2) matching_self [OF abs_set_valid [OF assms(1,2)]] by (simp add: candidates_def)
  then show ?thesis using Lookup_candidates [OF assms(1) alg, of i] by auto
qed

text \<open>What \<open>Get\<close> returns on a disk without faults.\<close>

lemma GetImage_view:
  assumes d: "sound_disk (is_fs t)" and v: "Validate i = None"
  shows "\<exists>r. GetImage (daemonEnv h root lenv um rng) i t = (r, t) \<and> \<not> is_Panic r \<and>
    (\<forall>config img rf. fst (imageViewOf h root (is_fs t)) i = Some config \<longrightarrow> um config = Inr img \<longrightarrow> img_RootFS img = Some rf \<longrightarrow>
       r = Ret (img\<lparr>img_rawJSON := config, img_computedID := i,
          img_Parent := (case fst (GetImageParent (daemonEnv h root lenv um rng) i t) of Ret p \<Rightarrow> p | _ \<Rightarrow> [])\<rparr>)) \<and>
    (\<forall>img. r = Ret img \<longrightarrow> img_RootFS img \<noteq> None)"
proof -
  let ?env = "daemonEnv h root lenv um rng"
  from files.GetImageParent_view [OF d v, of h root lenv um rng]
  obtain q where q: "GetImageParent ?env i t = (q, t)" "\<And>m. q \<noteq> Panic m" by (elim disjE exE conjE) auto
  have p: "tryGo (GetImageParent ?env i) t = (Ret (case q of Ret p \<Rightarrow> Inr p | Fail e \<Rightarrow> Inl e), t)"
    using q by (cases q) (auto simp: tryGo_def)
  consider (some) c where "fst (imageViewOf h root (is_fs t)) i = Some c" "onFs (fsGet h root i) t = (Ret c, t)"
    | (none) e where "fst (imageViewOf h root (is_fs t)) i = None" "onFs (fsGet h root i) t = (Fail e, t)"
    using fsGet_sound [OF d v, of h root] by (auto simp: onFs_def zoom_def)
  then show ?thesis
  proof cases
    case some
    then show ?thesis using p q
      by (cases "um c"; cases q) (auto simp: GetImage_def seq_def NewFromJSON_def ret_def fail_def)
  qed (simp add: GetImage_def seq_def)
qed

text \<open>
  C33. What \<open>Create\<close> returns can be used at once: the identifier is the digest of the configuration,
  \<open>Get\<close> reads back exactly the stored bytes and what they decode to, with the parent recorded on disk,
  and \<open>Search\<close> finds the image by its identifier.
\<close>

theorem created_image_readable:
  assumes "Create (daemonEnv h root lenv um rng) config s = (Ret i, t)" and "sound_disk (is_fs s)"
    and "img_inv (daemonEnv h root lenv um rng) (\<lambda>i c. h c = i) (ls_inv (\<lambda>_. 0)) held s"
    and "\<And>c. Validate (h c) = None" and "\<And>c. Algorithm (h c) = Some A"
  shows "i = h config \<and> SearchImage i t = (Ret i, t) \<and>
    (\<exists>img. um config = Inr img \<and> GetImage (daemonEnv h root lenv um rng) i t =
       (Ret (img\<lparr>img_rawJSON := config, img_computedID := i,
          img_Parent := (case fst (GetImageParent (daemonEnv h root lenv um rng) i t) of Ret p \<Rightarrow> p | _ \<Rightarrow> '''')\<rparr>), t))"
proof -
  let ?env = "daemonEnv h root lenv um rng"
  obtain img rf f where c: "um config = Inr img" "img_RootFS img = Some rf" "fsSet h root config (is_fs s) = (Ret i, f)"
      "is_fs t = f" "imageOf t i \<noteq> None"
    using Create_Ret [OF assms(1)] unfolding daemonEnv_simps by metis
  have f: "sound_disk f" "i = h config" "fst (imageViewOf h root f) i = Some config"
    using fsSet_sound [OF assms(2,4) c(3)] by auto
  have v: "Validate i = None" using f(2) assms(4) by simp
  have inv: "img_inv ?env (\<lambda>i c. h c = i) (ls_inv (\<lambda>_. 0)) held t"
    using ends_any [OF daemon.Create_inv assms(3,1)] .
  have ids: "\<exists>c. h c = x" if "x \<in> abs_set (is_digestSet t)" for x
    using inv that unfolding img_inv_def configures_def by blast
  have "Lookup (is_digestSet t) i = Inr i"
  proof (rule Lookup_self)
    show "set_inv (is_digestSet t)" "i \<in> abs_set (is_digestSet t)" using inv c(5) unfolding img_inv_def by blast+
    show "Algorithm x = Some A" if "x \<in> abs_set (is_digestSet t)" for x using ids [OF that] assms(5) by auto
  qed
  then have search: "SearchImage i t = (Ret i, t)" by (simp add: SearchImage_def go_defs)
  have "sound_disk (is_fs t)" using f(1) c(4) by simp
  from GetImage_view [OF this v, of h root lenv um rng] f(3) c(1,2,4) search f(2) show ?thesis by auto
qed


lemma demo_images_inv: "img_inv demo_img_env (\<lambda>i c. demo_id = i) (ls_inv (\<lambda>_. 0)) held demo_images"
  unfolding demo_images_def by (rule img_inv_empty) (rule demo_inv)

theorem created_image_readable_witness:
  "\<exists>t. Create demo_img_env ''x'' demo_images = (Ret demo_id, t) \<and> SearchImage demo_id t = (Ret demo_id, t) \<and>
     (\<exists>img. GetImage demo_img_env demo_id t = (Ret img, t) \<and> img_rawJSON img = ''x'')"
proof -
  obtain t x u where t: "createWrite demo_img_env ''x'' demo_images = (Ret (demo_id, AppendDiff NewRootFS ''dx''), t)"
      "createLocked demo_img_env demo_id (AppendDiff NewRootFS ''dx'') t = (Ret demo_id, u)"
    using demo_create by blast
  then have run: "Create demo_img_env ''x'' demo_images = (Ret demo_id, u)" by (simp add: Create_def seq_def)
  have v: "Validate demo_id = None" by (rule demo_dgst_valid) simp
  have a: "Algorithm demo_id = Some ''sha256''"
    using demo_parts(1) by (simp add: Algorithm_eq demo_dgst_def sep_def)
  have d: "sound_disk (is_fs demo_images)" using demo_img_sound by (simp add: demo_images_def)
  from created_image_readable [OF run [unfolded demo_img_env_def] d demo_images_inv [unfolded demo_img_env_def] v a]
  show ?thesis using run unfolding demo_img_env_def [symmetric] by fastforce
qed

section \<open>What a failed operation leaves behind\<close>

lemma triple_forEach_fails:
  assumes "\<And>x. x \<in> set xs \<Longrightarrow> triple K (f x) (\<lambda>_. K) (\<lambda>_ _. True)" and "y \<in> set xs"
    and "triple K (f y) (\<lambda>_ _. False) (\<lambda>_ _. True)"
  shows "triple K (forEach xs f) (\<lambda>_ _. False) (\<lambda>_ _. True)"
  using assms
proof (induction xs)
  case (Cons x xs)
  show ?case
  proof (cases "x = y")
    case True
    then show ?thesis using triple_seq [OF Cons.prems(3), of "\<lambda>_. forEach xs f" "\<lambda>_ _. False"] by (simp add: triple_vacuous)
  next
    case False
    then show ?thesis using Cons by (auto intro!: triple_seq [of K _ "\<lambda>_. K"])
  qed
qed simp

text \<open>Nothing in a restart adds a layer to the layer store or changes the files.\<close>

definition restarting :: "filesys \<Rightarrow> string \<Rightarrow> (('d, 'm) layerStore, filesys) imageStore \<Rightarrow> bool" where
  "restarting f c s \<longleftrightarrow> is_fs s = f \<and> ls_layerMap (is_ls s) c = None"

lemma Get_layerMap: "ls_layerMap (snd (LayerStore.Get c s)) = ls_layerMap s" "\<not> is_Panic (fst (LayerStore.Get c s))"
  by (auto simp: Get_def getWithoutLock_def getReference_def go_defs split: option.split)

lemma onLs_Get_restarting:
  "triple (restarting f c) (onLs (LayerStore.Get c') :: (('d, 'm) layerStore, filesys, layerRef) isM)
     (\<lambda>_ s. restarting f c s \<and> c' \<noteq> c) (\<lambda>_ _. True)"
  unfolding triple_def
proof (intro allI impI)
  fix s :: "(('d, 'm) layerStore, filesys) imageStore"
  assume s: "restarting f c s"
  obtain r l where g: "LayerStore.Get c' (is_ls s) = (r, l)" by (metis surj_pair)
  then have l: "ls_layerMap l = ls_layerMap (is_ls s)" "\<not> is_Panic r"
    using Get_layerMap [of c' "is_ls s"] by simp_all
  have "r = Ret x \<Longrightarrow> c' \<noteq> c" for x
    using g s by (auto simp: restarting_def Get_def getWithoutLock_def go_defs)
  then show "(\<exists>x t. onLs (LayerStore.Get c') s = (Ret x, t) \<and> restarting f c t \<and> c' \<noteq> c) \<or>
      (\<exists>e t. onLs (LayerStore.Get c') s = (Fail e, t) \<and> True)"
    using g l s by (cases r) (auto simp: onLs_def zoom_def restarting_def)
qed

lemma getLayer_restarting:
  "triple (restarting f c) (getLayer (daemonEnv h root lenv um rng) c') (\<lambda>_ s. restarting f c s \<and> (c' = c \<longrightarrow> c = [])) (\<lambda>_ _. True)"
proof (cases "c' = []")
  case False
  show ?thesis using False unfolding getLayer_def daemonEnv_simps
    by (simp, intro triple_seq [OF onLs_Get_restarting] triple_ret) auto
qed (auto simp: getLayer_def intro!: triple_ret)

lemma restoreImage_restarting:
  assumes d: "sound_disk f" and v: "Validate j = None"
    and i: "fst (imageViewOf h root f) i = Some config" "um config = Inr img" "img_RootFS img = Some rf" "ChainID h rf = c" "c \<noteq> []"
  shows "triple (restarting f c) (restoreImage (daemonEnv h root lenv um rng) j) (\<lambda>_ s. restarting f c s \<and> j \<noteq> i) (\<lambda>_ _. True)"
proof -
  let ?env = "daemonEnv h root lenv um rng"
  let ?G = "\<lambda>x. (j = i \<longrightarrow> (\<exists>im. x = Inr im \<and> img_RootFS im = Some rf)) \<and> (\<forall>im. x = Inr im \<longrightarrow> img_RootFS im \<noteq> None)"
  have g: "triple (restarting f c) (tryGo (GetImage ?env j)) (\<lambda>x s. restarting f c s \<and> ?G x) (\<lambda>_ _. True)"
    unfolding triple_def
  proof (intro allI impI)
    fix s :: "(('a, 'b) layerStore, filesys) imageStore" assume s: "restarting f c s"
    then have sd: "sound_disk (is_fs s)" using d by (simp add: restarting_def)
    from GetImage_view [OF sd v, of h root lenv um rng]
    obtain r where r: "GetImage ?env j s = (r, s)" "\<not> is_Panic r" "j = i \<Longrightarrow> \<exists>im. r = Ret im \<and> img_RootFS im = Some rf"
        "\<And>im. r = Ret im \<Longrightarrow> img_RootFS im \<noteq> None"
      using s i(1,2,3) by (auto simp: restarting_def)
    then show "(\<exists>x t. tryGo (GetImage ?env j) s = (Ret x, t) \<and> restarting f c t \<and> ?G x) \<or>
        (\<exists>e t. tryGo (GetImage ?env j) s = (Fail e, t) \<and> True)"
      using s by (cases r) (auto simp: tryGo_def)
  qed
  let ?K = "\<lambda>s. restarting f c s \<and> j \<noteq> i"
  have rest: "triple ?K (seq (gets is_digestSet) (\<lambda>ds. case Add ds j of Inl e \<Rightarrow> fail (ImgDigest e)
      | Inr ds' \<Rightarrow> seq (modify (\<lambda>s. s\<lparr>is_digestSet := ds'\<rparr>)) (\<lambda>_. modify (setImage j m)))) (\<lambda>_. ?K) (\<lambda>_ _. True)" for m
    by (auto simp: triple_def go_defs restarting_def split: sum.split)
  show ?thesis
    unfolding restoreImage_def
  proof (rule triple_seq [OF g])
    fix x :: "image_err + Image"
    let ?m = "case x of Inl _ \<Rightarrow> ret () | Inr im \<Rightarrow> (case img_RootFS im of None \<Rightarrow> gopanic ''nil pointer dereference''
       | Some rf \<Rightarrow> seq (getLayer ?env (ChainID (env_FromBytes ?env) rf)) (\<lambda>l. seq (gets is_digestSet) (\<lambda>ds. case Add ds j of
           Inl e \<Rightarrow> fail (ImgDigest e)
         | Inr ds' \<Rightarrow> seq (modify (\<lambda>s. s\<lparr>is_digestSet := ds'\<rparr>)) (\<lambda>_. modify (setImage j \<lparr>im_layer = l, im_children = []\<rparr>)))))"
    show "triple (\<lambda>s. restarting f c s \<and> ?G x) ?m (\<lambda>_. ?K) (\<lambda>_ _. True)"
    proof (cases "?G x")
      case False
      then show ?thesis by (intro triple_vacuous) blast
    next
      case G: True
      show ?thesis
      proof (cases x)
        case (Inl e)
        then show ?thesis using G by (auto intro!: triple_ret)
      next
        case (Inr im)
        then obtain rf' where rf': "img_RootFS im = Some rf'" "j = i \<Longrightarrow> rf' = rf" using G by auto
        have "triple (\<lambda>s. restarting f c s \<and> ?G x) (getLayer ?env (ChainID h rf')) (\<lambda>_. ?K) (\<lambda>_ _. True)"
          by (rule triple_weaken [OF getLayer_restarting [of f c h root lenv um rng "ChainID h rf'"]]) (use rf' i(4,5) in auto)
        from triple_seq [OF this rest] show ?thesis using Inr rf'(1) by simp
      qed
    qed
  qed
qed

lemma WalkIDs_view:
  assumes d: "sound_disk f" and c: "fst (imageViewOf h root f) i = Some config" and a: "Algorithm i = Some Canonical"
  shows "\<exists>ids. WalkIDs root f = (Ret ids, f) \<and> i \<in> set ids \<and> (\<forall>j\<in>set ids. Validate j = None)"
proof -
  let ?p = "root @ [contentDirName, Canonical]"
  have i: "Validate i = None" "look (fs_entries f) (contentAt root i) = Some (File config)" using c view_content by blast+
  have bs: "before_sep i = Canonical" and sp: "sep \<in> set i" using a by (auto simp: Algorithm_eq split: if_splits)
  have at: "contentAt root i = ?p @ [after_sep i]" by (simp add: contentAt_def bs)
  have "wf_tree (fs_entries f)" using d by (simp add: sound_disk_def fs_ok_def)
  from wf_treeD(3) [OF this, of ?p "after_sep i"] have dir: "look (fs_entries f) ?p = Some Dir" using i(2) at by simp
  have mem: "after_sep i \<in> set (childNames ?p (fs_entries f))" using i(2) at by (simp add: set_childNames)
  have dg: "NewDigestFromHex Canonical (after_sep i) = i"
    using sep_split [OF sp] bs by (simp add: NewDigestFromHex_def sep_def)
  have "WalkIDs root f = (Ret (filter (\<lambda>d. Validate d = None) (map (NewDigestFromHex Canonical) (childNames ?p (fs_entries f)))), f)"
    using dir d by (simp add: WalkIDs_def Join_plain ReadDir_def seq_def ret_def sound_disk_def comp_def)
  moreover have "i \<in> NewDigestFromHex Canonical ` set (childNames ?p (fs_entries f))" using mem dg by (metis imageI)
  ultimately show ?thesis using i(1) by auto
qed

text \<open>
  C34. A creation that fails because the layer is missing leaves its configuration on the disk, where
  the backend's \<open>Get\<close> still reads it, and then the image store cannot be opened again: every later
  start on these files fails, until the layer store has that layer.
\<close>

theorem failed_create_breaks_restart:
  assumes "Create (daemonEnv h root lenv um rng) config s = (Fail (ImgLayer e), t)" and "sound_disk (is_fs s)"
    and "Validate (h config) = None" and "Algorithm (h config) = Some Canonical"
    and "um config = Inr img" and "img_RootFS img = Some rf" and "ls_layerMap ls (ChainID h rf) = None"
  shows "fsGet h root (h config) (is_fs t) = (Ret config, is_fs t) \<and>
    (\<exists>e' u. NewImageStore (daemonEnv h root lenv um rng) (is_fs t) ls = (Fail e', u))"
proof -
  let ?env = "daemonEnv h root lenv um rng" and ?c = "ChainID h rf" and ?i = "h config"
  obtain u where w: "createWrite ?env config s = (Ret (?i, rf), u)" "createLocked ?env ?i rf u = (Fail (ImgLayer e), t)"
    using assms(1,5,6) fsSet_good
    by (fastforce simp: Create_def createWrite_def seq_def onFs_def zoom_def fail_def ret_def split: if_splits prod.splits outcome.splits)
  obtain f where f: "fsSet h root config (is_fs s) = (Ret ?i, f)" "u = s\<lparr>is_fs := f\<rparr>"
    using w(1) by (rule createWrite_Ret) auto
  have t: "is_fs t = f" using endsD [OF createLocked_fs [of f] _ w(2)] f(2) by simp
  have c: "?c \<noteq> []"
    using w(2) by (auto simp: createLocked_def getLayer_def go_defs split: if_splits sum.splits)
  have d: "sound_disk f" "fst (imageViewOf h root f) ?i = Some config" using fsSet_sound [OF assms(2,3) f(1)] by auto
  obtain ids where ids: "WalkIDs root f = (Ret ids, f)" "?i \<in> set ids" "\<forall>j\<in>set ids. Validate j = None"
    using WalkIDs_view [OF d assms(4)] by blast
  let ?s = "\<lparr>is_ls = ls, is_images = [], is_fs = f, is_digestSet = []\<rparr>"
  have step: "triple (restarting f ?c) (restoreImage ?env j) (\<lambda>_ s. restarting f ?c s \<and> j \<noteq> ?i) (\<lambda>_ _. True)" if "j \<in> set ids" for j
    by (rule restoreImage_restarting [where config = config and img = img and rf = rf]) (use d ids(3) that assms(5,6) c in auto)
  have "triple (restarting f ?c) (forEach ids (restoreImage ?env)) (\<lambda>_ _. False) (\<lambda>_ _. True)"
  proof (rule triple_forEach_fails [OF _ ids(2)])
    show "triple (restarting f ?c) (restoreImage ?env j) (\<lambda>_. restarting f ?c) (\<lambda>_ _. True)" if "j \<in> set ids" for j
      by (rule triple_weaken [OF step [OF that]]) auto
    show "triple (restarting f ?c) (restoreImage ?env ?i) (\<lambda>_ _. False) (\<lambda>_ _. True)"
      by (rule triple_weaken [OF step [OF ids(2)]]) auto
  qed
  moreover have "restarting f ?c ?s" using assms(7) by (simp add: restarting_def)
  ultimately obtain e' v where "forEach ids (restoreImage ?env) ?s = (Fail e', v)" unfolding triple_def by blast
  moreover have "fsGet h root ?i f = (Ret config, f)" using fsGet_sound [OF d(1) assms(3), of h root] d(2) by auto
  ultimately show ?thesis using ids(1) t by (simp add: NewImageStore_def restore_def seq_def onFs_def zoom_def)
qed

theorem failed_create_breaks_restart_witness:
  "\<exists>e t. Create demo_img_env ''x'' (demo_images\<lparr>is_ls := emptyStore () ()\<rparr>) = (Fail e, t) \<and>
     (\<exists>e' u. NewImageStore demo_img_env (is_fs t) (emptyStore () ()) = (Fail e', u))"
proof -
  let ?s = "demo_images\<lparr>is_ls := emptyStore () ()\<rparr>"
  have fs: "is_fs ?s = demo_img_fs" by (simp add: demo_images_def)
  have im: "is_images ?s = []" by (simp add: demo_images_def)
  have none: "ls_layerMap (emptyStore () ()) c = None" for c by (simp add: emptyStore_def)
  obtain f where f: "fsSet (\<lambda>_. demo_id) [] ''x'' demo_img_fs = (Ret demo_id, f)"
    using demo_image_set by (auto simp: seq_Ret_iff fsSet_def ret_def)
  have w: "createWrite demo_img_env ''x'' ?s = (Ret (demo_id, AppendDiff NewRootFS ''dx''), ?s\<lparr>is_fs := f\<rparr>)"
    using f fs by (simp add: createWrite_def demo_img_env_def demo_image_def onFs_def zoom_def seq_def ret_def)
  have ch: "ChainID h (AppendDiff NewRootFS ''dx'') = ''dx''" for h
    by (simp add: ChainID_def AppendDiff_def NewRootFS_def CreateChainID_def)
  have "LayerStore.Get ''dx'' (emptyStore () ()) = (Fail ErrLayerDoesNotExist, emptyStore () ())"
    using none by (simp add: Get_def getWithoutLock_def go_defs)
  then have l: "createLocked demo_img_env demo_id (AppendDiff NewRootFS ''dx'') (?s\<lparr>is_fs := f\<rparr>) =
      (Fail (ImgLayer ErrLayerDoesNotExist), ?s\<lparr>is_fs := f\<rparr>)"
    using im ch by (simp add: createLocked_def getLayer_def demo_img_env_def onLs_def zoom_def seq_def gets_def imageOf_def)
  have run: "Create demo_img_env ''x'' ?s = (Fail (ImgLayer ErrLayerDoesNotExist), ?s\<lparr>is_fs := f\<rparr>)"
    using w l by (simp add: Create_def seq_def)
  have v: "Validate demo_id = None" by (rule demo_dgst_valid) simp
  have a: "Algorithm demo_id = Some Canonical"
    using demo_parts(1) by (simp add: Algorithm_eq demo_dgst_def sep_def Canonical_def)
  have d: "sound_disk (is_fs ?s)" using demo_img_sound fs by simp
  have r: "img_RootFS demo_image = Some (AppendDiff NewRootFS ''dx'')" by (simp add: demo_image_def)
  from failed_create_breaks_restart [OF run [unfolded demo_img_env_def] d v a refl r none] run
  show ?thesis unfolding demo_img_env_def [symmetric] by blast
qed


lemma collectImages_keys:
  "collectImages env ids images s = (Ret m, u) \<Longrightarrow> fst ` set m \<subseteq> set ids \<union> fst ` set images"
proof (induction ids arbitrary: images s)
  case (Cons i ids)
  then obtain x :: "image_err + Image" and t where x: "(case x of Inl _ \<Rightarrow> collectImages env ids images
      | Inr img \<Rightarrow> collectImages env ids (AList.update i img images)) t = (Ret m, u)"
    by (auto simp: seq_Ret_iff)
  show ?case
  proof (cases x)
    case (Inl e)
    then show ?thesis using x Cons.IH [of images t] by auto
  next
    case (Inr img)
    then show ?thesis using x Cons.IH [of "AList.update i img images" t] by (auto simp: dom_update)
  qed
qed (simp add: ret_def)

text \<open>
  C35. Setting the parent of an image that is not on the disk returns an error, but the child stays
  recorded in memory: \<open>Children\<close> of the parent lists it, and the parent is no longer among the \<open>Heads\<close>.
\<close>

theorem failed_set_parent_leaves_child:
  assumes "imageOf s p \<noteq> None" and "Validate i = None" and "sound_disk (is_fs s)" and "fst (imageViewOf h root (is_fs s)) i = None"
    and "\<And>xs. set (rng xs) = set xs"
  shows "\<exists>e t. SetImageParent (daemonEnv h root lenv um rng) i p s = (Fail e, t) \<and>
    i \<in> set (Children (daemonEnv h root lenv um rng) p t) \<and>
    (\<forall>m u. Heads (daemonEnv h root lenv um rng) t = (Ret m, u) \<longrightarrow> p \<notin> fst ` set m)"
proof -
  let ?env = "daemonEnv h root lenv um rng"
  obtain r t where run: "SetImageParent ?env i p s = (r, t)" by (metis surj_pair)
  obtain u where u: "u = addChild p i s" "onFs (bk_SetMetadata ?env i pkey p) u = (r, t)"
    using files.SetImageParent_run [OF assms(3,2,1) run] assms(4) by auto
  obtain q f where w: "fsSetMetadata h root i pkey p (is_fs s) = (q, f)" by (metis surj_pair)
  obtain e where e: "q = Fail e" using fsSetMetadata_sound [OF assms(3,2) w] assms(4) by auto
  have t: "r = Fail (ImgFS e)" "t = u\<lparr>is_fs := f\<rparr>" using u w e by (auto simp: onFs_def zoom_def)
  have kids: "i \<in> set (Children ?env p t)"
    using assms(1,5) by (auto simp: t u(1) Children_def addChild_def)
  then have "p \<notin> fst ` set m" if "Heads ?env t = (Ret m, v)" for m v
    using collectImages_keys that by (fastforce simp: Heads_def imagesMap_def seq_def gets_def)
  then show ?thesis using run t(1) kids by blast
qed

theorem failed_set_parent_leaves_child_witness:
  "\<exists>s e t. imageOf s demo_id \<noteq> None \<and> SetImageParent demo_img_env (demo_dgst CHR ''b'') demo_id s = (Fail e, t) \<and>
     demo_dgst CHR ''b'' \<in> set (Children demo_img_env demo_id t)"
proof -
  let ?s = "demo_images\<lparr>is_images := [(demo_id, \<lparr>im_layer = None, im_children = []\<rparr>)]\<rparr>"
  have s: "imageOf ?s demo_id \<noteq> None" "sound_disk (is_fs ?s)" "fst (imageViewOf h [] (is_fs ?s)) i = None" for h i
    using demo_img_sound demo_view by (simp_all add: imageOf_def demo_images_def)
  have v: "Validate (demo_dgst CHR ''b'') = None" by (rule demo_dgst_valid) simp
  from failed_set_parent_leaves_child [OF s(1) v s(2) s(3) refl, of "\<lambda>_. demo_id" demo_env "\<lambda>_. Inr demo_image"] s(1)
  show ?thesis unfolding demo_img_env_def [symmetric] by blast
qed

end
