(* ===== verification/Seccomp.thy ===== *)
theory Seccomp
  imports Prelude
begin

text \<open>
  The default seccomp profile of \<^verbatim>\<open>profiles/seccomp/seccomp_default.go\<close> and its conversion for the
  runtime in \<^verbatim>\<open>profiles/seccomp/seccomp.go\<close>. The white list is translated entry by entry; the native
  architecture that libseccomp reports and the capabilities of the container are arguments.
\<close>

section \<open>Profiles\<close>

unbundle bit_operations_syntax

datatype Action = ActKill | ActTrap | ActErrno | ActTrace | ActAllow

datatype Operator = OpNotEqual | OpLessThan | OpLessEqual | OpEqualTo | OpGreaterEqual | OpGreaterThan | OpMaskedEqual

record Arg =
  arg_Index :: nat
  arg_Value :: "64 word"
  arg_ValueTwo :: "64 word"
  arg_Op :: Operator

record Syscall =
  sc_Name :: string
  sc_Action :: Action
  sc_Args :: "Arg list"

text \<open>\<open>DefaultAction\<close> is \<open>None\<close> for the empty string of a decoded profile that has none.\<close>

record SeccompProfile =
  sp_DefaultAction :: "Action option"
  sp_Architectures :: "string list"
  sp_Syscalls :: "Syscall list"

definition allows :: "string list \<Rightarrow> Syscall list" where
  "allows names = map (\<lambda>n. \<lparr>sc_Name = n, sc_Action = ActAllow, sc_Args = []\<rparr>) names"

text \<open>\<open>arches\<close>: the result of \<open>GetNativeArch\<close> is \<open>None\<close> if it fails.\<close>

definition arches :: "string option \<Rightarrow> string list" where
  "arches native = (case native of
      None \<Rightarrow> []
    | Some a \<Rightarrow>
        if a = ''amd64'' then [''SCMP_ARCH_X86_64'', ''SCMP_ARCH_X86'', ''SCMP_ARCH_X32'']
        else if a = ''arm64'' then [''SCMP_ARCH_ARM'', ''SCMP_ARCH_AARCH64'']
        else if a = ''mips64'' \<or> a = ''mips64n32'' then [''SCMP_ARCH_MIPS'', ''SCMP_ARCH_MIPS64'', ''SCMP_ARCH_MIPS64N32'']
        else if a = ''mipsel64'' \<or> a = ''mipsel64n32'' then [''SCMP_ARCH_MIPSEL'', ''SCMP_ARCH_MIPSEL64'', ''SCMP_ARCH_MIPSEL64N32'']
        else if a = ''s390x'' then [''SCMP_ARCH_S390'', ''SCMP_ARCH_S390X'']
        else [])"

section \<open>The white list\<close>

definition baseSyscalls1 :: "Syscall list" where
  "baseSyscalls1 =
     allows [''accept'', ''accept4'', ''access'', ''alarm'', ''bind'', ''brk'', ''capget'', ''capset'', ''chdir'',
     ''chmod'', ''chown'', ''chown32'', ''clock_getres'', ''clock_gettime'', ''clock_nanosleep'', ''close'',
     ''connect'', ''copy_file_range'', ''creat'', ''dup'', ''dup2'', ''dup3'', ''epoll_create'',
     ''epoll_create1'', ''epoll_ctl'', ''epoll_ctl_old'', ''epoll_pwait'', ''epoll_wait'',
     ''epoll_wait_old'']"

definition baseSyscalls2 :: "Syscall list" where
  "baseSyscalls2 =
     allows [''eventfd'', ''eventfd2'', ''execve'', ''execveat'', ''exit'', ''exit_group'', ''faccessat'',
     ''fadvise64'', ''fadvise64_64'', ''fallocate'', ''fanotify_mark'', ''fchdir'', ''fchmod'',
     ''fchmodat'', ''fchown'', ''fchown32'', ''fchownat'', ''fcntl'', ''fcntl64'', ''fdatasync'',
     ''fgetxattr'', ''flistxattr'', ''flock'', ''fork'', ''fremovexattr'', ''fsetxattr'', ''fstat'',
     ''fstat64'', ''fstatat64'', ''fstatfs'']"

definition baseSyscalls3 :: "Syscall list" where
  "baseSyscalls3 =
     allows [''fstatfs64'', ''fsync'', ''ftruncate'', ''ftruncate64'', ''futex'', ''futimesat'', ''getcpu'',
     ''getcwd'', ''getdents'', ''getdents64'', ''getegid'', ''getegid32'', ''geteuid'', ''geteuid32'',
     ''getgid'', ''getgid32'', ''getgroups'', ''getgroups32'', ''getitimer'', ''getpeername'', ''getpgid'',
     ''getpgrp'', ''getpid'', ''getppid'', ''getpriority'', ''getrandom'', ''getresgid'', ''getresgid32'',
     ''getresuid'', ''getresuid32'']"

definition baseSyscalls4 :: "Syscall list" where
  "baseSyscalls4 =
     allows [''getrlimit'', ''get_robust_list'', ''getrusage'', ''getsid'', ''getsockname'', ''getsockopt'',
     ''get_thread_area'', ''gettid'', ''gettimeofday'', ''getuid'', ''getuid32'', ''getxattr'',
     ''inotify_add_watch'', ''inotify_init'', ''inotify_init1'', ''inotify_rm_watch'', ''io_cancel'',
     ''ioctl'', ''io_destroy'', ''io_getevents'', ''ioprio_get'', ''ioprio_set'', ''io_setup'',
     ''io_submit'', ''ipc'', ''kill'', ''lchown'', ''lchown32'', ''lgetxattr'', ''link'']"

definition baseSyscalls5 :: "Syscall list" where
  "baseSyscalls5 =
     allows [''linkat'', ''listen'', ''listxattr'', ''llistxattr'', ''_llseek'', ''lremovexattr'', ''lseek'',
     ''lsetxattr'', ''lstat'', ''lstat64'', ''madvise'', ''memfd_create'', ''mincore'', ''mkdir'',
     ''mkdirat'', ''mknod'', ''mknodat'', ''mlock'', ''mlock2'', ''mlockall'', ''mmap'', ''mmap2'',
     ''mprotect'', ''mq_getsetattr'', ''mq_notify'', ''mq_open'', ''mq_timedreceive'', ''mq_timedsend'',
     ''mq_unlink'', ''mremap'']"

definition baseSyscalls6 :: "Syscall list" where
  "baseSyscalls6 =
     allows [''msgctl'', ''msgget'', ''msgrcv'', ''msgsnd'', ''msync'', ''munlock'', ''munlockall'', ''munmap'',
     ''nanosleep'', ''newfstatat'', ''_newselect'', ''open'', ''openat'', ''pause''] @
     [\<lparr>sc_Name = ''personality'', sc_Action = ActAllow, sc_Args = [\<lparr>arg_Index = 0, arg_Value =
     0x0, arg_ValueTwo = 0, arg_Op = OpEqualTo\<rparr>]\<rparr>] @
     [\<lparr>sc_Name = ''personality'', sc_Action = ActAllow, sc_Args = [\<lparr>arg_Index = 0, arg_Value =
     0x0008, arg_ValueTwo = 0, arg_Op = OpEqualTo\<rparr>]\<rparr>] @
     [\<lparr>sc_Name = ''personality'', sc_Action = ActAllow, sc_Args = [\<lparr>arg_Index = 0, arg_Value =
     0xffffffff, arg_ValueTwo = 0, arg_Op = OpEqualTo\<rparr>]\<rparr>] @
     allows [''pipe'', ''pipe2'', ''poll'', ''ppoll'', ''prctl'', ''pread64'', ''preadv'', ''prlimit64'',
     ''pselect6'']"

definition baseSyscalls7 :: "Syscall list" where
  "baseSyscalls7 =
     allows [''pwrite64'', ''pwritev'', ''read'', ''readahead'', ''readlink'', ''readlinkat'', ''readv'', ''recv'',
     ''recvfrom'', ''recvmmsg'', ''recvmsg'', ''remap_file_pages'', ''removexattr'', ''rename'',
     ''renameat'', ''renameat2'', ''restart_syscall'', ''rmdir'', ''rt_sigaction'', ''rt_sigpending'',
     ''rt_sigprocmask'', ''rt_sigqueueinfo'', ''rt_sigreturn'', ''rt_sigsuspend'', ''rt_sigtimedwait'',
     ''rt_tgsigqueueinfo'', ''sched_getaffinity'', ''sched_getattr'', ''sched_getparam'',
     ''sched_get_priority_max'']"

definition baseSyscalls8 :: "Syscall list" where
  "baseSyscalls8 =
     allows [''sched_get_priority_min'', ''sched_getscheduler'', ''sched_rr_get_interval'', ''sched_setaffinity'',
     ''sched_setattr'', ''sched_setparam'', ''sched_setscheduler'', ''sched_yield'', ''seccomp'',
     ''select'', ''semctl'', ''semget'', ''semop'', ''semtimedop'', ''send'', ''sendfile'', ''sendfile64'',
     ''sendmmsg'', ''sendmsg'', ''sendto'', ''setfsgid'', ''setfsgid32'', ''setfsuid'', ''setfsuid32'',
     ''setgid'', ''setgid32'', ''setgroups'', ''setgroups32'', ''setitimer'', ''setpgid'']"

definition baseSyscalls9 :: "Syscall list" where
  "baseSyscalls9 =
     allows [''setpriority'', ''setregid'', ''setregid32'', ''setresgid'', ''setresgid32'', ''setresuid'',
     ''setresuid32'', ''setreuid'', ''setreuid32'', ''setrlimit'', ''set_robust_list'', ''setsid'',
     ''setsockopt'', ''set_thread_area'', ''set_tid_address'', ''setuid'', ''setuid32'', ''setxattr'',
     ''shmat'', ''shmctl'', ''shmdt'', ''shmget'', ''shutdown'', ''sigaltstack'', ''signalfd'',
     ''signalfd4'', ''sigreturn'', ''socket'', ''socketcall'', ''socketpair'']"

definition baseSyscalls10 :: "Syscall list" where
  "baseSyscalls10 =
     allows [''splice'', ''stat'', ''stat64'', ''statfs'', ''statfs64'', ''symlink'', ''symlinkat'', ''sync'',
     ''sync_file_range'', ''syncfs'', ''sysinfo'', ''syslog'', ''tee'', ''tgkill'', ''time'',
     ''timer_create'', ''timer_delete'', ''timerfd_create'', ''timerfd_gettime'', ''timerfd_settime'',
     ''timer_getoverrun'', ''timer_gettime'', ''timer_settime'', ''times'', ''tkill'', ''truncate'',
     ''truncate64'', ''ugetrlimit'', ''umask'', ''uname'']"

definition baseSyscalls11 :: "Syscall list" where
  "baseSyscalls11 =
     allows [''unlink'', ''unlinkat'', ''utime'', ''utimensat'', ''utimes'', ''vfork'', ''vmsplice'', ''wait4'',
     ''waitid'', ''waitpid'', ''write'', ''writev'', ''mount'', ''umount2'', ''reboot'',
     ''name_to_handle_at'', ''unshare'']"

definition baseSyscalls :: "Syscall list" where
  "baseSyscalls = baseSyscalls1 @ baseSyscalls2 @ baseSyscalls3 @ baseSyscalls4 @ baseSyscalls5 @ baseSyscalls6 @
     baseSyscalls7 @ baseSyscalls8 @ baseSyscalls9 @ baseSyscalls10 @ baseSyscalls11"

text \<open>The switch on the architecture; \<open>amd64\<close> and \<open>x32\<close> fall through to \<open>x86\<close>.\<close>

definition archSyscalls :: "string \<Rightarrow> Syscall list \<times> nat" where
  "archSyscalls arch =
     (if arch = ''arm'' \<or> arch = ''arm64'' then (allows [''breakpoint'', ''cacheflush'', ''set_tls''], 0)
      else if arch = ''amd64'' \<or> arch = ''x32'' then (allows [''arch_prctl''] @ allows [''modify_ldt''], 0)
      else if arch = ''x86'' then (allows [''modify_ldt''], 0)
      else if arch = ''s390'' \<or> arch = ''s390x'' then
        (allows [''s390_pci_mmio_read'', ''s390_pci_mmio_write'', ''s390_runtime_instr''], 1)
      else ([], 0))"

definition capSyscalls :: "string \<Rightarrow> Syscall list" where
  "capSyscalls cap =
     (if cap = ''CAP_DAC_READ_SEARCH'' then
        allows [''open_by_handle_at'']
      else if cap = ''CAP_SYS_ADMIN'' then
        allows [''bpf'', ''clone'', ''fanotify_init'', ''lookup_dcookie'', ''mount'', ''name_to_handle_at'', ''perf_event_open'', ''setdomainname'', ''sethostname'', ''setns'', ''umount'', ''umount2'', ''unshare'']
      else if cap = ''CAP_SYS_BOOT'' then
        allows [''reboot'']
      else if cap = ''CAP_SYS_CHROOT'' then
        allows [''chroot'']
      else if cap = ''CAP_SYS_MODULE'' then
        allows [''delete_module'', ''init_module'', ''finit_module'', ''query_module'']
      else if cap = ''CAP_SYS_PACCT'' then
        allows [''acct'']
      else if cap = ''CAP_SYS_PTRACE'' then
        allows [''kcmp'', ''process_vm_readv'', ''process_vm_writev'', ''ptrace'']
      else if cap = ''CAP_SYS_RAWIO'' then
        allows [''iopl'', ''ioperm'']
      else if cap = ''CAP_SYS_TIME'' then
        allows [''settimeofday'', ''stime'', ''adjtimex'']
      else if cap = ''CAP_SYS_TTY_CONFIG'' then
        allows [''vhangup'']
      else [])"

text \<open>The loop over the capabilities with its two variables.\<close>

fun capLoop :: "string list \<Rightarrow> Syscall list \<Rightarrow> bool \<Rightarrow> Syscall list \<times> bool" where
  "capLoop [] syscalls capSysAdmin = (syscalls, capSysAdmin)"
| "capLoop (cap # caps) syscalls capSysAdmin =
     capLoop caps (syscalls @ capSyscalls cap) (if cap = ''CAP_SYS_ADMIN'' then True else capSysAdmin)"

definition cloneFlags :: "64 word" where
  "cloneFlags = 0x20000 OR 0x4000000 OR 0x8000000 OR 0x10000000 OR 0x20000000 OR 0x40000000"

definition cloneRule :: "nat \<Rightarrow> Syscall" where
  "cloneRule i = \<lparr>sc_Name = ''clone'', sc_Action = ActAllow,
     sc_Args = [\<lparr>arg_Index = i, arg_Value = cloneFlags, arg_ValueTwo = 0, arg_Op = OpMaskedEqual\<rparr>]\<rparr>"

definition DefaultProfile :: "string option \<Rightarrow> string list \<Rightarrow> SeccompProfile" where
  "DefaultProfile native caps =
     (let arch = (case native of None \<Rightarrow> '''' | Some a \<Rightarrow> a);
          (extra, sysCloneFlagsIndex) = archSyscalls arch;
          (syscalls, capSysAdmin) = capLoop caps (baseSyscalls @ extra) False in
      \<lparr>sp_DefaultAction = Some ActErrno,
       sp_Architectures = arches native,
       sp_Syscalls = (if \<not> capSysAdmin then syscalls @ [cloneRule sysCloneFlagsIndex] else syscalls)\<rparr>)"

section \<open>Conversion for the runtime\<close>

fun convertSyscalls :: "Syscall list \<Rightarrow> Syscall list" where
  "convertSyscalls [] = []"
| "convertSyscalls (sc # calls) =
     \<lparr>sc_Name = sc_Name sc, sc_Action = sc_Action sc,
      sc_Args = map (\<lambda>arg. \<lparr>arg_Index = arg_Index arg, arg_Value = arg_Value arg,
                             arg_ValueTwo = arg_ValueTwo arg, arg_Op = arg_Op arg\<rparr>) (sc_Args sc)\<rparr> # convertSyscalls calls"

definition setupSeccomp :: "SeccompProfile option \<Rightarrow> SeccompProfile option" where
  "setupSeccomp config = (case config of
      None \<Rightarrow> None
    | Some c \<Rightarrow>
        if sp_DefaultAction c = None \<and> length (sp_Syscalls c) = 0 then None
        else Some \<lparr>sp_DefaultAction = sp_DefaultAction c,
                   sp_Architectures = (if length (sp_Architectures c) > 0 then sp_Architectures c else []),
                   sp_Syscalls = convertSyscalls (sp_Syscalls c)\<rparr>)"

definition GetDefaultProfile :: "string option \<Rightarrow> string list \<Rightarrow> SeccompProfile option" where
  "GetDefaultProfile native caps = setupSeccomp (Some (DefaultProfile native caps))"

text \<open>\<open>LoadProfile\<close> takes the JSON decoder as an argument.\<close>

definition LoadProfile :: "(string \<Rightarrow> string + SeccompProfile) \<Rightarrow> string \<Rightarrow> string + SeccompProfile option" where
  "LoadProfile unmarshal body = (case unmarshal body of
      Inl err \<Rightarrow> Inl (''Decoding seccomp profile failed: '' @ err)
    | Inr config \<Rightarrow> Inr (setupSeccomp (Some config)))"

section \<open>What a profile allows\<close>

text \<open>
  A call is allowed if an entry of the list has its name, the action \<open>ActAllow\<close> and argument
  comparisons that all hold, as libseccomp documents its rules.
\<close>

definition argHolds :: "64 word list \<Rightarrow> Arg \<Rightarrow> bool" where
  "argHolds vs a = (arg_Index a < length vs \<and>
     (let v = vs ! arg_Index a in
      case arg_Op a of
        OpNotEqual \<Rightarrow> v \<noteq> arg_Value a
      | OpLessThan \<Rightarrow> v < arg_Value a
      | OpLessEqual \<Rightarrow> v \<le> arg_Value a
      | OpEqualTo \<Rightarrow> v = arg_Value a
      | OpGreaterEqual \<Rightarrow> v \<ge> arg_Value a
      | OpGreaterThan \<Rightarrow> v > arg_Value a
      | OpMaskedEqual \<Rightarrow> v AND arg_Value a = arg_ValueTwo a))"

definition entryMatches :: "string \<Rightarrow> 64 word list \<Rightarrow> Syscall \<Rightarrow> bool" where
  "entryMatches name vs e \<longleftrightarrow> sc_Name e = name \<and> sc_Action e = ActAllow \<and> list_all (argHolds vs) (sc_Args e)"

definition permits :: "SeccompProfile \<Rightarrow> string \<Rightarrow> 64 word list \<Rightarrow> bool" where
  "permits p name vs \<longleftrightarrow> list_ex (entryMatches name vs) (sp_Syscalls p)"

text \<open>
  The specification of the capabilities: which system calls a capability is meant to add. The
  calls of \<open>alwaysListed\<close> are in the unconditional list as well.
\<close>

definition capabilityTable :: "(string \<times> string) list" where
  "capabilityTable =
     [(''CAP_DAC_READ_SEARCH'', ''open_by_handle_at''),
      (''CAP_SYS_ADMIN'', ''bpf''),
      (''CAP_SYS_ADMIN'', ''clone''),
      (''CAP_SYS_ADMIN'', ''fanotify_init''),
      (''CAP_SYS_ADMIN'', ''lookup_dcookie''),
      (''CAP_SYS_ADMIN'', ''mount''),
      (''CAP_SYS_ADMIN'', ''name_to_handle_at''),
      (''CAP_SYS_ADMIN'', ''perf_event_open''),
      (''CAP_SYS_ADMIN'', ''setdomainname''),
      (''CAP_SYS_ADMIN'', ''sethostname''),
      (''CAP_SYS_ADMIN'', ''setns''),
      (''CAP_SYS_ADMIN'', ''umount''),
      (''CAP_SYS_ADMIN'', ''umount2''),
      (''CAP_SYS_ADMIN'', ''unshare''),
      (''CAP_SYS_BOOT'', ''reboot''),
      (''CAP_SYS_CHROOT'', ''chroot''),
      (''CAP_SYS_MODULE'', ''delete_module''),
      (''CAP_SYS_MODULE'', ''init_module''),
      (''CAP_SYS_MODULE'', ''finit_module''),
      (''CAP_SYS_MODULE'', ''query_module''),
      (''CAP_SYS_PACCT'', ''acct''),
      (''CAP_SYS_PTRACE'', ''kcmp''),
      (''CAP_SYS_PTRACE'', ''process_vm_readv''),
      (''CAP_SYS_PTRACE'', ''process_vm_writev''),
      (''CAP_SYS_PTRACE'', ''ptrace''),
      (''CAP_SYS_RAWIO'', ''iopl''),
      (''CAP_SYS_RAWIO'', ''ioperm''),
      (''CAP_SYS_TIME'', ''settimeofday''),
      (''CAP_SYS_TIME'', ''stime''),
      (''CAP_SYS_TIME'', ''adjtimex''),
      (''CAP_SYS_TTY_CONFIG'', ''vhangup'')]"

definition alwaysListed :: "string list" where
  "alwaysListed = [''mount'', ''umount2'', ''unshare'', ''reboot'', ''name_to_handle_at'']"

section \<open>The shape of the profile\<close>

lemma capLoop_eq: "capLoop caps s b = (s @ concat (map capSyscalls caps), b \<or> ''CAP_SYS_ADMIN'' \<in> set caps)"
  by (induction caps arbitrary: s b) auto

abbreviation archName :: "string option \<Rightarrow> string" where
  "archName native \<equiv> case native of None \<Rightarrow> '''' | Some a \<Rightarrow> a"

lemma profile_syscalls:
  "set (sp_Syscalls (DefaultProfile native caps)) =
     set baseSyscalls \<union> set (fst (archSyscalls (archName native))) \<union> (\<Union>c\<in>set caps. set (capSyscalls c)) \<union>
     (if ''CAP_SYS_ADMIN'' \<in> set caps then {} else {cloneRule (snd (archSyscalls (archName native)))})"
  by (auto simp: DefaultProfile_def Let_def capLoop_eq split_beta)

lemma permits_iff: "permits p name vs \<longleftrightarrow> (\<exists>e\<in>set (sp_Syscalls p). entryMatches name vs e)"
  by (simp add: permits_def list_ex_iff)

lemma set_allows: "e \<in> set (allows ns) \<longleftrightarrow> (\<exists>n\<in>set ns. e = \<lparr>sc_Name = n, sc_Action = ActAllow, sc_Args = []\<rparr>)"
  by (auto simp: allows_def)

lemma matches_allows: "(\<exists>e\<in>set (allows ns). entryMatches name vs e) \<longleftrightarrow> name \<in> set ns"
  by (auto simp: allows_def entryMatches_def)

lemma cap_clone: "\<exists>e\<in>set (capSyscalls ''CAP_SYS_ADMIN''). entryMatches ''clone'' vs e"
  by (simp add: capSyscalls_def matches_allows)

definition needsCap :: "string list" where
  "needsCap = filter (\<lambda>name. name \<notin> set alwaysListed) (map snd capabilityTable)"

lemma needsCap_eq:
  "needsCap =
     [''open_by_handle_at'', ''bpf'', ''clone'', ''fanotify_init'', ''lookup_dcookie'', ''perf_event_open'',
      ''setdomainname'', ''sethostname'', ''setns'', ''umount'', ''chroot'', ''delete_module'',
      ''init_module'', ''finit_module'', ''query_module'', ''acct'', ''kcmp'', ''process_vm_readv'',
      ''process_vm_writev'', ''ptrace'', ''iopl'', ''ioperm'', ''settimeofday'', ''stime'',
      ''adjtimex'', ''vhangup'']"
  by (simp add: needsCap_def capabilityTable_def alwaysListed_def)

definition capFree :: "Syscall list \<Rightarrow> bool" where
  "capFree es \<longleftrightarrow> list_all (\<lambda>e. sc_Name e \<notin> set needsCap) es"

lemmas capFree_simps = capFree_def allows_def needsCap_eq

lemma base_capFree:
  "capFree baseSyscalls1" "capFree baseSyscalls2" "capFree baseSyscalls3" "capFree baseSyscalls4"
  "capFree baseSyscalls5" "capFree baseSyscalls6" "capFree baseSyscalls7" "capFree baseSyscalls8"
  "capFree baseSyscalls9" "capFree baseSyscalls10" "capFree baseSyscalls11"
  by (simp_all add: capFree_simps baseSyscalls1_def baseSyscalls2_def baseSyscalls3_def baseSyscalls4_def
      baseSyscalls5_def baseSyscalls6_def baseSyscalls7_def baseSyscalls8_def baseSyscalls9_def
      baseSyscalls10_def baseSyscalls11_def)

lemma capFree_baseSyscalls: "capFree baseSyscalls"
  using base_capFree by (simp add: baseSyscalls_def capFree_def)

lemma capFree_archSyscalls: "capFree (fst (archSyscalls a))"
  by (simp add: archSyscalls_def capFree_simps)

text \<open>A name that needs a capability is allowed only by an entry that a capability added.\<close>

lemma permits_needsCap:
  assumes "name \<in> set needsCap"
  shows "permits (DefaultProfile native caps) name vs \<longleftrightarrow>
    (\<exists>c\<in>set caps. \<exists>e\<in>set (capSyscalls c). entryMatches name vs e) \<or>
    ''CAP_SYS_ADMIN'' \<notin> set caps \<and> entryMatches name vs (cloneRule (snd (archSyscalls (archName native))))"
proof -
  have "\<not> entryMatches name vs e" if "e \<in> set baseSyscalls \<union> set (fst (archSyscalls a))" for e a
    using that assms capFree_baseSyscalls capFree_archSyscalls [of a]
    by (auto simp: capFree_def list_all_iff entryMatches_def)
  then show ?thesis by (auto simp: permits_iff profile_syscalls split: if_splits)
qed

lemma capSyscalls_names:
  "map sc_Name (capSyscalls cap) =
     (if cap = ''CAP_DAC_READ_SEARCH'' then
        [''open_by_handle_at'']
      else if cap = ''CAP_SYS_ADMIN'' then
        [''bpf'', ''clone'', ''fanotify_init'', ''lookup_dcookie'', ''mount'', ''name_to_handle_at'', ''perf_event_open'', ''setdomainname'', ''sethostname'', ''setns'', ''umount'', ''umount2'', ''unshare'']
      else if cap = ''CAP_SYS_BOOT'' then
        [''reboot'']
      else if cap = ''CAP_SYS_CHROOT'' then
        [''chroot'']
      else if cap = ''CAP_SYS_MODULE'' then
        [''delete_module'', ''init_module'', ''finit_module'', ''query_module'']
      else if cap = ''CAP_SYS_PACCT'' then
        [''acct'']
      else if cap = ''CAP_SYS_PTRACE'' then
        [''kcmp'', ''process_vm_readv'', ''process_vm_writev'', ''ptrace'']
      else if cap = ''CAP_SYS_RAWIO'' then
        [''iopl'', ''ioperm'']
      else if cap = ''CAP_SYS_TIME'' then
        [''settimeofday'', ''stime'', ''adjtimex'']
      else if cap = ''CAP_SYS_TTY_CONFIG'' then
        [''vhangup'']
      else [])"
  by (simp add: capSyscalls_def allows_def)

lemma capSyscalls_matches: "(\<exists>e\<in>set (capSyscalls c). entryMatches name vs e) \<longleftrightarrow> name \<in> set (map sc_Name (capSyscalls c))"
proof -
  have "capSyscalls c = allows (map sc_Name (capSyscalls c))" by (simp add: capSyscalls_def allows_def)
  then show ?thesis by (metis matches_allows)
qed

lemma capSyscalls_clone: "(\<exists>e\<in>set (capSyscalls c). entryMatches ''clone'' vs e) \<longleftrightarrow> c = ''CAP_SYS_ADMIN''"
  unfolding capSyscalls_matches capSyscalls_names by simp

lemma capSyscalls_table: "(\<exists>e\<in>set (capSyscalls cap). entryMatches name vs e) \<longleftrightarrow> (cap, name) \<in> set capabilityTable"
proof -
  have "set (map sc_Name (capSyscalls cap)) = set (map snd (filter (\<lambda>r. cap = fst r) capabilityTable))"
    unfolding capSyscalls_names by (simp add: capabilityTable_def)
  moreover have "name \<in> set (map snd (filter (\<lambda>r. cap = fst r) capabilityTable)) \<longleftrightarrow> (cap, name) \<in> set capabilityTable"
    by force
  ultimately show ?thesis unfolding capSyscalls_matches by simp
qed

lemma cloneRule_only_clone: "entryMatches name vs (cloneRule i) \<Longrightarrow> name = ''clone''"
  by (simp add: entryMatches_def cloneRule_def)

text \<open>A capability adds the calls of its rows, and nothing else.\<close>

lemma permits_capabilities:
  "permits (DefaultProfile native caps) name vs \<longleftrightarrow>
     permits (DefaultProfile native []) name vs \<or> (\<exists>cap. cap \<in> set caps \<and> (cap, name) \<in> set capabilityTable)"
proof -
  let ?base = "\<exists>e\<in>set baseSyscalls \<union> set (fst (archSyscalls (archName native))). entryMatches name vs e"
  let ?rule = "entryMatches name vs (cloneRule (snd (archSyscalls (archName native))))"
  have eq: "permits (DefaultProfile native cs) name vs \<longleftrightarrow> ?base \<or> (\<exists>c\<in>set cs. \<exists>e\<in>set (capSyscalls c). entryMatches name vs e)
      \<or> ''CAP_SYS_ADMIN'' \<notin> set cs \<and> ?rule" for cs
    by (auto simp: permits_iff profile_syscalls)
  have "?rule \<Longrightarrow> (''CAP_SYS_ADMIN'', name) \<in> set capabilityTable"
    by (drule cloneRule_only_clone) (simp add: capabilityTable_def)
  then show ?thesis unfolding eq capSyscalls_table by auto
qed

lemma permits_alwaysListed: "name \<in> set alwaysListed \<Longrightarrow> permits (DefaultProfile native caps) name vs"
proof -
  assume "name \<in> set alwaysListed"
  then have "\<exists>e\<in>set baseSyscalls11. entryMatches name vs e"
    unfolding baseSyscalls11_def matches_allows alwaysListed_def by auto
  moreover have "set baseSyscalls11 \<subseteq> set (sp_Syscalls (DefaultProfile native caps))"
    unfolding profile_syscalls baseSyscalls_def by auto
  ultimately show ?thesis unfolding permits_iff by blast
qed

lemma convertSyscalls_id: "convertSyscalls es = es"
proof (induction es)
  case (Cons e es)
  have "(\<lambda>a. \<lparr>arg_Index = arg_Index a, arg_Value = arg_Value a, arg_ValueTwo = arg_ValueTwo a, arg_Op = arg_Op a\<rparr>) = id"
    by (rule ext) simp
  with Cons show ?case by simp
qed simp

lemma permits_clone:
  "permits (DefaultProfile native caps) ''clone'' vs \<longleftrightarrow> ''CAP_SYS_ADMIN'' \<in> set caps \<or>
     entryMatches ''clone'' vs (cloneRule (snd (archSyscalls (archName native))))"
  by (auto simp: permits_needsCap needsCap_eq capSyscalls_clone)

text \<open>The mask covers six bits.\<close>

lemma cloneFlags_clear:
  "v AND cloneFlags = 0 \<longleftrightarrow> \<not> bit v 17 \<and> \<not> bit v 26 \<and> \<not> bit v 27 \<and> \<not> bit v 28 \<and> \<not> bit v 29 \<and> \<not> bit v 30"
proof -
  have mask: "cloneFlags = 2 ^ 17 OR 2 ^ 26 OR 2 ^ 27 OR 2 ^ 28 OR 2 ^ 29 OR 2 ^ 30" by (simp add: cloneFlags_def)
  show ?thesis
    unfolding mask by (simp only: bit.conj_disj_distrib or_eq_0_iff and_exp_eq_0_iff_not_bit)
qed

section \<open>The properties\<close>

text \<open>
  C7. A container without \<open>CAP_SYS_ADMIN\<close> may call \<open>clone\<close> exactly with a flag word in which the
  six bits for a new mount (bit 17), UTS (26), IPC (27), user (28), PID (29) and network (30)
  namespace are clear, whatever its other bits are; the flags are the first argument, on s390 the
  second. With the capability every \<open>clone\<close> is allowed. The bit 25 of \<open>CLONE_NEWCGROUP\<close> is not
  among the six.
\<close>

theorem clone_needs_sys_admin_for_namespaces:
  "permits (DefaultProfile native caps) ''clone'' vs \<longleftrightarrow> ''CAP_SYS_ADMIN'' \<in> set caps \<or>
     (let i = (if native = Some ''s390'' \<or> native = Some ''s390x'' then 1 else 0); flags = vs ! i in
      i < length vs \<and> \<not> bit flags 17 \<and> \<not> bit flags 26 \<and> \<not> bit flags 27 \<and> \<not> bit flags 28 \<and>
      \<not> bit flags 29 \<and> \<not> bit flags 30)"
proof -
  have "snd (archSyscalls (archName native)) = (if native = Some ''s390'' \<or> native = Some ''s390x'' then 1 else 0)"
    by (auto simp: archSyscalls_def split: option.splits)
  then show ?thesis
    by (simp add: permits_clone entryMatches_def cloneRule_def argHolds_def Let_def cloneFlags_clear)
qed

theorem clone_needs_sys_admin_for_namespaces_witness:
  "\<not> permits (DefaultProfile (Some ''amd64'') []) ''clone'' [0x10000000] \<and>
   permits (DefaultProfile (Some ''amd64'') []) ''clone'' [0x02000000 OR 0x11] \<and>
   permits (DefaultProfile (Some ''s390x'') []) ''clone'' [0x20000, 0x11] \<and>
   permits (DefaultProfile (Some ''amd64'') [''CAP_SYS_ADMIN'']) ''clone'' [0x10000000]"
  unfolding clone_needs_sys_admin_for_namespaces by code_simp

text \<open>
  C8. What a capability changes is exactly its rows of the capability table, on every architecture
  and for all arguments: a container may make a call if a container without capabilities may, or
  if it has a capability that the table lists with the call. Of the calls of the table a container
  without capabilities may make just \<open>mount\<close>, \<open>umount2\<close>, \<open>unshare\<close>, \<open>reboot\<close> and
  \<open>name_to_handle_at\<close>, which the unconditional list has too, and \<open>clone\<close> under the rule of C7; each
  of the others is allowed exactly with its capability.
\<close>

theorem capabilities_add_their_table:
  "(permits (DefaultProfile native caps) name vs \<longleftrightarrow>
      permits (DefaultProfile native []) name vs \<or>
      (\<exists>cap. cap \<in> set caps \<and> (cap, name) \<in> set capabilityTable)) \<and>
   (name \<in> set (map snd capabilityTable) \<and> name \<noteq> ''clone'' \<longrightarrow>
      (permits (DefaultProfile native []) name vs \<longleftrightarrow>
       name \<in> {''mount'', ''umount2'', ''unshare'', ''reboot'', ''name_to_handle_at''}))"
proof (intro conjI impI permits_capabilities)
  assume name: "name \<in> set (map snd capabilityTable) \<and> name \<noteq> ''clone''"
  show "permits (DefaultProfile native []) name vs \<longleftrightarrow>
      name \<in> {''mount'', ''umount2'', ''unshare'', ''reboot'', ''name_to_handle_at''}"
  proof (cases "name \<in> set alwaysListed")
    case False
    then have "name \<in> set needsCap" using name by (simp add: needsCap_def)
    then have "\<not> permits (DefaultProfile native []) name vs"
      using name cloneRule_only_clone by (auto simp: permits_needsCap)
    with False show ?thesis by (simp add: alwaysListed_def)
  qed (simp add: permits_alwaysListed, simp add: alwaysListed_def)
qed

theorem capabilities_add_their_table_witness:
  "\<not> permits (DefaultProfile (Some ''amd64'') [''CAP_SYS_CHROOT'']) ''ptrace'' [] \<and>
   permits (DefaultProfile (Some ''amd64'') [''CAP_SYS_PTRACE'']) ''ptrace'' []"
  using capabilities_add_their_table [of "Some ''amd64''" "[''CAP_SYS_CHROOT'']" "''ptrace''" "[]"]
    capabilities_add_their_table [of "Some ''amd64''" "[''CAP_SYS_PTRACE'']" "''ptrace''" "[]"]
  by (simp add: capabilityTable_def)



text \<open>
  The profile that the runtime gets is the profile that \<open>DefaultProfile\<close> builds, entry by
  entry, with the denying default action: the conversion loses nothing, and seccomp is not taken
  to be disabled.
\<close>

theorem default_profile_converted_unchanged:
  "GetDefaultProfile native caps = Some (DefaultProfile native caps) \<and>
   sp_DefaultAction (DefaultProfile native caps) = Some ActErrno"
  by (simp add: GetDefaultProfile_def setupSeccomp_def convertSyscalls_id DefaultProfile_def Let_def split_beta)

end
