(* ===== verification/Regex.thy ===== *)
theory Regex
  imports GoStd
begin

text \<open>
  Regular expressions as the sources use them: an executable matcher by derivatives, for anchored
  expressions, and the language of an expression as the reference that the matcher is proved against.
\<close>

section \<open>Expressions\<close>

datatype rexp =
    Zero
  | One
  | Cls "char \<Rightarrow> bool"
  | Alt rexp rexp
  | Cat rexp rexp
  | Star rexp

definition Lit :: "char \<Rightarrow> rexp" where "Lit c = Cls (\<lambda>x. x = c)"

definition Plus :: "rexp \<Rightarrow> rexp" where "Plus r = Cat r (Star r)"

definition Opt :: "rexp \<Rightarrow> rexp" where "Opt r = Alt One r"

fun Rep :: "nat \<Rightarrow> rexp \<Rightarrow> rexp" where
  "Rep 0 r = One"
| "Rep (Suc n) r = Cat r (Rep n r)"

fun Upto :: "nat \<Rightarrow> rexp \<Rightarrow> rexp" where
  "Upto 0 r = One"
| "Upto (Suc n) r = Alt One (Cat r (Upto n r))"

fun nullable :: "rexp \<Rightarrow> bool" where
  "nullable Zero = False"
| "nullable One = True"
| "nullable (Cls p) = False"
| "nullable (Alt r s) = (nullable r \<or> nullable s)"
| "nullable (Cat r s) = (nullable r \<and> nullable s)"
| "nullable (Star r) = True"

text \<open>Sums and products that drop what matches nothing, so that derivatives stay small.\<close>

fun alt :: "rexp \<Rightarrow> rexp \<Rightarrow> rexp" where
  "alt Zero s = s"
| "alt r Zero = r"
| "alt r s = Alt r s"

fun cat :: "rexp \<Rightarrow> rexp \<Rightarrow> rexp" where
  "cat Zero s = Zero"
| "cat One s = s"
| "cat r s = Cat r s"

fun deriv :: "char \<Rightarrow> rexp \<Rightarrow> rexp" where
  "deriv c Zero = Zero"
| "deriv c One = Zero"
| "deriv c (Cls p) = (if p c then One else Zero)"
| "deriv c (Alt r s) = alt (deriv c r) (deriv c s)"
| "deriv c (Cat r s) = (if nullable r then alt (cat (deriv c r) s) (deriv c s) else cat (deriv c r) s)"
| "deriv c (Star r) = cat (deriv c r) (Star r)"

text \<open>\<open>MatchString\<close> of the anchored expression.\<close>

definition matches :: "rexp \<Rightarrow> string \<Rightarrow> bool" where
  "matches r s = nullable (fold deriv s r)"

section \<open>Languages\<close>

inductive_set star :: "string set \<Rightarrow> string set" for L where
  star_Nil: "[] \<in> star L"
| star_step: "x \<in> L \<Longrightarrow> y \<in> star L \<Longrightarrow> x @ y \<in> star L"

fun lang :: "rexp \<Rightarrow> string set" where
  "lang Zero = {}"
| "lang One = {[]}"
| "lang (Cls p) = {[c] |c. p c}"
| "lang (Alt r s) = lang r \<union> lang s"
| "lang (Cat r s) = {x @ y |x y. x \<in> lang r \<and> y \<in> lang s}"
| "lang (Star r) = star (lang r)"

lemma nullable_lang: "nullable r \<longleftrightarrow> [] \<in> lang r"
  by (induction r) (auto intro: star_Nil)

lemma star_Cons: "c # z \<in> star L \<longleftrightarrow> (\<exists>x y. z = x @ y \<and> c # x \<in> L \<and> y \<in> star L)"
proof
  assume "c # z \<in> star L"
  then show "\<exists>x y. z = x @ y \<and> c # x \<in> L \<and> y \<in> star L"
  proof (induction "c # z" arbitrary: z rule: star.induct)
    case (star_step x y)
    then show ?case by (cases x) auto
  qed
next
  assume "\<exists>x y. z = x @ y \<and> c # x \<in> L \<and> y \<in> star L"
  then obtain x y where "z = x @ y" "c # x \<in> L" "y \<in> star L" by blast
  then show "c # z \<in> star L" using star_step [of "c # x" L y] by simp
qed

lemma lang_alt [simp]: "lang (alt r s) = lang (Alt r s)"
  by (induction r s rule: alt.induct) auto

lemma lang_cat [simp]: "lang (cat r s) = lang (Cat r s)"
  by (induction r s rule: cat.induct) auto

lemma lang_deriv: "z \<in> lang (deriv c r) \<longleftrightarrow> c # z \<in> lang r"
proof (induction r arbitrary: z)
  case (Cat r s)
  have "c # z \<in> lang (Cat r s) \<longleftrightarrow>
      (\<exists>x y. z = x @ y \<and> c # x \<in> lang r \<and> y \<in> lang s) \<or> ([] \<in> lang r \<and> c # z \<in> lang s)"
    by (auto simp: Cons_eq_append_conv)
  then show ?case using Cat by (auto simp: nullable_lang)
next
  case (Star r)
  then show ?case by (auto simp: star_Cons)
qed auto

theorem matches_lang: "matches r s \<longleftrightarrow> s \<in> lang r"
  unfolding matches_def
  by (induction s arbitrary: r) (simp_all add: nullable_lang lang_deriv)

lemma lang_defs:
  "lang (Lit c) = {[c]}" "lang (Opt r) = insert [] (lang r)"
  "lang (Plus r) = {x @ y |x y. x \<in> lang r \<and> y \<in> star (lang r)}"
  by (auto simp: Lit_def Opt_def Plus_def)

text \<open>The characters of a matched string are characters that occur in the expression.\<close>

fun chars :: "rexp \<Rightarrow> char \<Rightarrow> bool" where
  "chars Zero c = False"
| "chars One c = False"
| "chars (Cls p) c = p c"
| "chars (Alt r s) c = (chars r c \<or> chars s c)"
| "chars (Cat r s) c = (chars r c \<or> chars s c)"
| "chars (Star r) c = chars r c"

lemma star_chars: "s \<in> star L \<Longrightarrow> (\<And>x c. x \<in> L \<Longrightarrow> c \<in> set x \<Longrightarrow> P c) \<Longrightarrow> c \<in> set s \<Longrightarrow> P c"
  by (induction rule: star.induct) auto

lemma lang_chars: "s \<in> lang r \<Longrightarrow> c \<in> set s \<Longrightarrow> chars r c"
proof (induction r arbitrary: s c)
  case (Star r)
  then show ?case using star_chars [of s "lang r" "chars r" c] by auto
qed auto

lemma chars_defs [simp]:
  "chars (Lit d) c \<longleftrightarrow> c = d" "chars (Opt r) c \<longleftrightarrow> chars r c" "chars (Plus r) c \<longleftrightarrow> chars r c"
  by (simp_all add: Lit_def Opt_def Plus_def)

lemma Rep_chars: "chars (Rep n r) c \<Longrightarrow> chars r c"
  by (induction n) auto

lemma Upto_chars: "chars (Upto n r) c \<Longrightarrow> chars r c"
  by (induction n) auto

end
