(* ===== verification/RefNames.thy ===== *)
theory RefNames
  imports Regex Digest
begin

text \<open>
  Image references: the grammar of \<^verbatim>\<open>distribution/reference\<close> and the normalised references of
  \<^verbatim>\<open>reference/reference.go\<close> and \<^verbatim>\<open>reference/utils.go\<close>. Strings are ASCII, as the grammar requires of every
  reference it accepts.
\<close>

section \<open>The grammar\<close>

definition lowerNum :: "char \<Rightarrow> bool" where "lowerNum c \<longleftrightarrow> is_lower c \<or> is_digit c"
definition alpha :: "char \<Rightarrow> bool" where "alpha c \<longleftrightarrow> is_lower c \<or> is_upper c"
definition alphaNum :: "char \<Rightarrow> bool" where "alphaNum c \<longleftrightarrow> alpha c \<or> is_digit c"
definition alphaNumDash :: "char \<Rightarrow> bool" where "alphaNumDash c \<longleftrightarrow> alphaNum c \<or> c = CHR ''-''"
definition wordChar :: "char \<Rightarrow> bool" where "wordChar c \<longleftrightarrow> alphaNum c \<or> c = CHR ''_''"
definition tagChar :: "char \<Rightarrow> bool" where "tagChar c \<longleftrightarrow> wordChar c \<or> c = CHR ''.'' \<or> c = CHR ''-''"
definition xdigit :: "char \<Rightarrow> bool" where
  "xdigit c \<longleftrightarrow> is_digit c \<or> in_range CHR ''a'' CHR ''f'' c \<or> in_range CHR ''A'' CHR ''F'' c"
definition lowerHex :: "char \<Rightarrow> bool" where "lowerHex c \<longleftrightarrow> is_digit c \<or> in_range CHR ''a'' CHR ''f'' c"
definition algSep :: "char \<Rightarrow> bool" where
  "algSep c \<longleftrightarrow> c = CHR ''-'' \<or> c = CHR ''_'' \<or> c = CHR ''+'' \<or> c = CHR ''.''"
definition dotOrUnderscore :: "char \<Rightarrow> bool" where "dotOrUnderscore c \<longleftrightarrow> c = CHR ''.'' \<or> c = CHR ''_''"

definition alphaNumericRegexp :: rexp where "alphaNumericRegexp = Plus (Cls lowerNum)"

definition separatorRegexp :: rexp where
  "separatorRegexp = Alt (Cls dotOrUnderscore) (Alt (Cat (Lit CHR ''_'') (Lit CHR ''_'')) (Star (Lit CHR ''-'')))"

definition nameComponentRegexp :: rexp where
  "nameComponentRegexp = Cat alphaNumericRegexp (Opt (Plus (Cat separatorRegexp alphaNumericRegexp)))"

definition hostnameComponentRegexp :: rexp where
  "hostnameComponentRegexp =
     Alt (Cls alphaNum) (Cat (Cls alphaNum) (Cat (Star (Cls alphaNumDash)) (Cls alphaNum)))"

definition hostnameRegexp :: rexp where
  "hostnameRegexp = Cat hostnameComponentRegexp
     (Cat (Opt (Plus (Cat (Lit CHR ''.'') hostnameComponentRegexp)))
          (Opt (Cat (Lit CHR '':'') (Plus (Cls is_digit)))))"

definition TagRegexp :: rexp where "TagRegexp = Cat (Cls wordChar) (Upto 127 (Cls tagChar))"

definition DigestRegexp :: rexp where
  "DigestRegexp = Cat (Cls alpha) (Cat (Star (Cls alphaNum))
     (Cat (Star (Cat (Cls algSep) (Cat (Cls alpha) (Star (Cls alphaNum)))))
     (Cat (Lit CHR '':'') (Cat (Rep 32 (Cls xdigit)) (Star (Cls xdigit))))))"

text \<open>The second capturing group of \<open>anchoredNameRegexp\<close>, and the name.\<close>

definition pathRegexp :: rexp where
  "pathRegexp = Cat nameComponentRegexp (Opt (Plus (Cat (Lit CHR ''/'') nameComponentRegexp)))"

definition NameRegexp :: rexp where
  "NameRegexp = Cat (Opt (Cat hostnameRegexp (Lit CHR ''/''))) pathRegexp"

definition NameTotalLengthMax :: nat where "NameTotalLengthMax = 255"

section \<open>References of the distribution package\<close>

datatype ref_err = ErrReferenceInvalidFormat | ErrTagInvalidFormat | ErrRefDigestInvalidFormat
  | ErrNameEmpty | ErrNameTooLong | ErrRefDigest digest_err
  | ErrParsing string | ErrNotLowercase | ErrHexName string | ErrInvalidHostname string

text \<open>
  \<open>ReferenceRegexp.FindStringSubmatch\<close>, giving the groups for the name, the tag and the digest. A digest
  starts at the \<open>@\<close>, which nothing else contains. A tag starts at the last colon before it, unless a slash
  follows: then the colon is the one of the host's port. \<open>findReference_iff\<close> below shows that
  these are the groups of every match of the expression.
\<close>

definition lastColon :: "string \<Rightarrow> string \<times> string option" where
  "lastColon front = (let after = rev (takeWhile (\<lambda>c. c \<noteq> CHR '':'') (rev front)) in
     if CHR '':'' \<in> set front \<and> CHR ''/'' \<notin> set after
     then (take (length front - length after - 1) front, Some after) else (front, None))"

definition atSign :: "string \<Rightarrow> string \<times> string option" where
  "atSign s = (let front = takeWhile (\<lambda>c. c \<noteq> CHR ''@'') s in
     (front, if CHR ''@'' \<in> set s then Some (drop (length front + 1) s) else None))"

definition groupOk :: "rexp \<Rightarrow> string option \<Rightarrow> bool" where
  "groupOk r g \<longleftrightarrow> (case g of None \<Rightarrow> True | Some x \<Rightarrow> matches r x)"

definition findReference :: "string \<Rightarrow> (string \<times> string option \<times> string option) option" where
  "findReference s = (case atSign s of (front, dg) \<Rightarrow> case lastColon front of (nm, tg) \<Rightarrow>
     if matches NameRegexp nm \<and> groupOk TagRegexp tg \<and> groupOk DigestRegexp dg
     then Some (nm, tg, dg) else None)"

definition distParseNamed :: "string \<Rightarrow> ref_err + string \<times> string option \<times> string option" where
  "distParseNamed s = (case findReference s of
      None \<Rightarrow> Inl (if s = [] then ErrNameEmpty else ErrReferenceInvalidFormat)
    | Some (nm, tg, dg) \<Rightarrow>
        if length nm > NameTotalLengthMax then Inl ErrNameTooLong
        else case dg of
          None \<Rightarrow> Inr (nm, tg, None)
        | Some d \<Rightarrow> (case ParseDigest d of
              (_, Some e) \<Rightarrow> Inl (ErrRefDigest e)
            | (d', None) \<Rightarrow> Inr (nm, tg, Some d')))"

definition distWithName :: "string \<Rightarrow> ref_err + string" where
  "distWithName nm =
     (if length nm > NameTotalLengthMax then Inl ErrNameTooLong
      else if \<not> matches NameRegexp nm then Inl ErrReferenceInvalidFormat
      else Inr nm)"

text \<open>
  \<open>SplitHostname\<close>: the host of \<open>anchoredNameRegexp\<close> has no slash, so its group can only end at the first
  one, and is taken whenever it matches and the path matches the rest.
\<close>

definition SplitHostname :: "string \<Rightarrow> string \<times> string" where
  "SplitHostname nm = (case indexByte CHR ''/'' nm of
      None \<Rightarrow> ([], nm)
    | Some i \<Rightarrow>
        if matches hostnameRegexp (take i nm) \<and> matches pathRegexp (drop (i + 1) nm)
        then (take i nm, drop (i + 1) nm) else ([], nm))"

section \<open>Normalised references\<close>

text \<open>The three types behind \<open>Named\<close>: \<open>namedRef\<close>, \<open>taggedRef\<close> and \<open>canonicalRef\<close>.\<close>

datatype named = NamedRef string | TaggedRef string string | CanonicalRef string string

fun Name :: "named \<Rightarrow> string" where
  "Name (NamedRef n) = n"
| "Name (TaggedRef n t) = n"
| "Name (CanonicalRef n d) = n"

fun String :: "named \<Rightarrow> string" where
  "String (NamedRef n) = n"
| "String (TaggedRef n t) = n @ CHR '':'' # t"
| "String (CanonicalRef n d) = n @ CHR ''@'' # d"

definition DefaultTag :: string where "DefaultTag = ''latest''"
definition DefaultHostname :: string where "DefaultHostname = ''docker.io''"
definition LegacyDefaultHostname :: string where "LegacyDefaultHostname = ''index.docker.io''"
definition DefaultRepoPrefix :: string where "DefaultRepoPrefix = ''library/''"

definition ValidateID :: "string \<Rightarrow> bool" where
  "ValidateID s \<longleftrightarrow> matches (Rep 64 (Cls lowerHex)) s"

definition TrimPrefix :: "string \<Rightarrow> string \<Rightarrow> string" where
  "TrimPrefix s p = (if prefix p s then drop (length p) s else s)"

definition splitHostname :: "string \<Rightarrow> string \<times> string" where
  "splitHostname nm =
     (let (hostname, remoteName) =
        (case indexByte CHR ''/'' nm of
           None \<Rightarrow> ([], nm)
         | Some i \<Rightarrow>
             if CHR ''.'' \<notin> set (take i nm) \<and> CHR '':'' \<notin> set (take i nm) \<and> take i nm \<noteq> ''localhost''
             then ([], nm) else (take i nm, drop (i + 1) nm));
        hostname = (if hostname = LegacyDefaultHostname then DefaultHostname else hostname);
        remoteName = (if hostname = DefaultHostname \<and> CHR ''/'' \<notin> set remoteName
                      then DefaultRepoPrefix @ remoteName else remoteName)
      in (hostname, remoteName))"

definition normalize :: "string \<Rightarrow> ref_err + string" where
  "normalize nm = (case splitHostname nm of (host, remoteName) \<Rightarrow>
     if list_ex is_upper remoteName then Inl ErrNotLowercase
     else if host = DefaultHostname then Inr (host @ CHR ''/'' # TrimPrefix remoteName DefaultRepoPrefix)
     else Inr nm)"

definition validateName :: "string \<Rightarrow> ref_err option" where
  "validateName nm =
     (if ValidateID (TrimPrefix nm (DefaultHostname @ ''/'')) then Some (ErrHexName nm) else None)"

definition WithName :: "string \<Rightarrow> ref_err + named" where
  "WithName nm0 = (case normalize nm0 of
      Inl e \<Rightarrow> Inl e
    | Inr nm \<Rightarrow> (case validateName nm of
          Some e \<Rightarrow> Inl e
        | None \<Rightarrow> (case distWithName nm of Inl e \<Rightarrow> Inl e | Inr r \<Rightarrow> Inr (NamedRef r))))"

definition WithTag :: "named \<Rightarrow> string \<Rightarrow> ref_err + named" where
  "WithTag r t = (if matches TagRegexp t then Inr (TaggedRef (Name r) t) else Inl ErrTagInvalidFormat)"

definition WithDigest :: "named \<Rightarrow> string \<Rightarrow> ref_err + named" where
  "WithDigest r d = (if matches DigestRegexp d then Inr (CanonicalRef (Name r) d) else Inl ErrRefDigestInvalidFormat)"

definition ParseNamed :: "string \<Rightarrow> ref_err + named" where
  "ParseNamed s = (case distParseNamed s of
      Inl _ \<Rightarrow> Inl (ErrParsing s)
    | Inr (nm, tg, dg) \<Rightarrow> (case WithName nm of
          Inl e \<Rightarrow> Inl e
        | Inr r \<Rightarrow> (case dg of
              Some d \<Rightarrow> WithDigest r d
            | None \<Rightarrow> (case tg of Some t \<Rightarrow> WithTag r t | None \<Rightarrow> Inr r))))"

definition FullName :: "named \<Rightarrow> string" where
  "FullName r = (case splitHostname (Name r) of (hostname, remoteName) \<Rightarrow>
     if hostname = [] then remoteName else hostname @ CHR ''/'' # remoteName)"

definition Hostname :: "named \<Rightarrow> string" where "Hostname r = fst (splitHostname (Name r))"

definition RemoteName :: "named \<Rightarrow> string" where "RemoteName r = snd (splitHostname (Name r))"

fun IsNameOnly :: "named \<Rightarrow> bool" where
  "IsNameOnly (TaggedRef n t) = False"
| "IsNameOnly (CanonicalRef n d) = False"
| "IsNameOnly (NamedRef n) = True"

text \<open>The error of \<open>WithTag\<close> is dropped; \<open>WithTag_default\<close> below shows that there is none.\<close>

definition WithDefaultTag :: "named \<Rightarrow> named" where
  "WithDefaultTag r = (if IsNameOnly r then (case WithTag r DefaultTag of Inr r' \<Rightarrow> r' | Inl _ \<Rightarrow> r) else r)"

definition ParseIDOrReference :: "string \<Rightarrow> ref_err + string + named" where
  "ParseIDOrReference idOrRef =
     (let s = (if ValidateID idOrRef then ''sha256:'' @ idOrRef else idOrRef) in
      case ParseDigest s of
        (d, None) \<Rightarrow> Inr (Inl d)
      | (_, Some _) \<Rightarrow> (case ParseNamed s of Inl e \<Rightarrow> Inl e | Inr r \<Rightarrow> Inr (Inr r)))"

section \<open>Default registries\<close>

definition isValidHostname :: "string \<Rightarrow> bool" where
  "isValidHostname h \<longleftrightarrow> h \<noteq> [] \<and> CHR ''/'' \<notin> set h \<and>
     (CHR ''.'' \<in> set h \<or> CHR '':'' \<in> set h \<or> h = ''localhost'')"

definition SubstituteReferenceName :: "named \<Rightarrow> string \<Rightarrow> ref_err + named" where
  "SubstituteReferenceName r reposName = (case WithName reposName of
      Inl e \<Rightarrow> Inl e
    | Inr reposNameRef \<Rightarrow> (case r of
          TaggedRef _ t \<Rightarrow> WithTag reposNameRef t
        | CanonicalRef _ d \<Rightarrow> WithDigest reposNameRef d
        | NamedRef _ \<Rightarrow> Inr reposNameRef))"

text \<open>\<open>SplitReposName\<close> returns the index name in every case, also with an error.\<close>

definition SplitReposName :: "named \<Rightarrow> string \<times> (ref_err + named)" where
  "SplitReposName r = (case SplitHostname (Name r) of (indexName, remoteNameStr) \<Rightarrow>
     if \<not> isValidHostname indexName then ([], Inr r) else (indexName, WithName remoteNameStr))"

definition IsReferenceFullyQualified :: "named \<Rightarrow> bool" where
  "IsReferenceFullyQualified r \<longleftrightarrow> fst (SplitReposName r) \<noteq> []"

definition UnqualifyReference :: "named \<Rightarrow> named" where
  "UnqualifyReference r = (case SplitReposName r of
      (_, Inl _) \<Rightarrow> r
    | (_, Inr remoteName) \<Rightarrow> (case SubstituteReferenceName r (Name remoteName) of Inl _ \<Rightarrow> r | Inr r' \<Rightarrow> r'))"

definition QualifyUnqualifiedReference :: "named \<Rightarrow> string \<Rightarrow> ref_err + named" where
  "QualifyUnqualifiedReference r indexName =
     (if \<not> isValidHostname indexName then Inl (ErrInvalidHostname indexName)
      else case SplitReposName r of
        (_, Inl e) \<Rightarrow> Inl e
      | (orig, Inr remoteName) \<Rightarrow>
          if orig = [] then SubstituteReferenceName r (indexName @ CHR ''/'' # Name remoteName) else Inr r)"

section \<open>The groups of a reference\<close>

text \<open>An optional group with the character that introduces it.\<close>

definition grp :: "char \<Rightarrow> string option \<Rightarrow> string" where
  "grp c g = (case g of None \<Rightarrow> [] | Some x \<Rightarrow> c # x)"

lemma not_chars:
  "\<not> chars NameRegexp CHR ''@''" "\<not> chars pathRegexp CHR '':''" "\<not> chars hostnameRegexp CHR ''/''"
  "\<not> chars TagRegexp CHR '':''" "\<not> chars TagRegexp CHR ''/''" "\<not> chars TagRegexp CHR ''@''"
  by code_simp+

lemma name_no_at: "n \<in> lang NameRegexp \<Longrightarrow> CHR ''@'' \<notin> set n"
  using lang_chars not_chars(1) by blast

lemma tag_chars: "t \<in> lang TagRegexp \<Longrightarrow> CHR '':'' \<notin> set t \<and> CHR ''/'' \<notin> set t \<and> CHR ''@'' \<notin> set t"
  using lang_chars not_chars(4,5,6) by blast

lemma name_cases:
  assumes "n \<in> lang NameRegexp"
  obtains (path) "CHR '':'' \<notin> set n"
  | (host) h p where "n = h @ CHR ''/'' # p" and "CHR '':'' \<notin> set p" and "CHR ''/'' \<notin> set h"
proof -
  from assms consider "n \<in> lang pathRegexp"
    | h p where "n = (h @ ''/'') @ p" "h \<in> lang hostnameRegexp" "p \<in> lang pathRegexp"
    unfolding NameRegexp_def by (auto simp: lang_defs)
  then show thesis
  proof cases
    case 1
    then show thesis using path lang_chars not_chars(2) by blast
  next
    case 2
    have "CHR '':'' \<notin> set p" using 2(3) lang_chars not_chars(2) by blast
    moreover have "CHR ''/'' \<notin> set h" using 2(2) lang_chars not_chars(3) by blast
    ultimately show thesis using host 2(1) by simp
  qed
qed

lemma atSign_iff: "CHR ''@'' \<notin> set front \<Longrightarrow> atSign (front @ grp CHR ''@'' dg) = (front, dg)"
proof -
  assume a: "CHR ''@'' \<notin> set front"
  then have "takeWhile (\<lambda>c. c \<noteq> CHR ''@'') (front @ grp CHR ''@'' dg) = front"
    by (subst takeWhile_append2) (auto simp: grp_def split: option.split)
  then show ?thesis using a by (simp add: atSign_def grp_def split: option.split)
qed

lemma atSign_split: "atSign s = (front, dg) \<Longrightarrow> s = front @ grp CHR ''@'' dg"
proof (cases "CHR ''@'' \<in> set s")
  case True
  assume a: "atSign s = (front, dg)"
  from True obtain u v where s: "s = u @ CHR ''@'' # v" "CHR ''@'' \<notin> set u" by (meson split_list_first)
  have "atSign s = (u, Some v)" using atSign_iff [OF s(2), of "Some v"] s(1) by (simp add: grp_def)
  then show ?thesis using a s(1) by (auto simp: grp_def)
next
  case False
  assume "atSign s = (front, dg)"
  moreover have "takeWhile (\<lambda>c. c \<noteq> CHR ''@'') s = s" using False by (simp add: takeWhile_eq_all_conv) blast
  ultimately show ?thesis using False by (simp add: atSign_def grp_def)
qed

lemma lastColon_after:
  assumes "CHR '':'' \<notin> set t"
  shows "lastColon (n @ CHR '':'' # t) = (if CHR ''/'' \<in> set t then (n @ CHR '':'' # t, None) else (n, Some t))"
proof -
  have "takeWhile (\<lambda>c. c \<noteq> CHR '':'') (rev t @ CHR '':'' # rev n) = rev t"
    using assms by (subst takeWhile_append2) auto
  then show ?thesis by (simp add: lastColon_def)
qed

lemma lastColon_none: "CHR '':'' \<notin> set f \<Longrightarrow> lastColon f = (f, None)"
  by (simp add: lastColon_def)

lemma lastColon_split: "lastColon f = (n, tg) \<Longrightarrow> f = n @ grp CHR '':'' tg"
proof (cases "CHR '':'' \<in> set f")
  case True
  assume a: "lastColon f = (n, tg)"
  from True obtain u v where s: "f = u @ CHR '':'' # v" "CHR '':'' \<notin> set v" by (meson split_list_last)
  then show ?thesis using a lastColon_after [OF s(2), of u] by (auto simp: grp_def split: if_splits)
next
  case False
  assume "lastColon f = (n, tg)"
  then show ?thesis using lastColon_none [OF False] by (simp add: grp_def)
qed

lemma lastColon_name:
  assumes n: "n \<in> lang NameRegexp" and t: "groupOk TagRegexp tg"
  shows "lastColon (n @ grp CHR '':'' tg) = (n, tg)"
proof (cases tg)
  case None
  from n show ?thesis
  proof (cases rule: name_cases)
    case path
    then show ?thesis using None by (simp add: grp_def lastColon_none)
  next
    case (host h p)
    show ?thesis
    proof (cases "CHR '':'' \<in> set h")
      case True
      then obtain u v where h: "h = u @ CHR '':'' # v" "CHR '':'' \<notin> set v" by (meson split_list_last)
      have "lastColon (u @ CHR '':'' # (v @ CHR ''/'' # p)) = (u @ CHR '':'' # (v @ CHR ''/'' # p), None)"
        by (subst lastColon_after) (use h host in auto)
      then show ?thesis using None host h by (simp add: grp_def)
    qed (use host None in \<open>simp add: grp_def lastColon_none\<close>)
  qed
next
  case (Some t')
  then have "t' \<in> lang TagRegexp" using t by (simp add: groupOk_def matches_lang)
  from tag_chars [OF this] show ?thesis using Some by (simp add: grp_def lastColon_after)
qed

text \<open>\<open>findReference\<close> finds the groups of the expression, and there is only one way to match it.\<close>

theorem findReference_iff:
  "findReference s = Some (n, tg, dg) \<longleftrightarrow>
     s = n @ grp CHR '':'' tg @ grp CHR ''@'' dg \<and>
     matches NameRegexp n \<and> groupOk TagRegexp tg \<and> groupOk DigestRegexp dg"
proof
  assume a: "findReference s = Some (n, tg, dg)"
  obtain f where 1: "atSign s = (f, dg)" and 2: "lastColon f = (n, tg)"
    and 3: "matches NameRegexp n \<and> groupOk TagRegexp tg \<and> groupOk DigestRegexp dg"
    using a by (auto simp: findReference_def split: prod.splits if_splits)
  show "s = n @ grp CHR '':'' tg @ grp CHR ''@'' dg \<and>
     matches NameRegexp n \<and> groupOk TagRegexp tg \<and> groupOk DigestRegexp dg"
    using atSign_split [OF 1] lastColon_split [OF 2] 3 by simp
next
  assume a: "s = n @ grp CHR '':'' tg @ grp CHR ''@'' dg \<and>
     matches NameRegexp n \<and> groupOk TagRegexp tg \<and> groupOk DigestRegexp dg"
  then have n: "n \<in> lang NameRegexp" by (simp add: matches_lang)
  have "CHR ''@'' \<notin> set (grp CHR '':'' tg)"
    using a tag_chars by (auto simp: grp_def groupOk_def matches_lang split: option.splits)
  then have "atSign s = (n @ grp CHR '':'' tg, dg)"
    using atSign_iff [of "n @ grp CHR '':'' tg" dg] name_no_at [OF n] a by simp
  moreover have "lastColon (n @ grp CHR '':'' tg) = (n, tg)" using lastColon_name [OF n] a by blast
  ultimately show "findReference s = Some (n, tg, dg)" using a by (simp add: findReference_def)
qed

section \<open>Normal names\<close>

lemma dash_default: "DefaultHostname \<noteq> LegacyDefaultHostname" "CHR ''/'' \<notin> set DefaultHostname"
  by (simp_all add: DefaultHostname_def LegacyDefaultHostname_def)

lemma splitHostname_default:
  "splitHostname (DefaultHostname @ CHR ''/'' # r) =
     (DefaultHostname, if CHR ''/'' \<in> set r then r else DefaultRepoPrefix @ r)"
  by (simp add: splitHostname_def DefaultHostname_def LegacyDefaultHostname_def DefaultRepoPrefix_def Let_def)

lemma prefix_no_upper: "list_ex is_upper (DefaultRepoPrefix @ r) = list_ex is_upper r"
proof -
  have "\<not> list_ex is_upper DefaultRepoPrefix" by code_simp
  then show ?thesis by simp
qed

lemma TrimPrefix_prefix [simp]: "TrimPrefix (p @ r) p = r"
  by (simp add: TrimPrefix_def)

lemma TrimPrefix_cases: "TrimPrefix s p = s \<and> \<not> prefix p s \<or> s = p @ TrimPrefix s p"
  by (auto simp: TrimPrefix_def prefix_def)

definition officialPrefix :: string where
  "officialPrefix = DefaultHostname @ CHR ''/'' # DefaultRepoPrefix"

lemma normalize_default:
  "\<not> list_ex is_upper r \<Longrightarrow> normalize (DefaultHostname @ CHR ''/'' # r) = Inr (DefaultHostname @ CHR ''/'' # TrimPrefix r DefaultRepoPrefix)"
proof -
  assume r: "\<not> list_ex is_upper r"
  show ?thesis
  proof (cases "CHR ''/'' \<in> set r")
    case True
    then show ?thesis using r by (simp add: normalize_def splitHostname_default)
  next
    case False
    moreover have "TrimPrefix r DefaultRepoPrefix = r"
      using False by (auto simp: DefaultRepoPrefix_def TrimPrefix_def prefix_def)
    ultimately show ?thesis using r by (simp add: normalize_def splitHostname_default prefix_no_upper del: list_ex_append)
  qed
qed

lemma normalize_cases:
  assumes "normalize n0 = Inr n"
  obtains (default) r where "n = DefaultHostname @ CHR ''/'' # r" and "\<not> list_ex is_upper r"
  | (other) "n = n0" and "fst (splitHostname n) \<noteq> DefaultHostname" and "normalize n = Inr n"
proof -
  obtain host remote where h: "splitHostname n0 = (host, remote)" by (metis surj_pair)
  show thesis
  proof (cases "host = DefaultHostname")
    case True
    then have n: "n = DefaultHostname @ CHR ''/'' # TrimPrefix remote DefaultRepoPrefix" and u: "\<not> list_ex is_upper remote"
      using assms h by (auto simp: normalize_def split: if_splits)
    have "\<not> list_ex is_upper (TrimPrefix remote DefaultRepoPrefix)"
      using u TrimPrefix_cases [of remote DefaultRepoPrefix] by (metis list_ex_append)
    then show thesis using default n by blast
  next
    case False
    then have "n = n0" using assms h by (auto simp: normalize_def split: if_splits)
    then show thesis using other assms h False by simp
  qed
qed

text \<open>Normalising is stable, except for a name that still starts with the prefix it has removed once.\<close>

lemma normalize_again:
  assumes "normalize n0 = Inr n"
  shows "normalize n = Inr (if prefix officialPrefix n then DefaultHostname @ CHR ''/'' # drop (length officialPrefix) n else n)"
  using assms
proof (cases rule: normalize_cases)
  case (default r)
  have "prefix officialPrefix n \<longleftrightarrow> prefix DefaultRepoPrefix r" by (simp add: default officialPrefix_def)
  moreover have "drop (length officialPrefix) n = drop (length DefaultRepoPrefix) r" by (simp add: default officialPrefix_def)
  ultimately show ?thesis using normalize_default [OF default(2)] by (simp add: default(1) TrimPrefix_def)
next
  case other
  have "\<not> prefix officialPrefix n"
  proof
    assume "prefix officialPrefix n"
    then obtain r where "n = DefaultHostname @ CHR ''/'' # (DefaultRepoPrefix @ r)"
      by (auto simp: prefix_def officialPrefix_def)
    then show False using other(2) by (metis fst_conv splitHostname_default)
  qed
  then show ?thesis using other(3) by simp
qed

lemma normalize_stable:
  assumes "normalize n0 = Inr n"
  shows "normalize n = Inr n \<longleftrightarrow> \<not> prefix officialPrefix n"
proof (cases "prefix officialPrefix n")
  case True
  then obtain r where r: "n = officialPrefix @ r" by (auto simp: prefix_def)
  have "DefaultHostname @ CHR ''/'' # r \<noteq> n"
    by (rule notI, drule arg_cong [where f = length]) (simp add: r officialPrefix_def DefaultRepoPrefix_def)
  then show ?thesis using normalize_again [OF assms] True r by simp
qed (use normalize_again [OF assms] in simp)

section \<open>Well-formed references\<close>

definition name_ok :: "string \<Rightarrow> bool" where
  "name_ok n \<longleftrightarrow> matches NameRegexp n \<and> length n \<le> NameTotalLengthMax \<and> validateName n = None"

fun ref_ok :: "named \<Rightarrow> bool" where
  "ref_ok (NamedRef n) = name_ok n"
| "ref_ok (TaggedRef n t) = (name_ok n \<and> matches TagRegexp t)"
| "ref_ok (CanonicalRef n d) = (name_ok n \<and> matches DigestRegexp d)"

text \<open>A reference under which the store finds again what it has stored under it.\<close>

definition settled :: "named \<Rightarrow> bool" where
  "settled r \<longleftrightarrow> normalize (Name r) = Inr (Name r)"

lemma WithName_Inr:
  "WithName n0 = Inr r \<longleftrightarrow> (\<exists>n. r = NamedRef n \<and> normalize n0 = Inr n \<and> name_ok n)"
  by (auto simp: WithName_def distWithName_def name_ok_def split: sum.splits option.splits if_splits)

lemma WithTag_default: "WithTag r DefaultTag = Inr (TaggedRef (Name r) DefaultTag)"
proof -
  have "matches TagRegexp DefaultTag" by code_simp
  then show ?thesis by (simp add: WithTag_def)
qed

lemma WithDefaultTag_eq: "WithDefaultTag r = (case r of NamedRef n \<Rightarrow> TaggedRef n DefaultTag | _ \<Rightarrow> r)"
  by (cases r) (simp_all add: WithDefaultTag_def WithTag_default)

lemma ParseDigest_Inr: "ParseDigest d = (d', None) \<Longrightarrow> d' = d"
  by (simp add: ParseDigest_def)

lemma distParseNamed_Inr:
  "distParseNamed s = Inr (n, tg, dg) \<longleftrightarrow>
     s = n @ grp CHR '':'' tg @ grp CHR ''@'' dg \<and> matches NameRegexp n \<and> length n \<le> NameTotalLengthMax \<and>
     groupOk TagRegexp tg \<and> groupOk DigestRegexp dg \<and> (\<forall>d. dg = Some d \<longrightarrow> Validate d = None)"
proof -
  have "distParseNamed s = Inr (n, tg, dg) \<longleftrightarrow> findReference s = Some (n, tg, dg) \<and>
      length n \<le> NameTotalLengthMax \<and> (\<forall>d. dg = Some d \<longrightarrow> Validate d = None)"
    by (auto simp: distParseNamed_def ParseDigest_def split: option.splits if_splits)
  then show ?thesis by (auto simp: findReference_iff)
qed

text \<open>What a parsed reference is, and which strings parse to it.\<close>

fun digest_ok :: "named \<Rightarrow> bool" where
  "digest_ok (CanonicalRef n d) = (Validate d = None)"
| "digest_ok r = True"

lemma ParseNamed_ok:
  assumes "ParseNamed s = Inr r"
  shows "ref_ok r" and "digest_ok r" and "\<exists>n0. normalize n0 = Inr (Name r)"
proof -
  obtain n tg dg where d: "distParseNamed s = Inr (n, tg, dg)"
    using assms by (auto simp: ParseNamed_def split: sum.splits)
  obtain m where m: "WithName n = Inr (NamedRef m)"
    using assms d by (auto simp: ParseNamed_def WithName_Inr split: sum.splits)
  note m' = m [unfolded WithName_Inr]
  have r: "(case dg of Some d \<Rightarrow> WithDigest (NamedRef m) d
        | None \<Rightarrow> (case tg of Some t \<Rightarrow> WithTag (NamedRef m) t | None \<Rightarrow> Inr (NamedRef m))) = Inr r"
    using assms by (simp add: ParseNamed_def d m)
  show "ref_ok r" using r m' by (auto simp: WithDigest_def WithTag_def split: option.splits if_splits)
  show "digest_ok r" using r d [unfolded distParseNamed_Inr]
    by (auto simp: WithDigest_def WithTag_def split: option.splits if_splits)
  have "Name r = m" using r by (auto simp: WithDigest_def WithTag_def split: option.splits if_splits)
  then show "\<exists>n0. normalize n0 = Inr (Name r)" using m' by blast
qed

lemma ParseNamed_String:
  assumes "ref_ok r" and "digest_ok r"
  shows "ParseNamed (String r) = SubstituteReferenceName r (Name r)"
proof (cases r)
  case (NamedRef n)
  have "distParseNamed (String r) = Inr (n, None, None)"
    using assms NamedRef by (simp add: distParseNamed_Inr grp_def groupOk_def name_ok_def)
  then show ?thesis by (simp add: ParseNamed_def SubstituteReferenceName_def NamedRef split: sum.split)
next
  case (TaggedRef n t)
  have "distParseNamed (String r) = Inr (n, Some t, None)"
    using assms TaggedRef by (simp add: distParseNamed_Inr grp_def groupOk_def name_ok_def)
  then show ?thesis by (simp add: ParseNamed_def SubstituteReferenceName_def TaggedRef split: sum.split)
next
  case (CanonicalRef n d)
  have "distParseNamed (String r) = Inr (n, None, Some d)"
    using assms CanonicalRef by (simp add: distParseNamed_Inr grp_def groupOk_def name_ok_def)
  then show ?thesis by (simp add: ParseNamed_def SubstituteReferenceName_def CanonicalRef split: sum.split)
qed

text \<open>The reference with another name.\<close>

fun renamed :: "named \<Rightarrow> string \<Rightarrow> named" where
  "renamed (NamedRef _) n = NamedRef n"
| "renamed (TaggedRef _ t) n = TaggedRef n t"
| "renamed (CanonicalRef _ d) n = CanonicalRef n d"

lemma renamed_simps [simp]: "Name (renamed r n) = n" "renamed r (Name r) = r" "renamed (renamed r n) k = renamed r k"
  by (cases r; simp)+

lemma ref_ok_name: "ref_ok r \<Longrightarrow> name_ok (Name r)"
  by (cases r) auto

lemma ref_ok_renamed: "ref_ok r \<Longrightarrow> name_ok n \<Longrightarrow> ref_ok (renamed r n)"
  by (cases r) auto

lemma Substitute_Inr:
  assumes "ref_ok r"
  shows "SubstituteReferenceName r nm = Inr r' \<longleftrightarrow> (\<exists>n. normalize nm = Inr n \<and> name_ok n \<and> r' = renamed r n)"
proof (cases "WithName nm")
  case (Inl e)
  then show ?thesis using WithName_Inr [of nm] by (auto simp: SubstituteReferenceName_def)
next
  case (Inr a)
  then obtain n where "a = NamedRef n" "normalize nm = Inr n" "name_ok n" using WithName_Inr by blast
  then show ?thesis using assms Inr
    by (cases r) (auto simp: SubstituteReferenceName_def WithTag_def WithDigest_def)
qed

lemma Substitute_self: "ref_ok r \<Longrightarrow> SubstituteReferenceName r (Name r) = Inr r \<longleftrightarrow> settled r"
  by (metis Substitute_Inr ref_ok_name renamed_simps(1,2) settled_def)

text \<open>Two references that print the same are the same.\<close>

lemma String_inj_name: "Name r = Name r' \<Longrightarrow> String r = String r' \<Longrightarrow> r = r'"
  by (cases r; cases r') auto

lemma String_groups: "ref_ok r \<Longrightarrow> \<exists>tg dg. findReference (String r) = Some (Name r, tg, dg)"
proof (cases r)
  case (NamedRef n)
  assume "ref_ok r"
  then have "findReference (String r) = Some (n, None, None)"
    using NamedRef by (simp add: findReference_iff grp_def groupOk_def name_ok_def)
  then show ?thesis using NamedRef by simp
next
  case (TaggedRef n t)
  assume "ref_ok r"
  then have "findReference (String r) = Some (n, Some t, None)"
    using TaggedRef by (simp add: findReference_iff grp_def groupOk_def name_ok_def)
  then show ?thesis using TaggedRef by simp
next
  case (CanonicalRef n d)
  assume "ref_ok r"
  then have "findReference (String r) = Some (n, None, Some d)"
    using CanonicalRef by (simp add: findReference_iff grp_def groupOk_def name_ok_def)
  then show ?thesis using CanonicalRef by simp
qed

lemma String_inj: "ref_ok r \<Longrightarrow> ref_ok r' \<Longrightarrow> String r = String r' \<Longrightarrow> r = r'"
  using String_groups [of r] String_groups [of r'] by (auto intro: String_inj_name)

text \<open>
  C36. A reference that \<open>ParseNamed\<close> returns is well formed: its name has the form of a name, is not too
  long and is not an image ID, and its tag or digest has the form of one. Printing it and parsing it again
  gives the reference, exactly unless its name starts with \<open>docker.io/library/\<close>: \<open>normalize\<close> removes
  the prefix \<open>library/\<close> once each time, so it is not idempotent.
\<close>

theorem parse_print_reference:
  assumes "ParseNamed s = Inr r"
  shows "ref_ok r \<and> (ParseNamed (String r) = Inr r \<longleftrightarrow> \<not> prefix ''docker.io/library/'' (Name r))"
proof -
  note ok = ParseNamed_ok [OF assms]
  obtain n0 where "normalize n0 = Inr (Name r)" using ok(3) by blast
  from normalize_stable [OF this] have "settled r \<longleftrightarrow> \<not> prefix ''docker.io/library/'' (Name r)"
    by (simp add: settled_def officialPrefix_def DefaultHostname_def DefaultRepoPrefix_def)
  then show ?thesis using ok ParseNamed_String [OF ok(1,2)] Substitute_self [OF ok(1)] by simp
qed

theorem parse_print_reference_witness:
  "ParseNamed ''index.docker.io/b:v1'' = Inr (TaggedRef ''docker.io/b'' ''v1'') \<and>
   ParseNamed ''docker.io/library/library/b'' = Inr (NamedRef ''docker.io/library/b'') \<and>
   ParseNamed (String (TaggedRef ''docker.io/b'' ''v1'')) = Inr (TaggedRef ''docker.io/b'' ''v1'') \<and>
   ParseNamed (String (NamedRef ''docker.io/library/b'')) \<noteq> Inr (NamedRef ''docker.io/library/b'')"
proof -
  have 1: "ParseNamed ''index.docker.io/b:v1'' = Inr (TaggedRef ''docker.io/b'' ''v1'')" by code_simp
  have 2: "ParseNamed ''docker.io/library/library/b'' = Inr (NamedRef ''docker.io/library/b'')" by code_simp
  show ?thesis using parse_print_reference [OF 1] parse_print_reference [OF 2] 1 2 by simp
qed

end
