(* ===== verification/RefStore.thy ===== *)
theory RefStore
  imports RefNames AtomicFile DigestPath "HOL-Library.AList"
begin

text \<open>
  The reference store, \<^verbatim>\<open>reference/store.go\<close>: the map from repository names and references to image IDs,
  the cache of the references of an ID, and the JSON file they are saved to. Go maps are association
  lists; JSON and the order in which Go ranges over a map are parameters.
\<close>

section \<open>Maps of maps\<close>

text \<open>
  The code's \<open>m[k]\<close> of a missing key is a nil map, which reads as empty; \<open>put2\<close> is \<open>m[k][x] = v\<close> after
  making \<open>m[k]\<close> if it is nil, and \<open>del2\<close> is \<open>delete(m[k], x)\<close> followed by \<open>delete(m, k)\<close> if nothing is left.
\<close>

type_synonym ('k, 'x, 'v) maps = "('k \<times> ('x \<times> 'v) list) list"

definition inner :: "('k, 'x, 'v) maps \<Rightarrow> 'k \<Rightarrow> ('x \<times> 'v) list" where
  "inner m k = (case map_of m k of None \<Rightarrow> [] | Some c \<Rightarrow> c)"

definition at2 :: "('k, 'x, 'v) maps \<Rightarrow> 'k \<Rightarrow> 'x \<Rightarrow> 'v option" where
  "at2 m k x = map_of (inner m k) x"

definition put2 :: "'k \<Rightarrow> 'x \<Rightarrow> 'v \<Rightarrow> ('k, 'x, 'v) maps \<Rightarrow> ('k, 'x, 'v) maps" where
  "put2 k x v m = AList.update k (AList.update x v (inner m k)) m"

definition del2 :: "'k \<Rightarrow> 'x \<Rightarrow> ('k, 'x, 'v) maps \<Rightarrow> ('k, 'x, 'v) maps" where
  "del2 k x m = (case map_of m k of
      None \<Rightarrow> m
    | Some c \<Rightarrow> if AList.delete x c = [] then AList.delete k m else AList.update k (AList.delete x c) m)"

definition ensure :: "'k \<Rightarrow> ('k, 'x, 'v) maps \<Rightarrow> ('k, 'x, 'v) maps" where
  "ensure k m = (if map_of m k = None then AList.update k [] m else m)"

text \<open>Keys are distinct, and no inner map is left empty.\<close>

definition wf2 :: "('k, 'x, 'v) maps \<Rightarrow> bool" where
  "wf2 m \<longleftrightarrow> distinct (map fst m) \<and> (\<forall>k c. map_of m k = Some c \<longrightarrow> distinct (map fst c) \<and> c \<noteq> [])"

section \<open>The store\<close>

type_synonym repositories = "(string, string, string) maps"

datatype refstore_err = RefFS os_err | ErrRefDoesNotExist | ErrDigestAsTag | ErrAmbiguousTag
  | ErrOverwriteDigest string | ErrConflict string string | ErrDecode string

record refStore =
  rs_defaultRegistries :: "string list"
  rs_jsonPath :: path
  rs_Repositories :: repositories
  rs_nilRepositories :: bool
  rs_referencesByIDCache :: "(string, string, named) maps"
  rs_fs :: filesys

text \<open>
  Decoding into a pointer to the store sets the pointer to nil if the document is \<open>null\<close>, and
  \<open>Repositories\<close> to a nil map, which cannot be written to, if the document has \<open>null\<close> for it.
\<close>

datatype decoded = DecError string | DecNull | DecNilRepositories | DecStore repositories

record refEnv =
  re_Marshal :: "repositories \<Rightarrow> string"
  re_Decode :: "string \<Rightarrow> decoded"
  re_rangeRepos :: "repositories \<Rightarrow> repositories"
  re_rangeRefs :: "(string \<times> string) list \<Rightarrow> (string \<times> string) list"

type_synonym 'a refM = "(refStore, refstore_err, 'a) go"

definition onRefFs :: "'a fsM \<Rightarrow> 'a refM" where
  "onRefFs = zoom rs_fs (\<lambda>f s. s\<lparr>rs_fs := f\<rparr>) RefFS"

definition refSave :: "refEnv \<Rightarrow> unit refM" where
  "refSave env = seq (gets (\<lambda>s. (rs_jsonPath s, re_Marshal env (rs_Repositories s)))) (\<lambda>(p, jsonData).
     onRefFs (AtomicWriteFile p jsonData))"

text \<open>The two loops of \<open>reload\<close>; a reference that does not parse is skipped.\<close>

definition cacheRef :: "string \<times> string \<Rightarrow> (string, string, named) maps \<Rightarrow> (string, string, named) maps" where
  "cacheRef e m = (case e of (refStr, refID) \<Rightarrow> case ParseNamed refStr of
      Inl _ \<Rightarrow> m
    | Inr r \<Rightarrow> put2 refID refStr r m)"

definition cacheAll :: "refEnv \<Rightarrow> repositories \<Rightarrow> (string, string, named) maps \<Rightarrow> (string, string, named) maps" where
  "cacheAll env rp = fold (\<lambda>(_, repository). fold cacheRef (re_rangeRefs env repository)) (re_rangeRepos env rp)"

text \<open>The decoder keeps the entries of a map that it decodes into.\<close>

definition reload :: "refEnv \<Rightarrow> unit refM" where
  "reload env =
     seq (gets rs_jsonPath) (\<lambda>p.
     seq (onRefFs (ReadFile p)) (\<lambda>dt.
     case re_Decode env dt of
       DecError e \<Rightarrow> fail (ErrDecode e)
     | DecNull \<Rightarrow> gopanic ''nil pointer dereference''
     | DecNilRepositories \<Rightarrow>
         modify (\<lambda>s. s\<lparr>rs_Repositories := [], rs_nilRepositories := True\<rparr>)
     | DecStore rp \<Rightarrow>
         seq (modify (\<lambda>s. s\<lparr>rs_Repositories := AList.merge (rs_Repositories s) rp\<rparr>)) (\<lambda>_.
         modify (\<lambda>s. s\<lparr>rs_referencesByIDCache := cacheAll env (rs_Repositories s) (rs_referencesByIDCache s)\<rparr>))))"

definition NewReferenceStore :: "refEnv \<Rightarrow> path \<Rightarrow> string list \<Rightarrow> filesys \<Rightarrow> (refstore_err, unit) outcome \<times> refStore" where
  "NewReferenceStore env jsonPath regs fs =
     seq (tryGo (reload env)) (\<lambda>err.
     case err of
       Inr _ \<Rightarrow> ret ()
     | Inl e \<Rightarrow> if e = RefFS ErrNotExist then refSave env else fail e)
     \<lparr>rs_defaultRegistries = regs, rs_jsonPath = jsonPath, rs_Repositories = [], rs_nilRepositories = False, rs_referencesByIDCache = [], rs_fs = fs\<rparr>"

definition addReference :: "refEnv \<Rightarrow> named \<Rightarrow> string \<Rightarrow> bool \<Rightarrow> unit refM" where
  "addReference env r imgID force =
     (if Name r = ''sha256'' then fail ErrAmbiguousTag
      else
        seq (gets (\<lambda>s. rs_nilRepositories s \<and> map_of (rs_Repositories s) (Name r) = None)) (\<lambda>unwritable.
        if unwritable then gopanic ''assignment to entry in nil map'' else
        seq (modify (\<lambda>s. s\<lparr>rs_Repositories := ensure (Name r) (rs_Repositories s)\<rparr>)) (\<lambda>_.
        seq (gets (\<lambda>s. at2 (rs_Repositories s) (Name r) (String r))) (\<lambda>old.
        seq (case old of
               None \<Rightarrow> ret ()
             | Some oldID \<Rightarrow> (case r of
                   CanonicalRef _ d \<Rightarrow> fail (ErrOverwriteDigest d)
                 | _ \<Rightarrow> if \<not> force then fail (ErrConflict (String r) oldID)
                     else modify (\<lambda>s. s\<lparr>rs_referencesByIDCache := del2 oldID (String r) (rs_referencesByIDCache s)\<rparr>))) (\<lambda>_.
        seq (modify (\<lambda>s. s\<lparr>rs_Repositories := put2 (Name r) (String r) imgID (rs_Repositories s)\<rparr>)) (\<lambda>_.
        seq (modify (\<lambda>s. s\<lparr>rs_referencesByIDCache := put2 imgID (String r) r (rs_referencesByIDCache s)\<rparr>)) (\<lambda>_.
        refSave env)))))))"

definition AddTag :: "refEnv \<Rightarrow> named \<Rightarrow> string \<Rightarrow> bool \<Rightarrow> unit refM" where
  "AddTag env r imgID force = (case r of
      CanonicalRef _ _ \<Rightarrow> fail ErrDigestAsTag
    | _ \<Rightarrow> addReference env (WithDefaultTag r) imgID force)"

text \<open>\<open>AddDigest\<close> takes a \<open>Canonical\<close>: a name with a digest.\<close>

definition AddDigest :: "refEnv \<Rightarrow> string \<Rightarrow> string \<Rightarrow> string \<Rightarrow> bool \<Rightarrow> unit refM" where
  "AddDigest env nm d imgID force = addReference env (CanonicalRef nm d) imgID force"

section \<open>Looking up\<close>

definition addResult :: "string \<Rightarrow> (string \<times> string) list \<Rightarrow> repositories \<Rightarrow> repositories" where
  "addResult nm repo result = (if nm \<in> fst ` set result then result else result @ [(nm, repo)])"

fun matchRegistries :: "repositories \<Rightarrow> named \<Rightarrow> string list \<Rightarrow> repositories \<Rightarrow> repositories" where
  "matchRegistries rp r [] result = result"
| "matchRegistries rp r (indexName # ixs) result = matchRegistries rp r ixs
     (case QualifyUnqualifiedReference r indexName of
        Inl _ \<Rightarrow> result
      | Inr fqRef \<Rightarrow> (case map_of rp (Name fqRef) of
            None \<Rightarrow> result
          | Some repo \<Rightarrow> addResult (Name fqRef) repo result))"

definition getMatchingReferenceList :: "refStore \<Rightarrow> named \<Rightarrow> repositories" where
  "getMatchingReferenceList s r =
     (let result = (case map_of (rs_Repositories s) (Name r) of
          None \<Rightarrow> [] | Some repo \<Rightarrow> addResult (Name r) repo []) in
      if \<not> IsReferenceFullyQualified r
      then matchRegistries (rs_Repositories s) r (rs_defaultRegistries s) result else result)"

text \<open>The loop of \<open>Get\<close> and of \<open>Delete\<close>: the repository, the key and the ID of the first match.\<close>

fun findMatching :: "named \<Rightarrow> repositories \<Rightarrow> (string \<times> string \<times> string) option" where
  "findMatching r [] = None"
| "findMatching r ((nm, repo) # ms) = (case SubstituteReferenceName r nm of
      Inl _ \<Rightarrow> findMatching r ms
    | Inr tmpRef \<Rightarrow> (case map_of repo (String tmpRef) of
          None \<Rightarrow> findMatching r ms
        | Some imgID \<Rightarrow> Some (nm, String tmpRef, imgID)))"

definition refGet :: "named \<Rightarrow> string refM" where
  "refGet r0 = (let r = WithDefaultTag r0 in
     seq (gets (\<lambda>s. findMatching r (getMatchingReferenceList s r))) (\<lambda>found.
     case found of
       None \<Rightarrow> fail ErrRefDoesNotExist
     | Some (_, _, revision) \<Rightarrow> ret revision))"

text \<open>\<open>Delete\<close> has two results: whether something was deleted, and the error.\<close>

definition refDelete :: "refEnv \<Rightarrow> named \<Rightarrow> (bool \<times> refstore_err option) refM" where
  "refDelete env r0 = (let r = WithDefaultTag r0 in
     seq (gets (\<lambda>s. findMatching r (getMatchingReferenceList s r))) (\<lambda>found.
     case found of
       None \<Rightarrow> ret (False, Some ErrRefDoesNotExist)
     | Some (nm, refStr, imgID) \<Rightarrow>
         seq (modify (\<lambda>s. s\<lparr>rs_Repositories := del2 nm refStr (rs_Repositories s)\<rparr>)) (\<lambda>_.
         seq (modify (\<lambda>s. s\<lparr>rs_referencesByIDCache := del2 imgID refStr (rs_referencesByIDCache s)\<rparr>)) (\<lambda>_.
         seq (tryGo (refSave env)) (\<lambda>err.
         ret (True, case err of Inl e \<Rightarrow> Some e | Inr _ \<Rightarrow> None))))))"

definition References :: "refStore \<Rightarrow> string \<Rightarrow> named list" where
  "References s imgID = sort_key String (map snd (inner (rs_referencesByIDCache s) imgID))"

text \<open>\<open>ReferencesByName\<close> gives nothing at all if one of the keys does not parse.\<close>

fun associations :: "(string \<times> string) list \<Rightarrow> (named \<times> string) list option" where
  "associations [] = Some []"
| "associations ((refStr, refID) # es) = (case ParseNamed refStr of
      Inl _ \<Rightarrow> None
    | Inr r \<Rightarrow> map_option (\<lambda>as. (r, refID) # as) (associations es))"

definition ReferencesByName :: "refEnv \<Rightarrow> refStore \<Rightarrow> named \<Rightarrow> (named \<times> string) list" where
  "ReferencesByName env s r = (case getMatchingReferenceList s r of
      [] \<Rightarrow> []
    | (_, repo) # _ \<Rightarrow> (case associations (re_rangeRefs env repo) of
          None \<Rightarrow> []
        | Some as \<Rightarrow> sort_key (\<lambda>(q, _). String q) as))"

section \<open>The specification\<close>

text \<open>
  A store is a map from references to image IDs. A lookup tries the reference, and if it names no
  registry, the reference in each default registry.
\<close>

datatype refOp = OpAddTag named string bool | OpAddDigest string string string bool | OpDelete named

definition absRefs :: "refStore \<Rightarrow> named \<Rightarrow> string option" where
  "absRefs s r = at2 (rs_Repositories s) (Name r) (String r)"

fun inRegistries :: "named \<Rightarrow> string list \<Rightarrow> named list" where
  "inRegistries r [] = []"
| "inRegistries r (ix # ixs) = (case QualifyUnqualifiedReference r ix of
      Inl _ \<Rightarrow> inRegistries r ixs | Inr c \<Rightarrow> c # inRegistries r ixs)"

definition candidates :: "string list \<Rightarrow> named \<Rightarrow> named list" where
  "candidates regs r = r # (if IsReferenceFullyQualified r then [] else inRegistries r regs)"

fun firstOf :: "(named \<Rightarrow> string option) \<Rightarrow> named list \<Rightarrow> (named \<times> string) option" where
  "firstOf m [] = None"
| "firstOf m (c # cs) = (case m c of Some i \<Rightarrow> Some (c, i) | None \<Rightarrow> firstOf m cs)"

definition resolve :: "string list \<Rightarrow> (named \<Rightarrow> string option) \<Rightarrow> named \<Rightarrow> (named \<times> string) option" where
  "resolve regs m r = firstOf m (filter settled (candidates regs r))"

definition specAdd :: "named \<Rightarrow> string \<Rightarrow> bool \<Rightarrow> (named \<Rightarrow> string option) \<Rightarrow> refstore_err option \<times> (named \<Rightarrow> string option)" where
  "specAdd r i force m =
     (if Name r = ''sha256'' then (Some ErrAmbiguousTag, m)
      else case m r of
        None \<Rightarrow> (None, m(r \<mapsto> i))
      | Some old \<Rightarrow> (case r of
            CanonicalRef _ d \<Rightarrow> (Some (ErrOverwriteDigest d), m)
          | _ \<Rightarrow> if force then (None, m(r \<mapsto> i)) else (Some (ErrConflict (String r) old), m)))"

fun specRef :: "string list \<Rightarrow> refOp \<Rightarrow> (named \<Rightarrow> string option) \<Rightarrow> refstore_err option \<times> (named \<Rightarrow> string option)" where
  "specRef regs (OpAddTag r i force) m = (case r of
      CanonicalRef _ _ \<Rightarrow> (Some ErrDigestAsTag, m)
    | _ \<Rightarrow> specAdd (WithDefaultTag r) i force m)"
| "specRef regs (OpAddDigest n d i force) m = specAdd (CanonicalRef n d) i force m"
| "specRef regs (OpDelete r) m = (case resolve regs m (WithDefaultTag r) of
      None \<Rightarrow> (Some ErrRefDoesNotExist, m)
    | Some (c, _) \<Rightarrow> (None, m(c := None)))"

fun runRef :: "refEnv \<Rightarrow> refOp \<Rightarrow> unit refM" where
  "runRef env (OpAddTag r i force) = AddTag env r i force"
| "runRef env (OpAddDigest n d i force) = AddDigest env n d i force"
| "runRef env (OpDelete r) = seq (refDelete env r) (\<lambda>(_, err).
     case err of None \<Rightarrow> ret () | Some e \<Rightarrow> fail e)"

text \<open>The references that the constructors of the package build.\<close>

fun op_ok :: "refOp \<Rightarrow> bool" where
  "op_ok (OpAddTag r _ _) = ref_ok r"
| "op_ok (OpAddDigest n d _ _) = ref_ok (CanonicalRef n d)"
| "op_ok (OpDelete r) = ref_ok r"

section \<open>Lemmas on maps of maps\<close>

lemma at2_put2 [simp]: "at2 (put2 k x v m) k' x' = (if k = k' \<and> x = x' then Some v else at2 m k' x')"
  by (auto simp: at2_def put2_def inner_def update_conv')

lemma at2_del2 [simp]: "at2 (del2 k x m) k' x' = (if k = k' \<and> x = x' then None else at2 m k' x')"
proof (cases "map_of m k")
  case None
  then show ?thesis by (auto simp: at2_def del2_def inner_def)
next
  case (Some c)
  have d: "map_of (AList.delete x c) x' = (if x = x' then None else map_of c x')" by (simp add: delete_conv')
  show ?thesis
  proof (cases "AList.delete x c = []")
    case True
    then have "map_of c x' = None" if "x \<noteq> x'" using d that by simp
    then show ?thesis using Some True by (auto simp: at2_def del2_def inner_def delete_conv')
  next
    case False
    then show ?thesis using Some d by (auto simp: at2_def del2_def inner_def update_conv')
  qed
qed

lemma at2_ensure [simp]: "at2 (ensure k m) k' x = at2 m k' x"
  by (auto simp: at2_def ensure_def inner_def update_conv')

lemma update_update [simp]: "AList.update k v (AList.update k w m) = AList.update k v m"
  by (induction m) auto

lemma put2_ensure [simp]: "put2 k x v (ensure k m) = put2 k x v m"
  by (simp add: put2_def ensure_def inner_def update_conv' split: option.split)

lemma ensure_noop: "at2 m k x \<noteq> None \<Longrightarrow> ensure k m = m"
  by (auto simp: at2_def ensure_def inner_def split: option.splits)

lemma wf2_Nil [simp]: "wf2 []"
  by (simp add: wf2_def)

lemma wf2_put2: "wf2 m \<Longrightarrow> wf2 (put2 k x v m)"
  by (auto simp: wf2_def put2_def inner_def update_conv' distinct_update update_nonempty split: option.splits if_splits)

lemma wf2_del2: "wf2 m \<Longrightarrow> wf2 (del2 k x m)"
proof (cases "map_of m k")
  case (Some c)
  assume a: "wf2 m"
  have c: "distinct (map fst (AList.delete x c))" using a Some by (simp add: wf2_def distinct_delete)
  show "wf2 (del2 k x m)"
  proof (cases "AList.delete x c = []")
    case True
    then show ?thesis using a Some
      by (simp add: wf2_def del2_def delete_conv' distinct_delete del: map_of_eq_Some_iff split: if_splits)
  next
    case False
    then show ?thesis using a Some c
      by (simp add: wf2_def del2_def update_conv' distinct_update del: map_of_eq_Some_iff)
  qed
qed (simp add: del2_def)

lemma wf2_inner: "wf2 m \<Longrightarrow> distinct (map fst (inner m k))"
  by (simp add: wf2_def inner_def split: option.split)

section \<open>The invariant\<close>

text \<open>
  The two indexes describe the same set of references: a cached reference is stored under its own name
  and text with the ID it is cached for, and every stored entry is cached.
\<close>

definition indexes_agree :: "repositories \<Rightarrow> (string, string, named) maps \<Rightarrow> bool" where
  "indexes_agree rp ca \<longleftrightarrow>
     (\<forall>i x r. at2 ca i x = Some r \<longrightarrow> String r = x \<and> ref_ok r \<and> at2 rp (Name r) x = Some i) \<and>
     (\<forall>n x i. at2 rp n x = Some i \<longrightarrow> (\<exists>r. at2 ca i x = Some r \<and> Name r = n))"

definition disk_ok :: "refStore \<Rightarrow> bool" where
  "disk_ok s \<longleftrightarrow> fs_ok (rs_fs s) \<and> rs_jsonPath s \<noteq> [] \<and> plain (last (rs_jsonPath s))"

definition ref_inv :: "refStore \<Rightarrow> bool" where
  "ref_inv s \<longleftrightarrow> \<not> rs_nilRepositories s \<and> wf2 (rs_Repositories s) \<and> wf2 (rs_referencesByIDCache s) \<and>
     indexes_agree (rs_Repositories s) (rs_referencesByIDCache s) \<and> disk_ok s"

lemma agree_cached:
  "indexes_agree rp ca \<Longrightarrow> at2 ca i x = Some r \<Longrightarrow> String r = x \<and> ref_ok r \<and> at2 rp (Name r) x = Some i"
  by (simp add: indexes_agree_def)

lemma agree_stored: "indexes_agree rp ca \<Longrightarrow> at2 rp n x = Some i \<Longrightarrow> \<exists>r. at2 ca i x = Some r \<and> Name r = n"
  by (simp add: indexes_agree_def)

text \<open>A stored entry is that of a well-formed reference, under its name.\<close>

lemma agree_entry:
  assumes "indexes_agree rp ca" and "at2 rp n x = Some i"
  obtains r where "ref_ok r" and "String r = x" and "Name r = n" and "at2 ca i x = Some r"
  using agree_stored [OF assms] agree_cached [OF assms(1)] by blast

lemma agree_name: "indexes_agree rp ca \<Longrightarrow> at2 rp n (String r) = Some i \<Longrightarrow> ref_ok r \<Longrightarrow> n = Name r"
  by (erule (1) agree_entry) (metis String_inj)

lemma agree_del:
  assumes "indexes_agree rp ca" and "at2 rp n x = Some i"
  shows "indexes_agree (del2 n x rp) (del2 i x ca)"
proof -
  obtain q where q: "ref_ok q" "String q = x" "Name q = n" using agree_entry [OF assms] by blast
  have 1: "String r = y \<and> ref_ok r \<and> at2 (del2 n x rp) (Name r) y = Some j"
    if c: "at2 (del2 i x ca) j y = Some r" for j y r
  proof -
    have c': "at2 ca j y = Some r" "\<not> (i = j \<and> x = y)" using c by (auto split: if_splits)
    note r = agree_cached [OF assms(1) c'(1)]
    have "\<not> (n = Name r \<and> x = y)" using r c'(2) assms(2) by auto
    then show ?thesis using r by auto
  qed
  have 2: "\<exists>r. at2 (del2 i x ca) j y = Some r \<and> Name r = k" if c: "at2 (del2 n x rp) k y = Some j" for k y j
  proof -
    have c': "at2 rp k y = Some j" "\<not> (n = k \<and> x = y)" using c by (auto split: if_splits)
    obtain r where r: "ref_ok r" "String r = y" "Name r = k" "at2 ca j y = Some r" using agree_entry [OF assms(1) c'(1)] by blast
    have "x \<noteq> y" using String_inj [OF q(1) r(1)] q r c'(2) by auto
    then show ?thesis using r by auto
  qed
  show ?thesis unfolding indexes_agree_def using 1 2 by blast
qed

lemma agree_put:
  assumes a: "indexes_agree rp ca" and r: "ref_ok r" and new: "at2 rp (Name r) (String r) = None"
  shows "indexes_agree (put2 (Name r) (String r) i rp) (put2 i (String r) r ca)"
proof -
  have fresh: "at2 ca j (String r) = None" for j
  proof (rule ccontr)
    assume "at2 ca j (String r) \<noteq> None"
    then obtain q where "at2 ca j (String r) = Some q" by blast
    from agree_cached [OF a this] new String_inj [of q r] r show False by auto
  qed
  have 1: "String q = y \<and> ref_ok q \<and> at2 (put2 (Name r) (String r) i rp) (Name q) y = Some j"
    if c: "at2 (put2 i (String r) r ca) j y = Some q" for j y q
  proof (cases "i = j \<and> String r = y")
    case True
    then show ?thesis using c r by simp
  next
    case False
    then have c': "at2 ca j y = Some q" using c by (simp only: at2_put2 if_False)
    then have "String r \<noteq> y" using fresh by auto
    then show ?thesis using agree_cached [OF a c'] by simp
  qed
  have 2: "\<exists>q. at2 (put2 i (String r) r ca) j y = Some q \<and> Name q = k"
    if c: "at2 (put2 (Name r) (String r) i rp) k y = Some j" for k y j
  proof (cases "Name r = k \<and> String r = y")
    case True
    then show ?thesis using c by simp
  next
    case False
    then have c': "at2 rp k y = Some j" using c by (simp only: at2_put2 if_False)
    obtain q where q: "at2 ca j y = Some q" "Name q = k" using agree_stored [OF a c'] by blast
    then have "String r \<noteq> y" using fresh by auto
    then show ?thesis using q by simp
  qed
  show ?thesis unfolding indexes_agree_def using 1 2 by blast
qed

text \<open>Replacing an entry is deleting it and storing it anew.\<close>

lemma agree_cong:
  "indexes_agree rp ca \<Longrightarrow> (\<And>n x. at2 rp' n x = at2 rp n x) \<Longrightarrow> indexes_agree rp' ca"
  by (simp add: indexes_agree_def)

lemma agree_replace:
  assumes a: "indexes_agree rp ca" and r: "ref_ok r" and old: "at2 rp (Name r) (String r) = Some j"
  shows "indexes_agree (put2 (Name r) (String r) i rp) (put2 i (String r) r (del2 j (String r) ca))"
  by (rule agree_cong [OF agree_put [OF agree_del [OF a old] r]]) auto

section \<open>Operations keep it\<close>

lemma refSave_run:
  assumes "refSave env s = (q, t)"
  obtains o' fs where "AtomicWriteFile (rs_jsonPath s) (re_Marshal env (rs_Repositories s)) (rs_fs s) = (o', fs)"
    and "t = s\<lparr>rs_fs := fs\<rparr>" and "q = (case o' of Ret x \<Rightarrow> Ret x | Fail e \<Rightarrow> Fail (RefFS e) | Panic p \<Rightarrow> Panic p)"
proof -
  obtain o' fs where "AtomicWriteFile (rs_jsonPath s) (re_Marshal env (rs_Repositories s)) (rs_fs s) = (o', fs)"
    by (metis surj_pair)
  then show thesis using that assms by (auto simp: refSave_def onRefFs_def zoom_def seq_def gets_def split: outcome.splits)
qed

text \<open>Saving changes nothing but the disk, and returns the disk's error if it fails.\<close>

lemma refSave_spec:
  assumes "refSave env s = (q, t)" and "disk_ok s"
  shows "rs_Repositories t = rs_Repositories s" and "rs_referencesByIDCache t = rs_referencesByIDCache s"
    and "rs_defaultRegistries t = rs_defaultRegistries s" and "rs_jsonPath t = rs_jsonPath s"
    and "rs_nilRepositories t = rs_nilRepositories s"
    and "disk_ok t" and "q = Ret () \<or> (\<exists>e. q = Fail (RefFS e))"
    and "q = Ret () \<Longrightarrow> look (fs_entries (rs_fs t)) (rs_jsonPath s) = Some (File (re_Marshal env (rs_Repositories s)))"
proof -
  from assms(1) obtain o' fs
    where 1: "AtomicWriteFile (rs_jsonPath s) (re_Marshal env (rs_Repositories s)) (rs_fs s) = (o', fs)"
    and 2: "t = s\<lparr>rs_fs := fs\<rparr>" and 3: "q = (case o' of Ret x \<Rightarrow> Ret x | Fail e \<Rightarrow> Fail (RefFS e) | Panic p \<Rightarrow> Panic p)"
    by (rule refSave_run)
  note w = AtomicWriteFile_spec [OF 1]
  have d: "fs_ok (rs_fs s)" "rs_jsonPath s \<noteq> []" "plain (last (rs_jsonPath s))" using assms(2) by (auto simp: disk_ok_def)
  show "rs_Repositories t = rs_Repositories s" "rs_referencesByIDCache t = rs_referencesByIDCache s"
    "rs_defaultRegistries t = rs_defaultRegistries s" "rs_jsonPath t = rs_jsonPath s"
    "rs_nilRepositories t = rs_nilRepositories s" by (simp_all add: 2)
  show "disk_ok t" using w(5) [OF d] d by (simp add: disk_ok_def 2)
  show "q = Ret () \<or> (\<exists>e. q = Fail (RefFS e))" using 3 w(3) [OF d] by (cases o') auto
  show "look (fs_entries (rs_fs t)) (rs_jsonPath s) = Some (File (re_Marshal env (rs_Repositories s)))" if "q = Ret ()"
  proof -
    have "o' = Ret ()" using 3 that by (cases o') auto
    then show ?thesis using w(1) [OF d] by (simp add: 2)
  qed
qed

text \<open>What an operation does, compared to its specification: nothing and the error, or the change in memory
  and an attempt to save it.\<close>

definition saved :: "refEnv \<Rightarrow> (refstore_err, unit) outcome \<Rightarrow> refStore \<Rightarrow> bool" where
  "saved env q t \<longleftrightarrow>
     q = Ret () \<and> look (fs_entries (rs_fs t)) (rs_jsonPath t) = Some (File (re_Marshal env (rs_Repositories t))) \<or>
     (\<exists>e. q = Fail (RefFS e))"

definition follows ::
  "refEnv \<Rightarrow> refStore \<Rightarrow> (refstore_err, unit) outcome \<Rightarrow> refStore \<Rightarrow> refstore_err option \<times> (named \<Rightarrow> string option) \<Rightarrow> bool" where
  "follows env s q t sp \<longleftrightarrow> ref_inv t \<and> absRefs t = snd sp \<and>
     rs_defaultRegistries t = rs_defaultRegistries s \<and> rs_jsonPath t = rs_jsonPath s \<and>
     (case fst sp of Some e \<Rightarrow> q = Fail e \<and> t = s | None \<Rightarrow> saved env q t)"

lemma follows_error: "ref_inv s \<Longrightarrow> follows env s (Fail e) s (Some e, absRefs s)"
  by (simp add: follows_def)

lemma absRefs_put: "absRefs (s\<lparr>rs_Repositories := put2 (Name r) (String r) i rp\<rparr>) = (\<lambda>q. at2 rp (Name q) (String q))(r \<mapsto> i)"
  by (rule ext) (auto simp: absRefs_def dest: String_inj_name)

lemma absRefs_del: "absRefs (s\<lparr>rs_Repositories := del2 (Name r) (String r) rp\<rparr>) = (\<lambda>q. at2 rp (Name q) (String q))(r := None)"
  by (rule ext) (auto simp: absRefs_def dest: String_inj_name)

lemma follows_save:
  assumes save: "refSave env (s\<lparr>rs_Repositories := rp, rs_referencesByIDCache := ca\<rparr>) = (q, t)"
    and inv: "ref_inv s" and new: "wf2 rp" "wf2 ca" "indexes_agree rp ca"
    and m: "absRefs (s\<lparr>rs_Repositories := rp\<rparr>) = m"
  shows "follows env s q t (None, m)"
proof -
  have d: "disk_ok (s\<lparr>rs_Repositories := rp, rs_referencesByIDCache := ca\<rparr>)"
    using inv by (simp add: ref_inv_def disk_ok_def)
  note w = refSave_spec [OF save d]
  have "ref_inv t" using w(1,2,5,6) new inv by (simp add: ref_inv_def)
  moreover have "absRefs t = m" using w(1) m by (auto simp: absRefs_def)
  ultimately show ?thesis using w by (auto simp: follows_def saved_def)
qed

lemma absRefs_store:
  "absRefs (s\<lparr>rs_Repositories := put2 (Name r) (String r) i (rs_Repositories s)\<rparr>) = (absRefs s)(r \<mapsto> i)"
  unfolding absRefs_put by (rule ext) (simp add: absRefs_def)

text \<open>Adding a reference that is there: an error for a digest and without force, a replacement otherwise.\<close>

lemma overwrite_follows:
  assumes inv: "ref_inv s" and r: "ref_ok r" and run: "addReference env r i force s = (q, t)"
    and named: "Name r \<noteq> ''sha256''" and old: "at2 (rs_Repositories s) (Name r) (String r) = Some j"
  shows "follows env s q t (specAdd r i force (absRefs s))"
proof -
  let ?rp = "rs_Repositories s" and ?ca = "rs_referencesByIDCache s"
  have wf: "wf2 ?rp" "wf2 ?ca" "indexes_agree ?rp ?ca" and writable: "\<not> rs_nilRepositories s" using inv by (auto simp: ref_inv_def)
  have noop: "ensure (Name r) ?rp = ?rp" using ensure_noop [of ?rp "Name r" "String r"] old by simp
  consider (digest) n d where "r = CanonicalRef n d" | (forced) "\<nexists>n d. r = CanonicalRef n d" force
    | (conflict) "\<nexists>n d. r = CanonicalRef n d" "\<not> force" by blast
  then show ?thesis
  proof cases
    case digest
    then have "q = Fail (ErrOverwriteDigest d)" "t = s" "specAdd r i force (absRefs s) = (Some (ErrOverwriteDigest d), absRefs s)"
      using run named old noop writable by (auto simp: addReference_def go_defs specAdd_def absRefs_def)
    then show ?thesis using follows_error [OF inv] by simp
  next
    case forced
    then have sp: "specAdd r i force (absRefs s) = (None, (absRefs s)(r \<mapsto> i))"
      using named old by (cases r) (auto simp: specAdd_def absRefs_def)
    have "refSave env (s\<lparr>rs_Repositories := put2 (Name r) (String r) i ?rp,
        rs_referencesByIDCache := put2 i (String r) r (del2 j (String r) ?ca)\<rparr>) = (q, t)"
      using run named old noop forced writable by (cases r) (auto simp: addReference_def go_defs)
    from follows_save [OF this inv wf2_put2 [OF wf(1)] wf2_put2 [OF wf2_del2 [OF wf(2)]] agree_replace [OF wf(3) r old] absRefs_store]
    show ?thesis using sp by simp
  next
    case conflict
    then have "q = Fail (ErrConflict (String r) j)" "t = s"
      "specAdd r i force (absRefs s) = (Some (ErrConflict (String r) j), absRefs s)"
      using run named old noop writable by (cases r; auto simp: addReference_def go_defs specAdd_def absRefs_def)+
    then show ?thesis using follows_error [OF inv] by simp
  qed
qed

lemma addReference_follows:
  assumes inv: "ref_inv s" and r: "ref_ok r" and run: "addReference env r i force s = (q, t)"
  shows "follows env s q t (specAdd r i force (absRefs s))"
proof (cases "Name r = ''sha256''")
  case True
  then have "q = Fail ErrAmbiguousTag" "t = s" using run by (auto simp: addReference_def fail_def)
  then show ?thesis using follows_error [OF inv] True by (simp add: specAdd_def)
next
  case named: False
  let ?rp = "rs_Repositories s" and ?ca = "rs_referencesByIDCache s"
  have wf: "wf2 ?rp" "wf2 ?ca" "indexes_agree ?rp ?ca" and writable: "\<not> rs_nilRepositories s" using inv by (auto simp: ref_inv_def)
  show ?thesis
  proof (cases "at2 ?rp (Name r) (String r)")
    case None
    have "refSave env (s\<lparr>rs_Repositories := put2 (Name r) (String r) i ?rp,
        rs_referencesByIDCache := put2 i (String r) r ?ca\<rparr>) = (q, t)"
      using run named None writable by (simp add: addReference_def go_defs)
    from follows_save [OF this inv wf2_put2 [OF wf(1)] wf2_put2 [OF wf(2)] agree_put [OF wf(3) r None] absRefs_store]
    show ?thesis using named None by (simp add: specAdd_def absRefs_def)
  next
    case (Some j)
    then show ?thesis using overwrite_follows [OF inv r run named] by simp
  qed
qed

section \<open>Lookups\<close>

lemma findMatching_append:
  "findMatching r (xs @ ys) = (case findMatching r xs of None \<Rightarrow> findMatching r ys | Some y \<Rightarrow> Some y)"
  by (induction r xs rule: findMatching.induct) (auto split: sum.split option.split)

lemma findMatching_None: "findMatching r ms = None \<Longrightarrow> (n, repo) \<in> set ms \<Longrightarrow> findMatching r [(n, repo)] = None"
  by (induction r ms rule: findMatching.induct) (auto split: sum.splits option.splits)

definition from_repos :: "repositories \<Rightarrow> repositories \<Rightarrow> bool" where
  "from_repos rp ms \<longleftrightarrow> (\<forall>(n, repo)\<in>set ms. map_of rp n = Some repo)"

lemma findMatching_addResult:
  assumes "from_repos rp ms" and "map_of rp n = Some repo"
  shows "findMatching r (addResult n repo ms) = (case findMatching r ms of None \<Rightarrow> findMatching r [(n, repo)] | Some y \<Rightarrow> Some y)"
    and "from_repos rp (addResult n repo ms)"
proof -
  show "findMatching r (addResult n repo ms) = (case findMatching r ms of None \<Rightarrow> findMatching r [(n, repo)] | Some y \<Rightarrow> Some y)"
  proof (cases "n \<in> fst ` set ms")
    case True
    then obtain repo' where "(n, repo') \<in> set ms" by auto
    then have "(n, repo) \<in> set ms" using assms by (auto simp: from_repos_def)
    from findMatching_None [OF _ this] show ?thesis using True by (auto simp: addResult_def split: option.split)
  qed (simp add: addResult_def findMatching_append)
  show "from_repos rp (addResult n repo ms)" using assms by (auto simp: from_repos_def addResult_def)
qed

text \<open>One repository: the entry of the reference with its name, if the name is settled.\<close>

lemma findMatching_one:
  assumes a: "indexes_agree rp ca" and r: "ref_ok r" and n: "name_ok n"
  shows "findMatching r [(n, inner rp n)] =
     (if settled (renamed r n) then map_option (\<lambda>i. (n, String (renamed r n), i)) (at2 rp n (String (renamed r n))) else None)"
proof (cases "settled (renamed r n)")
  case True
  then have "SubstituteReferenceName r n = Inr (renamed r n)" using Substitute_Inr [OF r] n by (auto simp: settled_def)
  then show ?thesis using True by (simp add: at2_def split: option.split)
next
  case False
  show ?thesis
  proof (cases "SubstituteReferenceName r n")
    case (Inr c)
    then obtain k where k: "normalize n = Inr k" "name_ok k" "c = renamed r k" using Substitute_Inr [OF r] by blast
    have "k \<noteq> n" using False k(1) by (auto simp: settled_def)
    then have "at2 rp n (String c) = None"
      using agree_name [OF a] ref_ok_renamed [OF r k(2)] k(3) by (metis not_None_eq renamed_simps(1))
    then show ?thesis using False Inr by (simp add: at2_def)
  qed (use False in simp)
qed

lemma qualified_ok:
  assumes "ref_ok r" and "\<not> IsReferenceFullyQualified r" and "QualifyUnqualifiedReference r ix = Inr c"
  shows "\<exists>n. c = renamed r n \<and> name_ok n"
proof -
  have "fst (SplitReposName r) = []" using assms(2) by (simp add: IsReferenceFullyQualified_def)
  then obtain nm where "SubstituteReferenceName r nm = Inr c"
    using assms(3) by (auto simp: QualifyUnqualifiedReference_def split: if_splits prod.splits sum.splits)
  then show ?thesis using Substitute_Inr [OF assms(1)] by blast
qed

definition entry_of :: "named \<times> string \<Rightarrow> string \<times> string \<times> string" where
  "entry_of ci = (Name (fst ci), String (fst ci), snd ci)"

lemma firstOf_append: "firstOf m (xs @ ys) = (case firstOf m xs of None \<Rightarrow> firstOf m ys | Some y \<Rightarrow> Some y)"
  by (induction xs) (auto split: option.split)

lemma find_candidate:
  assumes a: "indexes_agree rp ca" and r: "ref_ok r" and n: "name_ok n"
    and ms: "from_repos rp ms" and m: "m = (\<lambda>q. at2 rp (Name q) (String q))"
    and pre: "findMatching r ms = map_option entry_of (firstOf m (filter settled cs))"
  defines "ms' \<equiv> (case map_of rp n of None \<Rightarrow> ms | Some repo \<Rightarrow> addResult n repo ms)"
  shows "findMatching r ms' = map_option entry_of (firstOf m (filter settled (cs @ [renamed r n])))" and "from_repos rp ms'"
proof -
  let ?c = "renamed r n"
  have one: "findMatching r [(n, inner rp n)] = map_option entry_of (firstOf m (filter settled [?c]))"
    using findMatching_one [OF a r n] by (simp add: m entry_of_def split: option.split)
  show "from_repos rp ms'" using ms findMatching_addResult(2) [OF ms] by (simp add: ms'_def split: option.split)
  show "findMatching r ms' = map_option entry_of (firstOf m (filter settled (cs @ [?c])))"
  proof (cases "map_of rp n")
    case None
    then have "m ?c = None" by (simp add: m at2_def inner_def)
    then show ?thesis using None pre by (simp add: ms'_def firstOf_append split: option.split)
  next
    case (Some repo)
    then have "repo = inner rp n" by (simp add: inner_def)
    then show ?thesis using findMatching_addResult(1) [OF ms Some, of r] one pre Some
      by (simp only: ms'_def option.case filter_append firstOf_append) (simp split: option.split)
  qed
qed

lemma find_registries:
  assumes a: "indexes_agree rp ca" and r: "ref_ok r" and fq: "\<not> IsReferenceFullyQualified r"
    and m: "m = (\<lambda>q. at2 rp (Name q) (String q))"
  shows "from_repos rp ms \<Longrightarrow> findMatching r ms = map_option entry_of (firstOf m (filter settled cs)) \<Longrightarrow>
    findMatching r (matchRegistries rp r ixs ms) = map_option entry_of (firstOf m (filter settled (cs @ inRegistries r ixs)))"
proof (induction ixs arbitrary: ms cs)
  case (Cons ix ixs)
  show ?case
  proof (cases "QualifyUnqualifiedReference r ix")
    case (Inl e)
    then show ?thesis using Cons.IH [OF Cons.prems] by simp
  next
    case (Inr c)
    then obtain n where n: "c = renamed r n" "name_ok n" using qualified_ok [OF r fq] by blast
    note f = find_candidate [OF a r n(2) Cons.prems(1) m Cons.prems(2)]
    show ?thesis using Cons.IH [OF f(2,1)] Inr n(1) by (simp cong: option.case_cong)
  qed
qed simp

text \<open>A lookup is the specification's.\<close>

lemma lookup_resolves:
  assumes inv: "ref_inv s" and r: "ref_ok r"
  shows "findMatching r (getMatchingReferenceList s r) =
    map_option entry_of (resolve (rs_defaultRegistries s) (absRefs s) r)"
proof -
  let ?rp = "rs_Repositories s"
  define ms where "ms = (case map_of ?rp (Name r) of None \<Rightarrow> [] | Some repo \<Rightarrow> addResult (Name r) repo [])"
  have a: "indexes_agree ?rp (rs_referencesByIDCache s)" using inv by (simp add: ref_inv_def)
  have m: "absRefs s = (\<lambda>q. at2 ?rp (Name q) (String q))" by (rule ext) (simp add: absRefs_def)
  have first: "findMatching r ms = map_option entry_of (firstOf (absRefs s) (filter settled [r]))" "from_repos ?rp ms"
    using find_candidate [OF a r ref_ok_name [OF r] _ m, of "[]" "[]"] by (simp_all add: from_repos_def ms_def)
  show ?thesis
  proof (cases "IsReferenceFullyQualified r")
    case True
    then show ?thesis using first(1) by (simp add: getMatchingReferenceList_def ms_def resolve_def candidates_def)
  next
    case False
    show ?thesis using find_registries [OF a r False m first(2,1)] False
      by (simp add: getMatchingReferenceList_def ms_def [symmetric] resolve_def candidates_def)
  qed
qed

lemma firstOf_Some: "firstOf m cs = Some (c, i) \<Longrightarrow> c \<in> set cs \<and> m c = Some i"
  by (induction cs) (auto split: option.splits)

lemma resolve_Some: "resolve regs m r = Some (c, i) \<Longrightarrow> m c = Some i"
  using firstOf_Some by (fastforce simp: resolve_def)

lemma ref_ok_default: "ref_ok r \<Longrightarrow> ref_ok (WithDefaultTag r)"
proof (cases r)
  case (NamedRef n)
  have "matches TagRegexp DefaultTag" by code_simp
  moreover assume "ref_ok r"
  ultimately show ?thesis using NamedRef by (simp add: WithDefaultTag_eq)
qed (simp_all add: WithDefaultTag_eq)

lemma refGet_resolves:
  assumes "ref_inv s" and "ref_ok r"
  shows "refGet r s = (case resolve (rs_defaultRegistries s) (absRefs s) (WithDefaultTag r) of
      None \<Rightarrow> Fail ErrRefDoesNotExist | Some (_, i) \<Rightarrow> Ret i, s)"
  using lookup_resolves [OF assms(1) ref_ok_default [OF assms(2)]]
  by (auto simp: refGet_def Let_def go_defs entry_of_def split: option.split)

lemma refDelete_follows:
  assumes inv: "ref_inv s" and r: "ref_ok r" and run: "runRef env (OpDelete r) s = (q, t)"
  shows "follows env s q t (specRef (rs_defaultRegistries s) (OpDelete r) (absRefs s))"
proof -
  let ?r = "WithDefaultTag r" and ?rp = "rs_Repositories s" and ?ca = "rs_referencesByIDCache s"
  note look = lookup_resolves [OF inv ref_ok_default [OF r]]
  show ?thesis
  proof (cases "resolve (rs_defaultRegistries s) (absRefs s) ?r")
    case None
    then have "q = Fail ErrRefDoesNotExist" "t = s" using run look by (auto simp: refDelete_def Let_def go_defs)
    then show ?thesis using follows_error [OF inv] None by simp
  next
    case (Some ci)
    then obtain c i where ci: "ci = (c, i)" by force
    have at: "at2 ?rp (Name c) (String c) = Some i"
      using resolve_Some [OF Some [unfolded ci]] by (simp add: absRefs_def)
    have wf: "wf2 ?rp" "wf2 ?ca" "indexes_agree ?rp ?ca" and writable: "\<not> rs_nilRepositories s" using inv by (auto simp: ref_inv_def)
    have save: "refSave env (s\<lparr>rs_Repositories := del2 (Name c) (String c) ?rp,
        rs_referencesByIDCache := del2 i (String c) ?ca\<rparr>) = (q, t)"
      using run look Some ci by (auto simp: refDelete_def tryGo_def Let_def go_defs entry_of_def split: outcome.splits prod.splits)
    have m: "absRefs (s\<lparr>rs_Repositories := del2 (Name c) (String c) ?rp\<rparr>) = (absRefs s)(c := None)"
      unfolding absRefs_del by (rule ext) (simp add: absRefs_def)
    from follows_save [OF save inv wf2_del2 [OF wf(1)] wf2_del2 [OF wf(2)] agree_del [OF wf(3) at] m]
    show ?thesis using Some ci by simp
  qed
qed

lemma refDelete_deleted:
  assumes "ref_inv s" and "ref_ok r" and "runRef env (OpDelete r) s = (q, t)"
  shows "\<exists>err. fst (refDelete env r s) = Ret (fst (specRef (rs_defaultRegistries s) (OpDelete r) (absRefs s)) = None, err)"
proof -
  have "\<not> is_Panic q" using refDelete_follows [OF assms] by (auto simp: follows_def saved_def split: option.splits)
  then show ?thesis
    using lookup_resolves [OF assms(1) ref_ok_default [OF assms(2)]] assms(3)
    by (cases "resolve (rs_defaultRegistries s) (absRefs s) (WithDefaultTag r)")
      (auto simp: refDelete_def tryGo_def Let_def go_defs entry_of_def split: outcome.splits prod.splits)
qed

text \<open>Every operation follows its specification.\<close>

lemma runRef_follows:
  assumes inv: "ref_inv s" and ok: "op_ok op" and run: "runRef env op s = (q, t)"
  shows "follows env s q t (specRef (rs_defaultRegistries s) op (absRefs s))"
proof (cases op)
  case (OpAddTag r i force)
  show ?thesis
  proof (cases "\<exists>n d. r = CanonicalRef n d")
    case True
    then have "q = Fail ErrDigestAsTag" "t = s" using run OpAddTag by (auto simp: AddTag_def fail_def)
    then show ?thesis using True OpAddTag follows_error [OF inv] by auto
  next
    case False
    then have "addReference env (WithDefaultTag r) i force s = (q, t)" using run OpAddTag by (cases r) (auto simp: AddTag_def)
    from addReference_follows [OF inv ref_ok_default this] show ?thesis using ok OpAddTag False by (cases r) auto
  qed
next
  case (OpAddDigest n d i force)
  then show ?thesis using addReference_follows [OF inv, of "CanonicalRef n d"] ok run by (simp add: AddDigest_def)
next
  case (OpDelete r)
  then show ?thesis using refDelete_follows [OF inv] ok run by simp
qed

section \<open>Sequences of operations\<close>

text \<open>
  The contract of an object that implements a specification: a good operation keeps the invariant,
  changes the abstract state as specified and returns the specified error, or, where none is
  specified, no error but one of the environment.
\<close>

locale refined_service =
  fixes step :: "'o \<Rightarrow> ('s, 'e, unit) go" and good :: "'o \<Rightarrow> bool" and inv :: "'s \<Rightarrow> bool"
    and abs :: "'s \<Rightarrow> 'm" and spec :: "'o \<Rightarrow> 'm \<Rightarrow> 'e option \<times> 'm" and io :: "'e \<Rightarrow> bool"
  assumes step_inv: "inv s \<Longrightarrow> good op \<Longrightarrow> step op s = (q, t) \<Longrightarrow> inv t"
    and step_abs: "inv s \<Longrightarrow> good op \<Longrightarrow> step op s = (q, t) \<Longrightarrow> abs t = snd (spec op (abs s))"
    and step_out: "inv s \<Longrightarrow> good op \<Longrightarrow> step op s = (q, t) \<Longrightarrow>
      (case fst (spec op (abs s)) of Some e \<Rightarrow> q = Fail e | None \<Rightarrow> q = Ret () \<or> (\<exists>e. q = Fail e \<and> io e))"
begin

lemma run_refines:
  assumes "inv s" and "list_all good ops"
  shows "inv (snd (runOps step ops s)) \<and> abs (snd (runOps step ops s)) = fold (\<lambda>op m. snd (spec op m)) ops (abs s) \<and>
    list_all (\<lambda>q. \<not> is_Panic q) (fst (runOps step ops s))"
  using assms
proof (induction ops arbitrary: s)
  case (Cons op ops)
  obtain q t where run: "step op s = (q, t)" by (metis surj_pair)
  have g: "good op" "list_all good ops" using Cons.prems(2) by auto
  have "\<not> is_Panic q" using step_out [OF Cons.prems(1) g(1) run] by (auto split: option.splits)
  then show ?case using Cons.IH [OF step_inv [OF Cons.prems(1) g(1) run] g(2)] step_abs [OF Cons.prems(1) g(1) run] run
    by (auto simp: Let_def split_beta)
qed simp

lemmas run_inv = run_refines [THEN conjunct1]
  and run_abs = run_refines [THEN conjunct2, THEN conjunct1]
  and run_no_panic = run_refines [THEN conjunct2, THEN conjunct2]

end

interpretation refs: refined_service "runRef env" op_ok "\<lambda>s. ref_inv s \<and> rs_defaultRegistries s = regs" absRefs "specRef regs" "\<lambda>e. \<exists>x. e = RefFS x"
  for env regs
proof (unfold_locales, goal_cases)
  case (1 s op q t)
  then show ?case using runRef_follows [of s op env q t] by (simp add: follows_def)
next
  case (2 s op q t)
  then show ?case using runRef_follows [of s op env q t] by (auto simp: follows_def)
next
  case (3 s op q t)
  then show ?case using runRef_follows [of s op env q t] by (auto simp: follows_def saved_def split: option.splits)
qed

text \<open>The references of an ID, in order.\<close>

lemma References_set:
  assumes "ref_inv s"
  shows "set (References s i) = {r. absRefs s r = Some i}"
proof -
  let ?c = "inner (rs_referencesByIDCache s) i"
  have wf: "wf2 (rs_referencesByIDCache s)" and a: "indexes_agree (rs_Repositories s) (rs_referencesByIDCache s)"
    using assms by (auto simp: ref_inv_def)
  have "set (References s i) = snd ` set ?c" by (simp add: References_def)
  also have "\<dots> = {r. \<exists>x. at2 (rs_referencesByIDCache s) i x = Some r}"
    using wf2_inner [OF wf, of i] by (force simp: at2_def)
  also have "\<dots> = {r. absRefs s r = Some i}"
    using agree_cached [OF a] agree_stored [OF a] by (auto simp: absRefs_def) (metis String_inj_name)
  finally show ?thesis .
qed

lemma References_distinct:
  assumes "ref_inv s"
  shows "distinct (map String (References s i))"
proof -
  let ?c = "inner (rs_referencesByIDCache s) i"
  have wf: "wf2 (rs_referencesByIDCache s)" and a: "indexes_agree (rs_Repositories s) (rs_referencesByIDCache s)"
    using assms by (auto simp: ref_inv_def)
  note d = wf2_inner [OF wf, of i]
  have "map (String \<circ> snd) ?c = map fst ?c"
  proof (rule map_cong)
    fix e assume "e \<in> set ?c"
    then have "at2 (rs_referencesByIDCache s) i (fst e) = Some (snd e)" using d by (simp add: at2_def)
    then show "(String \<circ> snd) e = fst e" using agree_cached [OF a] by simp
  qed simp
  then have "distinct (map String (map snd ?c))" using d by (metis map_map)
  then show ?thesis unfolding References_def by (simp only: distinct_map distinct_sort set_sort)
qed

section \<open>Restarting\<close>

definition ranges_ok :: "refEnv \<Rightarrow> bool" where
  "ranges_ok env \<longleftrightarrow> (\<forall>m. set (re_rangeRepos env m) = set m) \<and> (\<forall>m. set (re_rangeRefs env m) = set m)"

text \<open>Decoding what was encoded gives the same maps.\<close>

definition json_ok :: "refEnv \<Rightarrow> repositories \<Rightarrow> bool" where
  "json_ok env m \<longleftrightarrow> (\<exists>rp. re_Decode env (re_Marshal env m) = DecStore rp \<and> wf2 rp \<and> (\<forall>n x. at2 rp n x = at2 m n x))"

lemma at2_cacheRef:
  "at2 (cacheRef e m) i x =
     (case ParseNamed x of Inr r \<Rightarrow> if e = (x, i) then Some r else at2 m i x | Inl _ \<Rightarrow> at2 m i x)"
  by (cases e; cases "ParseNamed (fst e)") (auto simp: cacheRef_def split: sum.split)

lemma fold_cacheRef:
  "at2 (fold cacheRef es m) i x =
     (case ParseNamed x of Inr r \<Rightarrow> if (x, i) \<in> set es then Some r else at2 m i x | Inl _ \<Rightarrow> at2 m i x)"
  by (induction es arbitrary: m) (auto simp: at2_cacheRef split: sum.split)

lemma wf2_fold_cacheRef: "wf2 m \<Longrightarrow> wf2 (fold cacheRef es m)"
  by (induction es arbitrary: m) (auto simp: cacheRef_def wf2_put2 split: sum.split)

lemma fold_repos:
  "at2 (fold (\<lambda>(_, repository). fold cacheRef (f repository)) rps m) i x =
     (case ParseNamed x of Inr r \<Rightarrow> if \<exists>(n, repo)\<in>set rps. (x, i) \<in> set (f repo) then Some r else at2 m i x | Inl _ \<Rightarrow> at2 m i x)"
  by (induction rps arbitrary: m) (auto simp: fold_cacheRef split: sum.split)

lemma wf2_fold_repos: "wf2 m \<Longrightarrow> wf2 (fold (\<lambda>(_, repository). fold cacheRef (f repository)) rps m)"
  by (induction rps arbitrary: m) (auto simp: wf2_fold_cacheRef)

lemma at2_entries: "wf2 m \<Longrightarrow> at2 m n x = Some i \<longleftrightarrow> (\<exists>repo. (n, repo) \<in> set m \<and> (x, i) \<in> set repo)"
  by (force simp: at2_def inner_def wf2_def split: option.splits)

text \<open>The cache that \<open>reload\<close> builds: the entries whose key parses.\<close>

lemma cacheAll_at:
  assumes "ranges_ok env" and "wf2 rp"
  shows "at2 (cacheAll env rp []) i x =
     (case ParseNamed x of Inr r \<Rightarrow> if \<exists>n. at2 rp n x = Some i then Some r else None | Inl _ \<Rightarrow> None)"
proof -
  have "(\<exists>(n, repo)\<in>set (re_rangeRepos env rp). (x, i) \<in> set (re_rangeRefs env repo)) \<longleftrightarrow> (\<exists>n. at2 rp n x = Some i)"
    using assms(1) at2_entries [OF assms(2)] by (auto simp: ranges_ok_def)
  then show ?thesis by (simp add: cacheAll_def fold_repos at2_def [of "[]"] inner_def split: sum.split)
qed

lemma wf2_cacheAll: "wf2 (cacheAll env rp [])"
  by (simp add: cacheAll_def wf2_fold_repos)

text \<open>If every stored key is that of a settled reference with a valid digest, the cache is the one there was.\<close>

lemma reload_agrees:
  assumes inv: "indexes_agree rp ca" and r: "ranges_ok env" and wf: "wf2 rp'" and same: "\<And>n x. at2 rp' n x = at2 rp n x"
    and good: "\<And>q i. at2 rp (Name q) (String q) = Some i \<Longrightarrow> settled q \<and> digest_ok q"
  shows "at2 (cacheAll env rp' []) i x = at2 ca i x"
proof (cases "\<exists>n. at2 rp n x = Some i")
  case True
  then obtain n q where q: "ref_ok q" "String q = x" "Name q = n" "at2 ca i x = Some q" "at2 rp n x = Some i"
    using agree_entry [OF inv] by metis
  then have "settled q \<and> digest_ok q" using good [of q i] by simp
  then have "ParseNamed x = Inr q" using ParseNamed_String [of q] Substitute_self [of q] q by simp
  then show ?thesis using cacheAll_at [OF r wf, of i x] same True q(4) by simp
next
  case False
  have "at2 ca i x = None"
    using agree_cached [OF inv, of i x] False by (cases "at2 ca i x") auto
  then show ?thesis using cacheAll_at [OF r wf, of i x] same False by (simp split: sum.split)
qed

lemma reload_run:
  assumes "look (fs_entries fs) p = Some (File dt)" and "\<not> fs_unreadable fs p" and "re_Decode env dt = DecStore rp"
  shows "NewReferenceStore env p regs fs = (Ret (), \<lparr>rs_defaultRegistries = regs, rs_jsonPath = p,
     rs_Repositories = AList.merge [] rp, rs_nilRepositories = False, rs_referencesByIDCache = cacheAll env (AList.merge [] rp) [], rs_fs = fs\<rparr>)"
  using assms by (simp add: NewReferenceStore_def reload_def tryGo_def go_defs onRefFs_def zoom_def ReadFile_def)

lemma merge_Nil: "wf2 m \<Longrightarrow> wf2 (AList.merge [] m) \<and> (\<forall>n x. at2 (AList.merge [] m) n x = at2 m n x)"
  using distinct_merge [of "[]" m] by (simp add: wf2_def at2_def inner_def merge_conv' del: map_of_eq_Some_iff)

lemma References_cong:
  assumes "ref_inv s" and "ref_inv t" and "absRefs s = absRefs t"
  shows "References s i = References t i"
proof -
  have "map String (References s i) = map String (References t i)"
  proof (rule sorted_distinct_set_unique)
    show "set (map String (References s i)) = set (map String (References t i))"
      using References_set [OF assms(1), of i] References_set [OF assms(2), of i] assms(3) by simp
  qed (use References_distinct [OF assms(1)] References_distinct [OF assms(2)] in \<open>simp_all add: References_def\<close>)
  moreover have "inj_on String (set (References s i) \<union> set (References t i))"
  proof -
    have "set (References t i) = set (References s i)"
      using References_set [OF assms(1), of i] References_set [OF assms(2), of i] assms(3) by simp
    moreover have "inj_on String (set (References s i))" using References_distinct [OF assms(1), of i] by (simp add: distinct_map)
    ultimately show ?thesis by simp
  qed
  ultimately show ?thesis using map_inj_on by blast
qed

section \<open>Names that are not settled\<close>

lemma star_unfold: "y \<in> star L \<Longrightarrow> y = [] \<or> y \<in> {a @ b |a b. a \<in> L \<and> b \<in> star L}"
  by (erule star.cases) auto

lemma component_no_slash: "c \<in> lang nameComponentRegexp \<Longrightarrow> CHR ''/'' \<notin> set c"
proof -
  have "\<not> chars nameComponentRegexp CHR ''/''" by code_simp
  then show "c \<in> lang nameComponentRegexp \<Longrightarrow> CHR ''/'' \<notin> set c" using lang_chars by blast
qed

lemma split_at_slash:
  "a @ CHR ''/'' # b = c @ CHR ''/'' # d \<Longrightarrow> CHR ''/'' \<notin> set a \<Longrightarrow> CHR ''/'' \<notin> set c \<Longrightarrow> a = c \<and> b = d"
  by (auto simp: append_eq_append_conv2 Cons_eq_append_conv append_eq_Cons_conv)

lemma path_tail:
  assumes "a @ CHR ''/'' # b \<in> lang pathRegexp" and "CHR ''/'' \<notin> set a"
  shows "b \<in> lang pathRegexp"
proof -
  let ?L = "lang (Cat (Lit CHR ''/'') nameComponentRegexp)"
  obtain c rest where c: "a @ CHR ''/'' # b = c @ rest" "c \<in> lang nameComponentRegexp" "rest = [] \<or> rest \<in> {x @ y |x y. x \<in> ?L \<and> y \<in> star ?L}"
    using assms(1) unfolding pathRegexp_def lang.simps(5) lang_defs(2,3) by blast
  have "CHR ''/'' \<notin> set c" using component_no_slash [OF c(2)] .
  then have "rest \<noteq> []" using c(1) by (metis append_Nil2 in_set_conv_decomp)
  then obtain x y where "rest = x @ y" "x \<in> ?L" and y3: "y \<in> star ?L" using c(3) by blast
  moreover then obtain c1 where "x = CHR ''/'' # c1" and y2: "c1 \<in> lang nameComponentRegexp" by (auto simp: lang_defs)
  ultimately have y1: "rest = CHR ''/'' # c1 @ y" by simp
  have "b = c1 @ y" using split_at_slash [of a b c "c1 @ y"] c(1) y1 assms(2) \<open>CHR ''/'' \<notin> set c\<close> by simp
  moreover have "y = [] \<or> y \<in> lang (Plus (Cat (Lit CHR ''/'') nameComponentRegexp))"
    using star_unfold [OF y3] by (simp add: lang_defs(3))
  ultimately show ?thesis using y2 unfolding pathRegexp_def by (auto simp: lang_defs(2))
qed

lemma name_tail:
  assumes "matches NameRegexp (a @ CHR ''/'' # b)" and "CHR ''/'' \<notin> set a"
  shows "matches pathRegexp b"
proof -
  consider "a @ CHR ''/'' # b \<in> lang pathRegexp"
    | h p where "a @ CHR ''/'' # b = h @ CHR ''/'' # p" "h \<in> lang hostnameRegexp" "p \<in> lang pathRegexp"
    using assms(1) unfolding NameRegexp_def by (auto simp: lang_defs matches_lang)
  then show ?thesis
  proof cases
    case 1
    then show ?thesis using path_tail assms(2) by (simp add: matches_lang)
  next
    case 2
    have "CHR ''/'' \<notin> set h" using 2(2) lang_chars not_chars(3) by blast
    then show ?thesis using split_at_slash [OF 2(1) assms(2)] 2(3) by (simp add: matches_lang)
  qed
qed

text \<open>A name with the host \<open>docker.io\<close> is fully qualified.\<close>

lemma default_qualified:
  assumes "ref_ok r" and "Name r = DefaultHostname @ CHR ''/'' # b"
  shows "IsReferenceFullyQualified r"
proof -
  have "matches NameRegexp (DefaultHostname @ CHR ''/'' # b)" using ref_ok_name [OF assms(1)] assms(2) by (simp add: name_ok_def)
  from name_tail [OF this dash_default(2)] have "matches pathRegexp b" .
  moreover have "matches hostnameRegexp DefaultHostname" by code_simp
  moreover have "isValidHostname DefaultHostname" by code_simp
  moreover have "indexByte CHR ''/'' (Name r) = Some (length DefaultHostname)"
    by (simp add: assms(2) DefaultHostname_def)
  ultimately have "SplitHostname (Name r) = (DefaultHostname, b)" by (simp add: SplitHostname_def assms(2))
  then show ?thesis using \<open>isValidHostname DefaultHostname\<close>
    by (simp add: IsReferenceFullyQualified_def SplitReposName_def isValidHostname_def)
qed

lemma official_not_settled:
  assumes "Name r = officialPrefix @ b"
  shows "\<not> settled r"
proof
  assume "settled r"
  then have "normalize (Name r) = Inr (Name r)" by (simp add: settled_def)
  from normalize_stable [OF this] this assms show False by simp
qed

lemma official_unresolved:
  assumes "ref_ok r" and "Name r = officialPrefix @ b"
  shows "resolve regs m r = None"
  using default_qualified [OF assms(1)] official_not_settled [OF assms(2)] assms(2)
  by (simp add: resolve_def candidates_def officialPrefix_def)

section \<open>Concrete runs\<close>

text \<open>An encoding with a line for each part, to run the store with.\<close>

fun demoGroup :: "string list \<Rightarrow> repositories" where
  "demoGroup (n # x # i # rest) = put2 n x i (demoGroup rest)"
| "demoGroup _ = []"

definition demoMarshal :: "repositories \<Rightarrow> string" where
  "demoMarshal m = concat (map (\<lambda>(n, repo). concat (map (\<lambda>(x, i). n @ ''|'' @ x @ ''|'' @ i @ ''|'') repo)) m)"

definition demo_ref_env :: refEnv where
  "demo_ref_env = \<lparr>re_Marshal = demoMarshal, re_Decode = (\<lambda>s. DecStore (demoGroup (splitOn CHR ''|'' s))),
     re_rangeRepos = (\<lambda>m. m), re_rangeRefs = rev\<rparr>"

definition demo_refs :: refStore where
  "demo_refs = snd (NewReferenceStore demo_ref_env [''r.json''] [''docker.io''] demo_fs)"

lemma demo_refs_new: "NewReferenceStore demo_ref_env [''r.json''] [''docker.io''] demo_fs = (Ret (), demo_refs)"
proof -
  have "fst (NewReferenceStore demo_ref_env [''r.json''] [''docker.io''] demo_fs) = Ret ()" by code_simp
  then show ?thesis by (simp add: demo_refs_def prod_eq_iff)
qed

lemma demo_ranges: "ranges_ok demo_ref_env"
  by (simp add: ranges_ok_def demo_ref_env_def)

section \<open>Properties\<close>

lemma new_store_ok:
  assumes new: "NewReferenceStore env p regs fs = (Ret (), s)" and "fs_ok fs" and "p \<noteq> []" and "plain (last p)"
    and none: "look (fs_entries fs) p = None"
  shows "ref_inv s" and "rs_defaultRegistries s = regs" and "absRefs s = Map.empty"
proof -
  let ?s = "\<lparr>rs_defaultRegistries = regs, rs_jsonPath = p, rs_Repositories = [], rs_nilRepositories = False, rs_referencesByIDCache = [], rs_fs = fs\<rparr>"
  have save: "refSave env ?s = (Ret (), s)"
    using new none by (simp add: NewReferenceStore_def reload_def tryGo_def go_defs onRefFs_def zoom_def ReadFile_def)
  have d: "disk_ok ?s" using assms by (simp add: disk_ok_def)
  note w = refSave_spec [OF save d]
  show "ref_inv s" using w(1,2,5,6) by (simp add: ref_inv_def indexes_agree_def at2_def inner_def)
  show "rs_defaultRegistries s = regs" using w(3) by simp
  show "absRefs s = Map.empty" using w(1) by (auto simp: absRefs_def at2_def inner_def)
qed

text \<open>
  C37. The store stays well typed: after any operations on a new store, failed saves included, the
  two indexes are maps without empty inner maps, the keys of both are the texts of well-formed references,
  and \<open>References\<close> of an ID lists, in order and once each, exactly the references that the repositories map to it.
\<close>

theorem reference_indexes_agree:
  assumes "NewReferenceStore env p regs fs = (Ret (), s)" and "fs_ok fs" and "p \<noteq> []" and "plain (last p)"
    and "look (fs_entries fs) p = None" and "list_all op_ok ops" and "runOps (runRef env) ops s = (qs, t)"
  shows "ref_inv t \<and> list_all (\<lambda>q. \<not> is_Panic q) qs \<and>
    set (References t i) = {r. absRefs t r = Some i} \<and>
    sorted (map String (References t i)) \<and> distinct (map String (References t i))"
proof -
  note new = new_store_ok [OF assms(1-5)]
  from refs.run_refines [of s regs ops env] new(1,2) assms(6,7)
  have t: "ref_inv t" and q: "list_all (\<lambda>q. \<not> is_Panic q) qs" by auto
  show ?thesis using t q References_set [OF t] References_distinct [OF t] by (simp add: References_def)
qed

definition demo_tag :: named where "demo_tag = TaggedRef ''docker.io/b'' ''v''"

lemma demo_tag_ok: "ref_ok demo_tag"
  by code_simp

definition demo_tagged :: refStore where
  "demo_tagged = snd (AddTag demo_ref_env demo_tag ''i'' False demo_refs)"

lemma demo_tagging: "AddTag demo_ref_env demo_tag ''i'' False demo_refs = (Ret (), demo_tagged)"
proof -
  have "fst (AddTag demo_ref_env demo_tag ''i'' False demo_refs) = Ret ()" by code_simp
  then show ?thesis by (simp add: demo_tagged_def prod_eq_iff)
qed

lemma demo_refs_ok: "ref_inv demo_refs" "rs_defaultRegistries demo_refs = [''docker.io'']"
  using new_store_ok [OF demo_refs_new demo_fs_ok] by (auto simp: plain_def demo_fs_def look_def)

theorem reference_indexes_agree_witness:
  "snd (runOps (runRef demo_ref_env) [OpAddTag demo_tag ''i'' False] demo_refs) = demo_tagged \<and>
   References demo_tagged ''i'' = [demo_tag] \<and> set (References demo_tagged ''i'') = {r. absRefs demo_tagged r = Some ''i''}"
proof -
  have run: "runOps (runRef demo_ref_env) [OpAddTag demo_tag ''i'' False] demo_refs = ([Ret ()], demo_tagged)"
    by (simp add: demo_tagging)
  have "set (References demo_tagged ''i'') = {r. absRefs demo_tagged r = Some ''i''}"
    using reference_indexes_agree [OF demo_refs_new demo_fs_ok _ _ _ _ run, of "''i''"] demo_tag_ok
    by (simp add: plain_def demo_fs_def look_def)
  moreover have "References demo_tagged ''i'' = [demo_tag]" by code_simp
  moreover have "snd (runOps (runRef demo_ref_env) [OpAddTag demo_tag ''i'' False] demo_refs) = demo_tagged" using run by (simp only: snd_conv)
  ultimately show ?thesis by (simp only: simp_thms)
qed

text \<open>
  C38. The store is the map it promises to be: an operation changes the map from references to IDs as
  specified (a tag is replaced only if forced, a digest reference never, a deletion removes the first
  match) and returns the specified error, or else no error but one of the disk; \<open>Delete\<close> says that it
  deleted exactly if there was a match, even if saving failed; and \<open>Get\<close> returns the ID of
  the first of the reference and its default-registry forms that is stored under a settled name.
\<close>

theorem reference_store_refines_map:
  assumes "ref_inv s" and "op_ok op" and "runRef env op s = (q, t)" and "ref_ok r"
  defines "sp \<equiv> specRef (rs_defaultRegistries s) op (absRefs s)"
  shows "absRefs t = snd sp \<and>
    (case fst sp of Some e \<Rightarrow> q = Fail e \<and> t = s | None \<Rightarrow> q = Ret () \<or> (\<exists>e. q = Fail (RefFS e))) \<and>
    (\<forall>d. op = OpDelete d \<longrightarrow> (\<exists>err. fst (refDelete env d s) = Ret (fst sp = None, err))) \<and>
    refGet r t = (case resolve (rs_defaultRegistries s) (absRefs t) (WithDefaultTag r) of
      None \<Rightarrow> Fail ErrRefDoesNotExist | Some (_, i) \<Rightarrow> Ret i, t)"
proof -
  have del: "\<forall>d. op = OpDelete d \<longrightarrow> (\<exists>err. fst (refDelete env d s) = Ret (fst sp = None, err))"
    unfolding sp_def using refDelete_deleted [OF assms(1)] assms(2,3) by auto
  have f: "follows env s q t sp" unfolding sp_def by (rule runRef_follows [OF assms(1-3)])
  then have "ref_inv t" "rs_defaultRegistries t = rs_defaultRegistries s" by (simp_all add: follows_def)
  from refGet_resolves [OF this(1) assms(4)] this(2) f del show ?thesis
    by (auto simp: follows_def saved_def split: option.splits)
qed

theorem reference_store_refines_map_witness:
  "runRef demo_ref_env (OpAddTag demo_tag ''i'' False) demo_refs = (Ret (), demo_tagged) \<and>
   refGet (TaggedRef ''b'' ''v'') demo_tagged = (Ret ''i'', demo_tagged) \<and>
   absRefs demo_tagged = [demo_tag \<mapsto> ''i'']"
proof -
  have run: "runRef demo_ref_env (OpAddTag demo_tag ''i'' False) demo_refs = (Ret (), demo_tagged)" by (simp add: demo_tagging)
  have ok: "op_ok (OpAddTag demo_tag ''i'' False)" using demo_tag_ok by simp
  have r: "ref_ok (TaggedRef ''b'' ''v'')" by code_simp
  note c = reference_store_refines_map [OF demo_refs_ok(1) ok run r]
  have empty: "absRefs demo_refs = Map.empty"
    using new_store_ok(3) [OF demo_refs_new demo_fs_ok] by (simp add: plain_def demo_fs_def look_def)
  have m: "absRefs demo_tagged = [demo_tag \<mapsto> ''i'']"
    using c by (simp add: empty demo_tag_def specAdd_def WithDefaultTag_eq)
  have "fst (refGet (TaggedRef ''b'' ''v'') demo_tagged) = Ret ''i''" by code_simp
  then show ?thesis using run m c by auto
qed

text \<open>
  C39. A restart after a successful operation finds what there was: the new store reads the file, its
  repositories map the same references to the same IDs, and the rebuilt cache gives the same \<open>References\<close>
  of every ID, provided that each stored reference has a settled name and a valid digest.
\<close>

theorem restart_keeps_references:
  assumes inv: "ref_inv s" and op: "op_ok op" and run: "runRef env op s = (Ret (), t)"
    and ranges: "ranges_ok env" and json: "json_ok env (rs_Repositories t)"
    and readable: "\<not> fs_unreadable (rs_fs t) (rs_jsonPath t)"
    and good: "\<forall>r i. absRefs t r = Some i \<longrightarrow> settled r \<and> digest_ok r"
  shows "\<exists>u. NewReferenceStore env (rs_jsonPath t) regs (rs_fs t) = (Ret (), u) \<and>
    ref_inv u \<and> absRefs u = absRefs t \<and> (\<forall>i. References u i = References t i)"
proof -
  note f = runRef_follows [OF inv op run]
  have t: "ref_inv t" using f by (simp add: follows_def)
  have written: "look (fs_entries (rs_fs t)) (rs_jsonPath t) = Some (File (re_Marshal env (rs_Repositories t)))"
    using f by (auto simp: follows_def saved_def split: option.splits)
  obtain rp where rp: "re_Decode env (re_Marshal env (rs_Repositories t)) = DecStore rp" "wf2 rp"
      "\<And>n x. at2 rp n x = at2 (rs_Repositories t) n x"
    using json by (auto simp: json_ok_def)
  define rp' where "rp' = AList.merge [] rp"
  have m: "wf2 rp'" "\<And>n x. at2 rp' n x = at2 (rs_Repositories t) n x" using merge_Nil [OF rp(2)] rp(3) by (simp_all add: rp'_def)
  define u where "u = \<lparr>rs_defaultRegistries = regs, rs_jsonPath = rs_jsonPath t, rs_Repositories = rp', rs_nilRepositories = False,
     rs_referencesByIDCache = cacheAll env rp' [], rs_fs = rs_fs t\<rparr>"
  have new: "NewReferenceStore env (rs_jsonPath t) regs (rs_fs t) = (Ret (), u)"
    using reload_run [OF written readable rp(1)] by (simp add: u_def rp'_def)
  have a: "indexes_agree (rs_Repositories t) (rs_referencesByIDCache t)" "disk_ok t" using t by (auto simp: ref_inv_def)
  have "at2 (cacheAll env rp' []) i x = at2 (rs_referencesByIDCache t) i x" for i x
    by (rule reload_agrees [OF a(1) ranges m(1,2)]) (use good in \<open>simp add: absRefs_def\<close>)
  then have "indexes_agree rp' (cacheAll env rp' [])" using a(1) m(2) by (simp add: indexes_agree_def)
  then have u: "ref_inv u" using m(1) wf2_cacheAll a(2) by (simp add: ref_inv_def u_def disk_ok_def)
  have "absRefs u = absRefs t" using m(2) by (auto simp: absRefs_def u_def)
  then show ?thesis using new u References_cong [OF u t] by blast
qed

lemma demo_repos: "rs_Repositories demo_tagged = [(''docker.io/b'', [(''docker.io/b:v'', ''i'')])]"
  by code_simp

lemma demo_json: "json_ok demo_ref_env (rs_Repositories demo_tagged)"
proof -
  have "(case re_Decode demo_ref_env (re_Marshal demo_ref_env [(''docker.io/b'', [(''docker.io/b:v'', ''i'')])]) of
      DecStore rp \<Rightarrow> rp = [(''docker.io/b'', [(''docker.io/b:v'', ''i'')])] | _ \<Rightarrow> False)" by code_simp
  then have "re_Decode demo_ref_env (re_Marshal demo_ref_env (rs_Repositories demo_tagged)) = DecStore (rs_Repositories demo_tagged)"
    by (auto simp: demo_repos split: decoded.splits)
  moreover have "wf2 (rs_Repositories demo_tagged)" by (simp add: demo_repos wf2_def)
  ultimately show ?thesis by (auto simp: json_ok_def)
qed

lemma demo_good: "absRefs demo_tagged r = Some i \<Longrightarrow> settled r \<and> digest_ok r"
proof -
  assume "absRefs demo_tagged r = Some i"
  then have "Name r = ''docker.io/b''" "String r = ''docker.io/b:v''"
    by (auto simp: absRefs_def demo_repos at2_def inner_def split: if_splits)
  then have "r = demo_tag" by (intro String_inj_name) (simp_all add: demo_tag_def)
  moreover have "settled demo_tag \<and> digest_ok demo_tag" by code_simp
  ultimately show ?thesis by simp
qed

theorem restart_keeps_references_witness:
  "\<exists>u. NewReferenceStore demo_ref_env [''r.json''] [] (rs_fs demo_tagged) = (Ret (), u) \<and>
     absRefs u = absRefs demo_tagged \<and> References u ''i'' = References demo_tagged ''i''"
proof -
  have run: "runRef demo_ref_env (OpAddTag demo_tag ''i'' False) demo_refs = (Ret (), demo_tagged)" by (simp add: demo_tagging)
  have op: "op_ok (OpAddTag demo_tag ''i'' False)" using demo_tag_ok by simp
  have path: "rs_jsonPath demo_tagged = [''r.json'']" by code_simp
  have readable: "\<not> fs_unreadable (rs_fs demo_tagged) [''r.json'']" by code_simp
  have good: "\<forall>r i. absRefs demo_tagged r = Some i \<longrightarrow> settled r \<and> digest_ok r" using demo_good by blast
  from restart_keeps_references [OF demo_refs_ok(1) op run demo_ranges demo_json _ good, where regs = "[]"]
  show ?thesis using path readable by auto
qed

text \<open>
  C40. A reference whose normalised name starts with \<open>docker.io/library/\<close> (such as that of
  \<open>docker.io/library/library/b\<close>) is lost as soon as it is stored: it is in the store and listed by
  \<open>References\<close>, but \<open>Get\<close> and \<open>Delete\<close> of the very same reference do not find it, because they normalise the
  repository's name once more.
\<close>

theorem official_reference_unreachable:
  assumes inv: "ref_inv s" and ok: "ref_ok (TaggedRef n tg)" and pre: "prefix ''docker.io/library/'' n"
    and run: "AddTag env (TaggedRef n tg) i True s = (Ret (), t)"
  shows "absRefs t (TaggedRef n tg) = Some i \<and> TaggedRef n tg \<in> set (References t i) \<and>
    fst (refGet (TaggedRef n tg) t) = Fail ErrRefDoesNotExist \<and>
    fst (refDelete env (TaggedRef n tg) t) = Ret (False, Some ErrRefDoesNotExist)"
proof -
  let ?r = "TaggedRef n tg"
  have f: "follows env s (Ret ()) t (specAdd ?r i True (absRefs s))"
    using runRef_follows [OF inv, of "OpAddTag ?r i True"] run ok by (simp add: WithDefaultTag_eq)
  then have t: "ref_inv t" by (simp add: follows_def)
  have at: "absRefs t ?r = Some i" using f by (auto simp: follows_def specAdd_def split: option.splits if_splits)
  obtain b where b: "Name ?r = officialPrefix @ b"
    using pre by (auto simp: prefix_def officialPrefix_def DefaultHostname_def DefaultRepoPrefix_def)
  note none = official_unresolved [OF ok b]
  have "findMatching ?r (getMatchingReferenceList t ?r) = None" using lookup_resolves [OF t ok] none by simp
  then have "fst (refDelete env ?r t) = Ret (False, Some ErrRefDoesNotExist)"
    by (simp add: refDelete_def Let_def go_defs WithDefaultTag_eq)
  moreover have "fst (refGet ?r t) = Fail ErrRefDoesNotExist"
    using refGet_resolves [OF t ok] none by (simp add: WithDefaultTag_eq)
  ultimately show ?thesis using at References_set [OF t] by simp
qed

theorem official_reference_unreachable_witness:
  "\<exists>t. ParseNamed ''docker.io/library/library/b:v'' = Inr (TaggedRef ''docker.io/library/b'' ''v'') \<and>
     AddTag demo_ref_env (TaggedRef ''docker.io/library/b'' ''v'') ''i'' True demo_refs = (Ret (), t) \<and>
     absRefs t (TaggedRef ''docker.io/library/b'' ''v'') = Some ''i'' \<and>
     fst (refGet (TaggedRef ''docker.io/library/b'' ''v'') t) = Fail ErrRefDoesNotExist"
proof -
  let ?r = "TaggedRef ''docker.io/library/b'' ''v''"
  have p: "ParseNamed ''docker.io/library/library/b:v'' = Inr ?r" by code_simp
  have "fst (AddTag demo_ref_env ?r ''i'' True demo_refs) = Ret ()" by code_simp
  then obtain t where run: "AddTag demo_ref_env ?r ''i'' True demo_refs = (Ret (), t)" by (metis prod.collapse)
  have pre: "prefix ''docker.io/library/'' ''docker.io/library/b''" by simp
  from official_reference_unreachable [OF demo_refs_ok(1) ParseNamed_ok(1) [OF p] pre run] p run show ?thesis by blast
qed

end
