(* ===== verification/RestartManager.thy ===== *)
theory RestartManager
  imports Prelude
begin

text \<open>
  The restart manager of \<^verbatim>\<open>restartmanager/restartmanager.go\<close>: the decision whether a container that
  exited is started again, the back-off before it, and the cancellation. The goroutine that waits
  for the timer or the cancellation is part of the state; its two ways to go on are events, and
  what the caller then receives from the channel is their answer.
\<close>

section \<open>Policy and state\<close>

record RestartPolicy =
  rp_Name :: string
  rp_MaximumRetryCount :: int64

definition IsNone :: "RestartPolicy \<Rightarrow> bool" where
  "IsNone rp \<longleftrightarrow> rp_Name rp = ''no'' \<or> rp_Name rp = ''''"

definition IsAlways :: "RestartPolicy \<Rightarrow> bool" where
  "IsAlways rp \<longleftrightarrow> rp_Name rp = ''always''"

definition IsOnFailure :: "RestartPolicy \<Rightarrow> bool" where
  "IsOnFailure rp \<longleftrightarrow> rp_Name rp = ''on-failure''"

definition IsUnlessStopped :: "RestartPolicy \<Rightarrow> bool" where
  "IsUnlessStopped rp \<longleftrightarrow> rp_Name rp = ''unless-stopped''"

definition backoffMultiplier :: int64 where
  "backoffMultiplier = 2"

text \<open>Durations are 64-bit numbers of nanoseconds.\<close>

definition defaultTimeout :: int64 where
  "defaultTimeout = 100 * 1000000"

datatype rm_err = ErrRestartCanceled | ErrActive

record restartManager =
  rm_policy :: RestartPolicy
  rm_restartCount :: int64
  rm_timeout :: int64
  rm_active :: bool
  rm_canceled :: bool
  rm_waiting :: bool

definition New :: "RestartPolicy \<Rightarrow> int64 \<Rightarrow> restartManager" where
  "New policy restartCount = \<lparr>rm_policy = policy, rm_restartCount = restartCount, rm_timeout = 0,
     rm_active = False, rm_canceled = False, rm_waiting = False\<rparr>"

definition SetPolicy :: "RestartPolicy \<Rightarrow> restartManager \<Rightarrow> restartManager" where
  "SetPolicy policy rm = rm\<lparr>rm_policy := policy\<rparr>"

definition nextTimeout :: "int64 \<Rightarrow> int64 \<Rightarrow> int64" where
  "nextTimeout executionDuration timeout =
     (let t = (if sint executionDuration \<ge> 10 * 1000000000 then 0 else timeout) in
      if t = 0 then defaultTimeout else t * backoffMultiplier)"

definition wantsRestart :: "restartManager \<Rightarrow> 32 word \<Rightarrow> bool \<Rightarrow> bool" where
  "wantsRestart rm exitCode hasBeenManuallyStopped =
     (if IsAlways (rm_policy rm) then True
      else if IsUnlessStopped (rm_policy rm) \<and> \<not> hasBeenManuallyStopped then True
      else if IsOnFailure (rm_policy rm) then
        (let max = rp_MaximumRetryCount (rm_policy rm) in
         if max = 0 \<or> sint (rm_restartCount rm) < sint max then exitCode \<noteq> 0 else False)
      else False)"

text \<open>
  What a caller learns: the decision of \<open>ShouldRestart\<close> (the channel is returned exactly with the
  decision to restart), or what the receive on that channel gives. A closed channel gives no error,
  and the container is started again; otherwise the error is received.
\<close>

datatype rmAnswer = Decision bool | Received "rm_err option" | Silent

definition ShouldRestart :: "32 word \<Rightarrow> bool \<Rightarrow> int64 \<Rightarrow> (restartManager, rm_err, rmAnswer) go" where
  "ShouldRestart exitCode hasBeenManuallyStopped executionDuration rm =
     (if IsNone (rm_policy rm) then (Ret (Decision False), rm)
      else if rm_canceled rm then (Fail ErrRestartCanceled, rm)
      else if rm_active rm then (Fail ErrActive, rm)
      else
        let rm = rm\<lparr>rm_timeout := nextTimeout executionDuration (rm_timeout rm)\<rparr> in
        if \<not> wantsRestart rm exitCode hasBeenManuallyStopped
        then (Ret (Decision False), rm\<lparr>rm_active := False\<rparr>)
        else (Ret (Decision True), rm\<lparr>rm_restartCount := rm_restartCount rm + 1, rm_active := True, rm_waiting := True\<rparr>))"

text \<open>
  The goroutine that waits. Its timer branch closes the channel and clears \<open>active\<close>; its
  cancellation branch, which is possible once \<open>cancel\<close> is closed, sends the error and leaves
  \<open>active\<close> set. When both are ready the \<open>select\<close> may take either.
\<close>

definition timerFires :: "(restartManager, rm_err, rmAnswer) go" where
  "timerFires rm =
     (if rm_waiting rm then (Ret (Received None), rm\<lparr>rm_active := False, rm_waiting := False\<rparr>)
      else (Ret Silent, rm))"

definition cancelSeen :: "(restartManager, rm_err, rmAnswer) go" where
  "cancelSeen rm =
     (if rm_waiting rm \<and> rm_canceled rm then (Ret (Received (Some ErrRestartCanceled)), rm\<lparr>rm_waiting := False\<rparr>)
      else (Ret Silent, rm))"

definition Cancel :: "restartManager \<Rightarrow> restartManager" where
  "Cancel rm = rm\<lparr>rm_canceled := True\<rparr>"

section \<open>Runs\<close>

datatype rmEvent =
    EvShouldRestart "32 word" bool int64
  | EvSetPolicy RestartPolicy
  | EvTimer
  | EvCancelSeen
  | EvCancel

fun rmStep :: "rmEvent \<Rightarrow> (restartManager, rm_err, rmAnswer) go" where
  "rmStep (EvShouldRestart e s d) rm = ShouldRestart e s d rm"
| "rmStep (EvSetPolicy policy) rm = (Ret Silent, SetPolicy policy rm)"
| "rmStep EvTimer rm = timerFires rm"
| "rmStep EvCancelSeen rm = cancelSeen rm"
| "rmStep EvCancel rm = (Ret Silent, Cancel rm)"

text \<open>The restarts that were decided, and those whose caller was told to go on.\<close>

abbreviation granted :: "(rm_err, rmAnswer) outcome list \<Rightarrow> nat" where
  "granted rs \<equiv> count_list rs (Ret (Decision True))"

abbreviation restarted :: "(rm_err, rmAnswer) outcome list \<Rightarrow> nat" where
  "restarted rs \<equiv> count_list rs (Ret (Received None))"

abbreviation pending :: "restartManager \<Rightarrow> nat" where
  "pending rm \<equiv> (if rm_waiting rm then 1 else 0)"

lemmas rm_defs = ShouldRestart_def timerFires_def cancelSeen_def Cancel_def SetPolicy_def Let_def

lemma rmStep_pending:
  "(if fst (rmStep ev rm) = Ret (Received None) then 1 else 0) + pending (snd (rmStep ev rm)) \<le>
   (if fst (rmStep ev rm) = Ret (Decision True) then 1 else 0) + pending rm"
  by (cases ev) (auto simp: rm_defs)

lemma run_pending:
  "restarted (fst (runOps rmStep evs rm)) + pending (snd (runOps rmStep evs rm)) \<le>
   granted (fst (runOps rmStep evs rm)) + pending rm"
proof (induction evs arbitrary: rm)
  case (Cons ev evs)
  show ?case
    using Cons.IH [of "snd (rmStep ev rm)"] rmStep_pending [of ev rm]
    by (simp add: Let_def split_beta split: if_splits)
qed simp

text \<open>A policy that allows restarts only up to the count \<open>M\<close>.\<close>

definition limited :: "int \<Rightarrow> RestartPolicy \<Rightarrow> bool" where
  "limited M rp \<longleftrightarrow> IsOnFailure rp \<and> 0 < sint (rp_MaximumRetryCount rp) \<and> sint (rp_MaximumRetryCount rp) \<le> M"

lemma sint_add_one: "sint x < sint y \<Longrightarrow> sint (x + 1) = sint x + 1" for x y :: int64
proof -
  assume "sint x < sint y"
  then have "- (2 ^ 63) \<le> sint x + 1" "sint x + 1 < 2 ^ 63"
    using sint_ge [of x] sint_lt [of y] by simp_all
  then have "signed_take_bit 63 (sint x + 1) = sint x + 1" by (simp add: signed_take_bit_int_eq_self)
  then show ?thesis by (simp add: signed_take_bit_add sint_word_ariths)
qed

lemma rmStep_limited:
  assumes "limited M (rm_policy rm)" and "\<And>p. ev = EvSetPolicy p \<Longrightarrow> limited M p"
  shows "limited M (rm_policy (snd (rmStep ev rm))) \<and>
    sint (rm_restartCount (snd (rmStep ev rm))) = sint (rm_restartCount rm) + (if fst (rmStep ev rm) = Ret (Decision True) then 1 else 0) \<and>
    (fst (rmStep ev rm) = Ret (Decision True) \<longrightarrow> sint (rm_restartCount rm) < M)"
proof (cases ev)
  case (EvShouldRestart e s d)
  then show ?thesis
    using assms(1) sint_add_one [of "rm_restartCount rm" "rp_MaximumRetryCount (rm_policy rm)"]
    by (auto simp: rm_defs wantsRestart_def limited_def IsOnFailure_def IsAlways_def IsUnlessStopped_def)
qed (use assms in \<open>auto simp: rm_defs\<close>)

lemma run_limited:
  assumes "limited M (rm_policy rm)" and "\<And>p. EvSetPolicy p \<in> set evs \<Longrightarrow> limited M p"
    and "sint (rm_restartCount rm) \<le> M"
  shows "sint (rm_restartCount rm) + int (granted (fst (runOps rmStep evs rm))) \<le> M"
  using assms
proof (induction evs arbitrary: rm)
  case (Cons ev evs)
  note step = rmStep_limited [OF Cons.prems(1), of ev]
  show ?case
    using Cons.IH [of "snd (rmStep ev rm)"] step Cons.prems by (auto simp: Let_def split_beta)
qed simp

text \<open>
  C13. Under \<open>on-failure\<close> policies with a maximum of at most \<open>M\<close> the manager grants restarts up to
  the count \<open>M\<close> only, counted from the restart count it was created with, and no caller is told to
  restart more often than restarts were granted. This holds in every interleaving of exits,
  timers, cancellations and changes from one such policy to another.
\<close>

theorem on_failure_restarts_bounded:
  assumes "limited M policy" and "\<And>p. EvSetPolicy p \<in> set evs \<Longrightarrow> limited M p" and "sint n \<le> M"
  shows "restarted (fst (runOps rmStep evs (New policy n))) \<le> granted (fst (runOps rmStep evs (New policy n))) \<and>
    sint n + int (granted (fst (runOps rmStep evs (New policy n)))) \<le> M"
  using run_limited [of M "New policy n" evs] run_pending [of evs "New policy n"] assms by (simp add: New_def split: if_splits)

theorem on_failure_restarts_bounded_witness:
  "granted (fst (runOps rmStep [EvShouldRestart 1 False 0, EvTimer, EvShouldRestart 1 False 0, EvTimer, EvShouldRestart 1 False 0]
     (New \<lparr>rp_Name = ''on-failure'', rp_MaximumRetryCount = 2\<rparr> 0))) \<le> 2"
  using on_failure_restarts_bounded [of 2 "\<lparr>rp_Name = ''on-failure'', rp_MaximumRetryCount = 2\<rparr>"
      "[EvShouldRestart 1 False 0, EvTimer, EvShouldRestart 1 False 0, EvTimer, EvShouldRestart 1 False 0]" 0]
  by (simp add: limited_def IsOnFailure_def del: runOps.simps)

section \<open>Cancellation\<close>

text \<open>Whether the goroutine takes its timer branch before its cancellation branch.\<close>

fun timerFirst :: "rmEvent list \<Rightarrow> bool" where
  "timerFirst [] = False"
| "timerFirst (ev # evs) = (if ev = EvTimer then True else if ev = EvCancelSeen then False else timerFirst evs)"

lemma rmStep_canceled:
  assumes "rm_canceled rm"
  shows "rm_canceled (snd (rmStep ev rm))" and "fst (rmStep ev rm) \<noteq> Ret (Decision True)"
    and "fst (rmStep ev rm) = Ret (Received None) \<longleftrightarrow> ev = EvTimer \<and> rm_waiting rm"
    and "rm_waiting (snd (rmStep ev rm)) \<longleftrightarrow> rm_waiting rm \<and> ev \<noteq> EvTimer \<and> ev \<noteq> EvCancelSeen"
  using assms by (cases ev; auto simp: rm_defs)+

lemma run_canceled:
  "rm_canceled rm \<Longrightarrow> granted (fst (runOps rmStep evs rm)) = 0 \<and>
     restarted (fst (runOps rmStep evs rm)) = (if rm_waiting rm \<and> timerFirst evs then 1 else 0)"
proof (induction evs arbitrary: rm)
  case (Cons ev evs)
  note step = rmStep_canceled [OF Cons.prems, of ev]
  show ?case
    using Cons.IH [OF step(1)] step(2-4) by (auto simp: Let_def split_beta)
qed simp

text \<open>
  C14. Once \<open>Cancel\<close> returned, no later call grants a restart, whatever the policy and the state, and
  a call that finds a policy other than \<open>no\<close> reports \<open>ErrRestartCanceled\<close>. The one restart that can
  still happen is the one that was waiting when \<open>Cancel\<close> was called: its caller is told to go on
  exactly if the goroutine takes its timer branch before it takes the cancellation branch.
\<close>

theorem no_restart_after_cancel:
  "granted (fst (runOps rmStep evs (Cancel rm))) = 0 \<and>
   restarted (fst (runOps rmStep evs (Cancel rm))) = (if rm_waiting rm \<and> timerFirst evs then 1 else 0) \<and>
   (\<not> IsNone (rm_policy rm) \<longrightarrow> fst (ShouldRestart e s d (Cancel rm)) = Fail ErrRestartCanceled)"
  using run_canceled [of "Cancel rm" evs] by (simp add: Cancel_def ShouldRestart_def)

theorem no_restart_after_cancel_witness:
  "fst (ShouldRestart 1 False 0 (Cancel (New \<lparr>rp_Name = ''always'', rp_MaximumRetryCount = 0\<rparr> 0))) = Fail ErrRestartCanceled"
  using no_restart_after_cancel [of "[]" "New \<lparr>rp_Name = ''always'', rp_MaximumRetryCount = 0\<rparr> 0" 1 False 0]
  by (simp add: New_def IsNone_def)

section \<open>The back-off\<close>

text \<open>
  One exit of the container, with its exit code, the manual stop and the time it ran, and the end
  of the wait if a restart was granted.
\<close>

fun crash :: "32 word \<times> bool \<times> int64 \<Rightarrow> restartManager \<Rightarrow> restartManager" where
  "crash (e, s, d) rm = snd (timerFires (snd (ShouldRestart e s d rm)))"

definition idle :: "restartManager \<Rightarrow> bool" where
  "idle rm \<longleftrightarrow> \<not> IsNone (rm_policy rm) \<and> \<not> rm_canceled rm \<and> \<not> rm_active rm"

lemma crash_idle: "idle rm \<Longrightarrow> idle (crash (e, s, d) rm) \<and> rm_timeout (crash (e, s, d) rm) = nextTimeout d (rm_timeout rm)"
  by (auto simp: idle_def rm_defs)

lemma crashes_timeout:
  "idle rm \<Longrightarrow> rm_timeout (fold crash cs rm) = fold (\<lambda>(e, s, d). nextTimeout d) cs (rm_timeout rm)"
proof (induction cs arbitrary: rm)
  case (Cons c cs)
  then show ?case using crash_idle [of rm "fst c" "fst (snd c)" "snd (snd c)"] by (simp add: split_beta)
qed simp

definition quick :: "32 word \<times> bool \<times> int64 \<Rightarrow> bool" where
  "quick c \<longleftrightarrow> (case c of (e, s, d) \<Rightarrow> sint d < 10 * 1000000000)"

lemma uint_word_small: "0 \<le> k \<Longrightarrow> k < 2 ^ 64 \<Longrightarrow> uint (word_of_int k :: int64) = k"
  by (simp add: uint_word_of_int)

lemma sint_word_small: "0 \<le> k \<Longrightarrow> k < 2 ^ 63 \<Longrightarrow> sint (word_of_int k :: int64) = k"
  by (simp add: sint_sbintrunc' signed_take_bit_int_eq_self)

lemma nextTimeout_doubles:
  assumes "sint d < 10 * 1000000000" and "n < 37"
  shows "nextTimeout d (word_of_int (100000000 * 2 ^ n)) = word_of_int (100000000 * 2 ^ Suc n)"
proof -
  let ?t = "word_of_int (100000000 * 2 ^ n) :: int64"
  have "(2::int) ^ n \<le> 2 ^ 36" using assms(2) by (intro power_increasing) simp_all
  then have "(100000000 * 2 ^ n :: int) < 2 ^ 64" by simp
  then have "uint ?t = 100000000 * 2 ^ n" by (intro uint_word_small) simp_all
  then have "?t \<noteq> 0" by (metis mult_eq_0_iff power_not_zero uint_0_iff zero_neq_numeral)
  then have "nextTimeout d ?t = ?t * 2" using assms(1) by (simp add: nextTimeout_def backoffMultiplier_def)
  then show ?thesis by (simp add: wi_hom_mult [symmetric] mult.commute)
qed

lemma quick_doubles:
  assumes "list_all quick cs" and "length cs + n < 38"
  shows "fold (\<lambda>(e, s, d). nextTimeout d) cs (word_of_int (100000000 * 2 ^ n)) = word_of_int (100000000 * 2 ^ (length cs + n))"
  using assms
proof (induction cs arbitrary: n)
  case (Cons c cs)
  obtain e s d where c: "c = (e, s, d)" by (cases c)
  show ?case
    using Cons.IH [of "Suc n"] Cons.prems nextTimeout_doubles [of d n] by (simp add: c quick_def del: power_Suc)
qed simp

text \<open>
  C15. The wait before a restart starts at 100 ms, for the first exit and for every exit after a run
  of ten seconds or more, and doubles with each further exit after a shorter run: after \<open>n\<close> of them
  in a row it is \<open>100 * 2 ^ n\<close> ms, exactly and without overflow of the 64-bit duration up to
  \<open>n = 36\<close>; at \<open>n = 37\<close> the duration has wrapped to a negative number. This holds for every policy but
  \<open>no\<close>, every exit code and whatever happened before.
\<close>

theorem backoff_doubles_until_overflow:
  assumes "\<not> IsNone policy" and "before = [] \<or> sint d \<ge> 10 * 1000000000" and "list_all quick cs"
  shows "(length cs < 37 \<longrightarrow>
      sint (rm_timeout (fold crash (before @ (e, s, d) # cs) (New policy c))) = 100000000 * 2 ^ length cs) \<and>
    (length cs = 37 \<longrightarrow> sint (rm_timeout (fold crash (before @ (e, s, d) # cs) (New policy c))) < 0)"
proof -
  have "idle (New policy c)" "rm_timeout (New policy c) = 0" using assms(1) by (simp_all add: idle_def New_def)
  moreover have "nextTimeout d (fold (\<lambda>(e, s, d). nextTimeout d) before 0) = word_of_int (100000000 * 2 ^ 0)"
    using assms(2) by (auto simp: nextTimeout_def defaultTimeout_def)
  ultimately have t: "rm_timeout (fold crash (before @ (e, s, d) # cs) (New policy c)) =
      fold (\<lambda>(e, s, d). nextTimeout d) cs (word_of_int (100000000 * 2 ^ 0))"
    unfolding crashes_timeout [OF \<open>idle (New policy c)\<close>] by simp
  show ?thesis
  proof (intro conjI impI)
    assume n: "length cs < 37"
    then have "(2::int) ^ length cs \<le> 2 ^ 36" by (intro power_increasing) simp_all
    then have "sint (word_of_int (100000000 * 2 ^ length cs) :: int64) = 100000000 * 2 ^ length cs"
      by (intro sint_word_small) simp_all
    then show "sint (rm_timeout (fold crash (before @ (e, s, d) # cs) (New policy c))) = 100000000 * 2 ^ length cs"
      unfolding t using n quick_doubles [OF assms(3), of 0] by simp
  next
    assume n: "length cs = 37"
    then have "fold (\<lambda>(e, s, d). nextTimeout d) cs (word_of_int (100000000 * 2 ^ 0)) = (word_of_int (100000000 * 2 ^ 37) :: int64)"
      using quick_doubles [OF assms(3), of 0] by simp
    then show "sint (rm_timeout (fold crash (before @ (e, s, d) # cs) (New policy c))) < 0"
      unfolding t by simp
  qed
qed

theorem backoff_doubles_until_overflow_witness:
  "sint (rm_timeout (fold crash ([(1, False, 5), (1, False, 10000000000)] @ (2, True, 10000000000) # [(1, False, 9999999999), (3, False, 0)])
     (New \<lparr>rp_Name = ''on-failure'', rp_MaximumRetryCount = 0\<rparr> 0))) = 400000000"
  using backoff_doubles_until_overflow [of "\<lparr>rp_Name = ''on-failure'', rp_MaximumRetryCount = 0\<rparr>"
      "[(1, False, 5), (1, False, 10000000000)]" 10000000000 "[(1, False, 9999999999), (3, False, 0)]" 2 True 0]
  by (simp add: IsNone_def quick_def del: fold_simps fold_append append_Cons)

end
