(* ===== verification/ContainerState.thy ===== *)
theory ContainerState
  imports Prelude
begin

text \<open>
  The state of a container, \<^verbatim>\<open>container/state.go\<close> with the exit status of \<^verbatim>\<open>container/state_unix.go\<close>: the flags,
  the transitions, and the goroutines that wait for the container to stop. A channel is a number;
  the methods run under the state's mutex, a waiting goroutine takes it before and after it waits.
\<close>

section \<open>State\<close>

text \<open>A time is in nanoseconds; \<open>None\<close> is Go's zero time. Of the health check only its text is kept.\<close>

type_synonym time = "int option"

record cstate =
  st_Running :: bool
  st_Paused :: bool
  st_Restarting :: bool
  st_OOMKilled :: bool
  st_RemovalInProgress :: bool
  st_Dead :: bool
  st_Pid :: int
  st_exitCode :: int
  st_error :: string
  st_StartedAt :: time
  st_FinishedAt :: time
  st_waitChan :: nat
  st_Health :: "string option"

record ExitStatus =
  es_ExitCode :: int
  es_OOMKilled :: bool

datatype waiter = WIdle | WOn nat | WReturned int | WTimedOut

record swait =
  sw_state :: cstate
  sw_closed :: "nat \<Rightarrow> bool"
  sw_next :: nat
  sw_waiters :: "nat \<Rightarrow> waiter"

type_synonym 'a stM = "(swait, string, 'a) go"

definition onState :: "(cstate \<Rightarrow> cstate) \<Rightarrow> unit stM" where
  "onState f = modify (\<lambda>w. w\<lparr>sw_state := f (sw_state w)\<rparr>)"

text \<open>Closing a closed channel panics.\<close>

definition closeChan :: "nat \<Rightarrow> unit stM" where
  "closeChan c w = (if sw_closed w c then (Panic ''close of closed channel'', w)
     else (Ret (), w\<lparr>sw_closed := (sw_closed w)(c := True)\<rparr>))"

definition makeChan :: "nat stM" where
  "makeChan w = (Ret (sw_next w), w\<lparr>sw_next := Suc (sw_next w)\<rparr>)"

definition NewState :: swait where
  "NewState = \<lparr>sw_state = \<lparr>st_Running = False, st_Paused = False, st_Restarting = False, st_OOMKilled = False,
       st_RemovalInProgress = False, st_Dead = False, st_Pid = 0, st_exitCode = 0, st_error = [],
       st_StartedAt = None, st_FinishedAt = None, st_waitChan = 0, st_Health = None\<rparr>,
     sw_closed = (\<lambda>_. False), sw_next = 1, sw_waiters = (\<lambda>_. WIdle)\<rparr>"

section \<open>Texts\<close>

text \<open>\<open>human\<close> is \<open>units.HumanDuration\<close> of the time since, and \<open>itoa\<close> prints a number.\<close>

definition stateText :: "(time \<Rightarrow> string) \<Rightarrow> (int \<Rightarrow> string) \<Rightarrow> cstate \<Rightarrow> string" where
  "stateText human itoa s =
     (if st_Running s then
        if st_Paused s then ''Up '' @ human (st_StartedAt s) @ '' (Paused)''
        else if st_Restarting s then ''Restarting ('' @ itoa (st_exitCode s) @ '') '' @ human (st_FinishedAt s) @ '' ago''
        else (case st_Health s of
            Some h \<Rightarrow> ''Up '' @ human (st_StartedAt s) @ '' ('' @ h @ '')''
          | None \<Rightarrow> ''Up '' @ human (st_StartedAt s))
      else if st_RemovalInProgress s then ''Removal In Progress''
      else if st_Dead s then ''Dead''
      else if st_StartedAt s = None then ''Created''
      else if st_FinishedAt s = None then []
      else ''Exited ('' @ itoa (st_exitCode s) @ '') '' @ human (st_FinishedAt s) @ '' ago'')"

definition StateString :: "cstate \<Rightarrow> string" where
  "StateString s =
     (if st_Running s then
        if st_Paused s then ''paused'' else if st_Restarting s then ''restarting'' else ''running''
      else if st_Dead s then ''dead''
      else if st_StartedAt s = None then ''created''
      else ''exited'')"

definition IsValidStateString :: "string \<Rightarrow> bool" where
  "IsValidStateString s \<longleftrightarrow> \<not> (s \<noteq> ''paused'' \<and> s \<noteq> ''restarting'' \<and> s \<noteq> ''running'' \<and>
     s \<noteq> ''dead'' \<and> s \<noteq> ''created'' \<and> s \<noteq> ''exited'')"

section \<open>Transitions\<close>

definition setFromExitStatus :: "ExitStatus \<Rightarrow> cstate \<Rightarrow> cstate" where
  "setFromExitStatus e s = s\<lparr>st_exitCode := es_ExitCode e, st_OOMKilled := es_OOMKilled e\<rparr>"

definition SetExitCode :: "int \<Rightarrow> unit stM" where
  "SetExitCode ec = onState (\<lambda>s. s\<lparr>st_exitCode := ec\<rparr>)"

definition SetRunning :: "time \<Rightarrow> int \<Rightarrow> bool \<Rightarrow> unit stM" where
  "SetRunning now pid initial = onState (\<lambda>s.
     let s' = s\<lparr>st_error := [], st_Running := True, st_Paused := False, st_Restarting := False,
       st_exitCode := 0, st_Pid := pid\<rparr>
     in if initial then s'\<lparr>st_StartedAt := now\<rparr> else s')"

text \<open>\<open>close(s.waitChan)\<close> and a new channel, the end of \<open>SetStopped\<close> and of \<open>SetRestarting\<close>.\<close>

definition fireWaiters :: "unit stM" where
  "fireWaiters =
     seq (gets (\<lambda>w. st_waitChan (sw_state w))) (\<lambda>c.
     seq (closeChan c) (\<lambda>_.
     seq makeChan (\<lambda>c'. onState (\<lambda>s. s\<lparr>st_waitChan := c'\<rparr>))))"

definition SetStopped :: "time \<Rightarrow> ExitStatus \<Rightarrow> unit stM" where
  "SetStopped now e =
     seq (onState (\<lambda>s. setFromExitStatus e (s\<lparr>st_Running := False, st_Paused := False, st_Restarting := False,
        st_Pid := 0, st_FinishedAt := now\<rparr>))) (\<lambda>_. fireWaiters)"

definition SetRestarting :: "time \<Rightarrow> ExitStatus \<Rightarrow> unit stM" where
  "SetRestarting now e =
     seq (onState (\<lambda>s. setFromExitStatus e (s\<lparr>st_Running := True, st_Restarting := True,
        st_Pid := 0, st_FinishedAt := now\<rparr>))) (\<lambda>_. fireWaiters)"

definition SetError :: "string \<Rightarrow> unit stM" where
  "SetError err = onState (\<lambda>s. s\<lparr>st_error := err\<rparr>)"

definition SetRemovalInProgress :: "bool stM" where
  "SetRemovalInProgress =
     seq (gets (\<lambda>w. st_RemovalInProgress (sw_state w))) (\<lambda>already.
     if already then ret True
     else seq (onState (\<lambda>s. s\<lparr>st_RemovalInProgress := True\<rparr>)) (\<lambda>_. ret False))"

definition ResetRemovalInProgress :: "unit stM" where
  "ResetRemovalInProgress = onState (\<lambda>s. s\<lparr>st_RemovalInProgress := False\<rparr>)"

definition SetDead :: "unit stM" where
  "SetDead = onState (\<lambda>s. s\<lparr>st_Dead := True\<rparr>)"

text \<open>The assignments to \<open>Paused\<close> of \<open>StateChanged\<close> in \<^verbatim>\<open>daemon/monitor.go\<close>.\<close>

definition setPaused :: "bool \<Rightarrow> unit stM" where
  "setPaused b = onState (\<lambda>s. s\<lparr>st_Paused := b\<rparr>)"

section \<open>Waiting\<close>

text \<open>
  \<open>WaitStop\<close> of goroutine \<open>g\<close> up to the wait; the wake-up, which needs the channel closed, with the rest of the
  method; and the time-out.
\<close>

definition setWaiter :: "nat \<Rightarrow> waiter \<Rightarrow> unit stM" where
  "setWaiter g p = modify (\<lambda>w. w\<lparr>sw_waiters := (sw_waiters w)(g := p)\<rparr>)"

definition waitEnter :: "nat \<Rightarrow> unit stM" where
  "waitEnter g =
     seq (gets sw_state) (\<lambda>s.
     if \<not> st_Running s then setWaiter g (WReturned (st_exitCode s))
     else setWaiter g (WOn (st_waitChan s)))"

definition waitWake :: "nat \<Rightarrow> unit stM" where
  "waitWake g =
     seq (gets (\<lambda>w. w)) (\<lambda>w. case sw_waiters w g of
       WOn c \<Rightarrow> if sw_closed w c then setWaiter g (WReturned (st_exitCode (sw_state w))) else ret ()
     | _ \<Rightarrow> ret ())"

definition waitTimeout :: "nat \<Rightarrow> unit stM" where
  "waitTimeout g =
     seq (gets (\<lambda>w. sw_waiters w g)) (\<lambda>p. case p of WOn c \<Rightarrow> setWaiter g WTimedOut | _ \<Rightarrow> ret ())"

datatype stEvent =
    SRunning time int bool
  | SStopped time ExitStatus
  | SRestarting time ExitStatus
  | SExitCode int
  | SError string
  | SPaused bool
  | SRemove
  | SResetRemove
  | SDead
  | WEnter nat
  | WWake nat
  | WTimeout nat

fun stStep :: "stEvent \<Rightarrow> unit stM" where
  "stStep (SRunning now pid initial) = SetRunning now pid initial"
| "stStep (SStopped now e) = SetStopped now e"
| "stStep (SRestarting now e) = SetRestarting now e"
| "stStep (SExitCode ec) = SetExitCode ec"
| "stStep (SError err) = SetError err"
| "stStep (SPaused b) = setPaused b"
| "stStep SRemove = seq SetRemovalInProgress (\<lambda>_. ret ())"
| "stStep SResetRemove = ResetRemovalInProgress"
| "stStep SDead = SetDead"
| "stStep (WEnter g) = waitEnter g"
| "stStep (WWake g) = waitWake g"
| "stStep (WTimeout g) = waitTimeout g"

section \<open>Invariant\<close>

text \<open>The current channel is open, and a goroutine that waits on an earlier one waits on a closed one.\<close>

definition st_inv :: "swait \<Rightarrow> bool" where
  "st_inv w \<longleftrightarrow> \<not> sw_closed w (st_waitChan (sw_state w)) \<and> st_waitChan (sw_state w) < sw_next w \<and>
     (\<forall>c. sw_closed w c \<longrightarrow> c < sw_next w) \<and>
     (\<forall>g c. sw_waiters w g = WOn c \<longrightarrow> c = st_waitChan (sw_state w) \<or> sw_closed w c)"

lemmas st_defs = SetRunning_def SetStopped_def SetRestarting_def SetExitCode_def SetError_def setPaused_def
  SetRemovalInProgress_def ResetRemovalInProgress_def SetDead_def waitEnter_def waitWake_def waitTimeout_def
  fireWaiters_def closeChan_def makeChan_def onState_def setWaiter_def setFromExitStatus_def Let_def go_defs

lemma NewState_inv: "st_inv NewState"
  by (simp add: st_inv_def NewState_def)

text \<open>The end of a stop never closes a channel twice.\<close>

lemma fireWaiters_run:
  "\<not> sw_closed w (st_waitChan (sw_state w)) \<Longrightarrow> fireWaiters w = (Ret (), w\<lparr>
     sw_closed := (sw_closed w)(st_waitChan (sw_state w) := True), sw_next := Suc (sw_next w),
     sw_state := (sw_state w)\<lparr>st_waitChan := sw_next w\<rparr>\<rparr>)"
  by (simp add: fireWaiters_def closeChan_def makeChan_def onState_def go_defs)

lemma fireWaiters_inv: "st_inv w \<Longrightarrow> \<not> is_Panic (fst (fireWaiters w)) \<and> st_inv (snd (fireWaiters w))"
  by (auto simp: st_inv_def fireWaiters_run less_Suc_eq)

lemma st_inv_flags:
  "st_inv w \<Longrightarrow> st_waitChan (f (sw_state w)) = st_waitChan (sw_state w) \<Longrightarrow> st_inv (w\<lparr>sw_state := f (sw_state w)\<rparr>)"
  by (simp add: st_inv_def)

lemma stStep_ok:
  assumes "st_inv w"
  shows "\<not> is_Panic (fst (stStep ev w)) \<and> st_inv (snd (stStep ev w))"
proof (cases ev)
  case (SStopped now e)
  let ?w = "w\<lparr>sw_state := setFromExitStatus e ((sw_state w)\<lparr>st_Running := False, st_Paused := False, st_Restarting := False,
      st_Pid := 0, st_FinishedAt := now\<rparr>)\<rparr>"
  have "st_inv ?w" using assms by (simp add: st_inv_def setFromExitStatus_def)
  from fireWaiters_inv [OF this] show ?thesis using SStopped by (simp add: SetStopped_def onState_def seq_def modify_def)
next
  case (SRestarting now e)
  let ?w = "w\<lparr>sw_state := setFromExitStatus e ((sw_state w)\<lparr>st_Running := True, st_Restarting := True,
      st_Pid := 0, st_FinishedAt := now\<rparr>)\<rparr>"
  have "st_inv ?w" using assms by (simp add: st_inv_def setFromExitStatus_def)
  from fireWaiters_inv [OF this] show ?thesis using SRestarting by (simp add: SetRestarting_def onState_def seq_def modify_def)
qed (use assms in \<open>auto simp: st_defs st_inv_def split: waiter.split\<close>)

interpretation container_states: go_service stStep st_inv
  by unfold_locales (rule triple_keepI, rule stStep_ok)

section \<open>What a waiter gets\<close>

fun stops :: "stEvent \<Rightarrow> bool" where
  "stops (SStopped _ _) = True"
| "stops (SRestarting _ _) = True"
| "stops _ = False"

text \<open>The exit code that an event sets, if it sets one.\<close>

fun codeOf :: "stEvent \<Rightarrow> int list" where
  "codeOf (SRunning _ _ _) = [0]"
| "codeOf (SStopped _ e) = [es_ExitCode e]"
| "codeOf (SRestarting _ e) = [es_ExitCode e]"
| "codeOf (SExitCode ec) = [ec]"
| "codeOf _ = []"

fun actsFor :: "nat \<Rightarrow> stEvent \<Rightarrow> bool" where
  "actsFor g (WEnter h) = (g = h)"
| "actsFor g (WWake h) = (g = h)"
| "actsFor g (WTimeout h) = (g = h)"
| "actsFor g _ = False"

definition codes :: "stEvent list \<Rightarrow> int list" where
  "codes es = concat (map codeOf es)"

text \<open>One event, seen by a waiter that entered when \<open>c\<close> was the channel.\<close>

lemma stStep_waiter:
  assumes "st_inv w" and "\<not> actsFor g ev" and "sw_waiters w g = WOn c" and "c < sw_next w"
    and run: "stStep ev w = (q, t)"
  shows "sw_waiters t g = WOn c" and "c < sw_next t"
    and "st_exitCode (sw_state t) = last (st_exitCode (sw_state w) # codeOf ev)"
    and "sw_closed t c \<longleftrightarrow> sw_closed w c \<or> stops ev \<and> c = st_waitChan (sw_state w)"
proof -
  have "sw_waiters t g = WOn c \<and> c < sw_next t \<and> st_exitCode (sw_state t) = last (st_exitCode (sw_state w) # codeOf ev) \<and>
      (sw_closed t c \<longleftrightarrow> sw_closed w c \<or> stops ev \<and> c = st_waitChan (sw_state w))"
    using assms by (cases ev) (auto simp: st_defs st_inv_def split: waiter.splits if_splits)
  then show "sw_waiters t g = WOn c" "c < sw_next t" "st_exitCode (sw_state t) = last (st_exitCode (sw_state w) # codeOf ev)"
    "sw_closed t c \<longleftrightarrow> sw_closed w c \<or> stops ev \<and> c = st_waitChan (sw_state w)" by blast+
qed

lemma last_append_Cons: "last (last (x # xs) # ys) = last (x # xs @ ys)"
  by (cases ys) auto

lemma run_waiter:
  assumes "st_inv w" and "list_all (\<lambda>ev. \<not> actsFor g ev) es" and "sw_waiters w g = WOn c" and "c < sw_next w"
    and "runOps stStep es w = (qs, t)"
  shows "sw_waiters t g = WOn c \<and> st_exitCode (sw_state t) = last (st_exitCode (sw_state w) # codes es) \<and>
    (sw_closed t c \<longleftrightarrow> sw_closed w c \<or> list_ex stops es)"
  using assms
proof (induction es arbitrary: w qs)
  case (Cons ev es)
  obtain q u where u: "stStep ev w = (q, u)" by (metis surj_pair)
  obtain qs' where t: "runOps stStep es u = (qs', t)" using Cons.prems(5) u by (auto simp: Let_def split_beta prod_eq_iff)
  have ev: "\<not> actsFor g ev" "list_all (\<lambda>ev. \<not> actsFor g ev) es" using Cons.prems(2) by auto
  note s = stStep_waiter [OF Cons.prems(1) ev(1) Cons.prems(3,4) u]
  have inv: "st_inv u" using stStep_ok [OF Cons.prems(1), of ev] u by simp
  have "c = st_waitChan (sw_state w) \<or> sw_closed w c" using Cons.prems(1,3) by (auto simp: st_inv_def)
  then show ?case using Cons.IH [OF inv ev(2) s(1,2) t] s(3,4)
    by (auto simp: codes_def last_append_Cons)
qed (auto simp: codes_def)

text \<open>The name that is shown is always a valid one.\<close>

lemma StateString_valid: "IsValidStateString (StateString s)"
  by (simp add: StateString_def IsValidStateString_def)

text \<open>
  C16. A goroutine that waits for a running container to stop, in any interleaving: no method panics on the
  channel, it can go on exactly if the container was stopped or set to restarting since, and it returns the
  exit code that was set last. That is the code of the stop, unless the container was started again before the
  goroutine got the lock: then it is 0.
\<close>

theorem wait_stop_result:
  assumes "runOps stStep es0 NewState = (qs0, w)" and "st_Running (sw_state w)"
    and "list_all (\<lambda>ev. \<not> actsFor g ev) es" and "runOps stStep (WEnter g # es @ [WWake g]) w = (qs, t)"
  shows "list_all (\<lambda>q. \<not> is_Panic q) qs \<and>
    sw_waiters t g = (if list_ex stops es then WReturned (last (codes es)) else WOn (st_waitChan (sw_state w)))"
proof -
  have inv: "st_inv w" using container_states.run_inv [OF NewState_inv, of es0] assms(1) by simp
  obtain w1 where w1: "stStep (WEnter g) w = (Ret (), w1)" "w1 = w\<lparr>sw_waiters := (sw_waiters w)(g := WOn (st_waitChan (sw_state w)))\<rparr>"
    using assms(2) by (simp add: st_defs)
  have inv1: "st_inv w1" using stStep_ok [OF inv, of "WEnter g"] w1 by simp
  obtain qs1 u where u: "runOps stStep es w1 = (qs1, u)" by (metis surj_pair)
  let ?c = "st_waitChan (sw_state w)"
  have r: "sw_waiters u g = WOn ?c \<and> st_exitCode (sw_state u) = last (st_exitCode (sw_state w1) # codes es) \<and>
      (sw_closed u ?c \<longleftrightarrow> sw_closed w1 ?c \<or> list_ex stops es)"
    by (rule run_waiter [OF inv1 assms(3) _ _ u]) (use inv in \<open>simp_all add: w1(2) st_inv_def\<close>)
  have t: "t = snd (stStep (WWake g) u)" using assms(4) w1(1) u by (auto simp: runOps_append Let_def split_beta)
  have "codes es \<noteq> []" if "list_ex stops es"
    using that by (induction es) (auto simp: codes_def elim!: stops.elims)
  moreover have "\<not> sw_closed w1 ?c" using inv by (simp add: w1(2) st_inv_def)
  ultimately have "sw_waiters t g = (if list_ex stops es then WReturned (last (codes es)) else WOn ?c)"
    unfolding t using r by (simp add: st_defs)
  moreover have "list_all (\<lambda>q. \<not> is_Panic q) qs"
    using container_states.run_no_panic [OF inv, of "WEnter g # es @ [WWake g]"] assms(4) by (simp add: list_all_iff)
  ultimately show ?thesis by blast
qed

theorem wait_stop_result_witness:
  "\<exists>qs t. runOps stStep (WEnter 1 # [SStopped (Some 2) \<lparr>es_ExitCode = 7, es_OOMKilled = False\<rparr>, SRunning (Some 3) 42 True] @ [WWake 1])
      (snd (runOps stStep [SRunning (Some 1) 41 True] NewState)) = (qs, t) \<and> sw_waiters t 1 = WReturned 0"
proof -
  let ?es = "[SStopped (Some 2) \<lparr>es_ExitCode = 7, es_OOMKilled = False\<rparr>, SRunning (Some 3) 42 True]"
  obtain qs0 w where w: "runOps stStep [SRunning (Some 1) 41 True] NewState = (qs0, w)" by (metis surj_pair)
  have run: "st_Running (sw_state w)" using w by (auto simp: st_defs)
  obtain qs t where t: "runOps stStep (WEnter 1 # ?es @ [WWake 1]) w = (qs, t)" by (metis surj_pair)
  have "list_all (\<lambda>ev. \<not> actsFor 1 ev) ?es" by simp
  from wait_stop_result [OF w run this t] have "sw_waiters t 1 = WReturned 0" by (simp add: codes_def)
  then show ?thesis using t w by auto
qed

end
