(* ===== verification/Locker.thy ===== *)
theory Locker
  imports Prelude
begin

text \<open>
  The named locks of \<^verbatim>\<open>pkg/locker/locker.go\<close> under every interleaving of goroutines. The critical
  sections under the main mutex are single steps; between them a goroutine is waiting for the lock
  object, has acquired it but is still counted as a waiter, or holds it.
\<close>

section \<open>State\<close>

datatype pc = Idle | Waiting string nat | Acquired string nat | Holding string nat

text \<open>
  Lock objects are numbered; \<open>lk_owner\<close> is the state of the mutex inside an object, with the
  goroutine that locked it. \<open>lk_waiters\<close> is the counter of an object, an \<open>int32\<close> in the code: each waiting
  goroutine adds one, so the integer here agrees with it as long as there are fewer than \<open>2 ^ 31\<close> goroutines.
\<close>

record lockerState =
  lk_locks :: "string \<rightharpoonup> nat"
  lk_waiters :: "nat \<Rightarrow> int"
  lk_owner :: "nat \<Rightarrow> nat option"
  lk_pc :: "nat \<Rightarrow> pc"
  lk_next :: nat

definition newLocker :: lockerState where
  "newLocker = \<lparr>lk_locks = Map.empty, lk_waiters = (\<lambda>_. 0), lk_owner = (\<lambda>_. None), lk_pc = (\<lambda>_. Idle), lk_next = 0\<rparr>"

definition inc :: "nat \<Rightarrow> lockerState \<Rightarrow> lockerState" where
  "inc l s = s\<lparr>lk_waiters := (lk_waiters s)(l := lk_waiters s l + 1)\<rparr>"

definition dec :: "nat \<Rightarrow> lockerState \<Rightarrow> lockerState" where
  "dec l s = s\<lparr>lk_waiters := (lk_waiters s)(l := lk_waiters s l - 1)\<rparr>"

definition count :: "nat \<Rightarrow> lockerState \<Rightarrow> int" where
  "count l s = lk_waiters s l"

definition setPc :: "nat \<Rightarrow> pc \<Rightarrow> lockerState \<Rightarrow> lockerState" where
  "setPc t p s = s\<lparr>lk_pc := (lk_pc s)(t := p)\<rparr>"

text \<open>\<open>Lock\<close> up to the unlocking of the main mutex, the locking of the object, and the rest.\<close>

definition lockEnter :: "nat \<Rightarrow> string \<Rightarrow> lockerState \<Rightarrow> lockerState" where
  "lockEnter t name s =
     (let (nameLock, s) = (case lk_locks s name of
            Some l \<Rightarrow> (l, s)
          | None \<Rightarrow> (lk_next s, s\<lparr>lk_next := Suc (lk_next s), lk_locks := (lk_locks s)(name \<mapsto> lk_next s)\<rparr>)) in
      setPc t (Waiting name nameLock) (inc nameLock s))"

definition lockAcquire :: "nat \<Rightarrow> string \<Rightarrow> nat \<Rightarrow> lockerState \<Rightarrow> lockerState" where
  "lockAcquire t name l s = setPc t (Acquired name l) (s\<lparr>lk_owner := (lk_owner s)(l := Some t)\<rparr>)"

definition lockDone :: "nat \<Rightarrow> string \<Rightarrow> nat \<Rightarrow> lockerState \<Rightarrow> lockerState" where
  "lockDone t name l s = setPc t (Holding name l) (dec l s)"

text \<open>\<open>Unlock\<close>: \<open>None\<close> is \<open>ErrNoSuchLock\<close>.\<close>

definition Unlock :: "string \<Rightarrow> lockerState \<Rightarrow> lockerState option" where
  "Unlock name s = (case lk_locks s name of
      None \<Rightarrow> None
    | Some nameLock \<Rightarrow>
        let s = (if count nameLock s = 0 then s\<lparr>lk_locks := (lk_locks s)(name := None)\<rparr> else s) in
        Some (s\<lparr>lk_owner := (lk_owner s)(nameLock := None)\<rparr>))"

section \<open>Steps\<close>

text \<open>
  As with any mutex, the goroutine that unlocks a name is one that holds it; an \<open>Unlock\<close> of a name
  without a lock fails and changes nothing.
\<close>

inductive lk_step :: "lockerState \<Rightarrow> lockerState \<Rightarrow> bool" where
  enter: "lk_pc s t = Idle \<Longrightarrow> lk_step s (lockEnter t name s)"
| acquire: "lk_pc s t = Waiting name l \<Longrightarrow> lk_owner s l = None \<Longrightarrow> lk_step s (lockAcquire t name l s)"
| locked: "lk_pc s t = Acquired name l \<Longrightarrow> lk_step s (lockDone t name l s)"
| unlock: "lk_pc s t = Holding name l \<Longrightarrow> Unlock name s = Some s' \<Longrightarrow> lk_step s (setPc t Idle s')"
| unlock_fail: "lk_pc s t = Idle \<Longrightarrow> Unlock name s = None \<Longrightarrow> lk_step s s"

inductive lk_reachable :: "lockerState \<Rightarrow> bool" where
  init: "lk_reachable newLocker"
| step: "lk_reachable s \<Longrightarrow> lk_step s s' \<Longrightarrow> lk_reachable s'"

inductive_cases lk_stepE: "lk_step s s'"

section \<open>Invariant\<close>

fun target :: "pc \<Rightarrow> (string \<times> nat) option" where
  "target Idle = None"
| "target (Waiting n l) = Some (n, l)"
| "target (Acquired n l) = Some (n, l)"
| "target (Holding n l) = Some (n, l)"

fun waits :: "nat \<Rightarrow> pc \<Rightarrow> bool" where
  "waits l (Waiting n l') = (l' = l)"
| "waits l (Acquired n l') = (l' = l)"
| "waits l _ = False"

fun owns :: "nat \<Rightarrow> pc \<Rightarrow> bool" where
  "owns l (Acquired n l') = (l' = l)"
| "owns l (Holding n l') = (l' = l)"
| "owns l _ = False"

definition lk_inv :: "lockerState \<Rightarrow> bool" where
  "lk_inv s \<longleftrightarrow> finite {t. lk_pc s t \<noteq> Idle} \<and>
     (\<forall>t n l. target (lk_pc s t) = Some (n, l) \<longrightarrow> lk_locks s n = Some l) \<and>
     (\<forall>n l. lk_locks s n = Some l \<longrightarrow> l < lk_next s \<and> (\<exists>t. target (lk_pc s t) = Some (n, l))) \<and>
     (\<forall>n n' l. lk_locks s n = Some l \<longrightarrow> lk_locks s n' = Some l \<longrightarrow> n = n') \<and>
     (\<forall>l. lk_waiters s l = int (card {t. waits l (lk_pc s t)})) \<and>
     (\<forall>l t. lk_owner s l = Some t \<longleftrightarrow> owns l (lk_pc s t))"

lemma lk_invI:
  assumes "finite {t. lk_pc s t \<noteq> Idle}"
    and "\<And>t n l. target (lk_pc s t) = Some (n, l) \<Longrightarrow> lk_locks s n = Some l"
    and "\<And>n l. lk_locks s n = Some l \<Longrightarrow> l < lk_next s \<and> (\<exists>t. target (lk_pc s t) = Some (n, l))"
    and "\<And>n n' l. lk_locks s n = Some l \<Longrightarrow> lk_locks s n' = Some l \<Longrightarrow> n = n'"
    and "\<And>l. lk_waiters s l = int (card {t. waits l (lk_pc s t)})"
    and "\<And>l t. lk_owner s l = Some t \<longleftrightarrow> owns l (lk_pc s t)"
  shows "lk_inv s"
  using assms unfolding lk_inv_def by blast

lemma lk_invD:
  assumes "lk_inv s"
  shows "finite {t. lk_pc s t \<noteq> Idle}"
    and "target (lk_pc s t) = Some (n, l) \<Longrightarrow> lk_locks s n = Some l"
    and "lk_locks s n = Some l \<Longrightarrow> l < lk_next s"
    and "lk_locks s n = Some l \<Longrightarrow> \<exists>t. target (lk_pc s t) = Some (n, l)"
    and "lk_waiters s l = int (card {t. waits l (lk_pc s t)})"
    and "lk_owner s l = Some t \<longleftrightarrow> owns l (lk_pc s t)"
    and "lk_locks s n = Some l \<Longrightarrow> lk_locks s n' = Some l \<Longrightarrow> n = n'"
  using assms unfolding lk_inv_def by blast+

lemma waits_target: "waits l p \<Longrightarrow> \<exists>n. target p = Some (n, l)"
  by (cases p) auto

lemma owns_target: "owns l p \<Longrightarrow> \<exists>n. target p = Some (n, l)"
  by (cases p) auto

lemma finite_waits: "finite {t. lk_pc s t \<noteq> Idle} \<Longrightarrow> finite {t. waits l (lk_pc s t)}"
  by (rule finite_subset [of _ "{t. lk_pc s t \<noteq> Idle}"]) auto

text \<open>The number of waiters when one goroutine moves.\<close>

lemma card_waits_upd:
  assumes "finite {t. f t \<noteq> Idle}"
  shows "int (card {u. waits l ((f(t := p)) u)}) =
    int (card {u. waits l (f u)}) - (if waits l (f t) then 1 else 0) + (if waits l p then 1 else 0)"
proof -
  have fin: "finite {u. waits l (f u)}"
    by (rule finite_subset [OF _ assms]) auto
  have "{u. waits l ((f(t := p)) u)} = (if waits l p then insert t ({u. waits l (f u)} - {t}) else {u. waits l (f u)} - {t})"
    by auto
  moreover have "card {u. waits l (f u)} > 0" if "waits l (f t)"
    using that fin by (auto simp: card_gt_0_iff)
  ultimately show ?thesis
    using fin by (auto simp: card_Diff_singleton of_nat_diff card_insert_if)
qed

lemma finite_pc_upd: "finite {t. f t \<noteq> Idle} \<Longrightarrow> finite {u. (f(t := p)) u \<noteq> Idle}"
  by (rule finite_subset [of _ "insert t {t. f t \<noteq> Idle}"]) auto

lemma locks_used:
  "lk_inv s \<Longrightarrow> lk_locks s n = Some l \<Longrightarrow>
   l < lk_next s \<and> (target (lk_pc s t) = Some (n, l) \<or> (\<exists>u. u \<noteq> t \<and> target (lk_pc s u) = Some (n, l)))"
  using lk_invD(3,4) by metis

text \<open>The invariant after a step of goroutine \<open>t\<close> to \<open>p\<close>.\<close>

lemma inv_move:
  assumes inv: "lk_inv s" and pcs: "lk_pc s' = (lk_pc s)(t := p)"
    and targets: "\<And>n l. target p = Some (n, l) \<Longrightarrow> lk_locks s' n = Some l"
      "\<And>u n l. u \<noteq> t \<Longrightarrow> target (lk_pc s u) = Some (n, l) \<Longrightarrow> lk_locks s' n = Some l"
    and used: "\<And>n l. lk_locks s' n = Some l \<Longrightarrow>
      l < lk_next s' \<and> (target p = Some (n, l) \<or> (\<exists>u. u \<noteq> t \<and> target (lk_pc s u) = Some (n, l)))"
    and inj: "\<And>n n' l. lk_locks s' n = Some l \<Longrightarrow> lk_locks s' n' = Some l \<Longrightarrow> n = n'"
    and w: "\<And>l. lk_waiters s' l = lk_waiters s l - (if waits l (lk_pc s t) then 1 else 0) + (if waits l p then 1 else 0)"
    and own: "\<And>l u. lk_owner s' l = Some u \<longleftrightarrow> (if u = t then owns l p else owns l (lk_pc s u))"
  shows "lk_inv s'"
proof (rule lk_invI)
  show "finite {t. lk_pc s' t \<noteq> Idle}" using finite_pc_upd [OF lk_invD(1) [OF inv]] pcs by simp
next
  fix u n l assume "target (lk_pc s' u) = Some (n, l)"
  then show "lk_locks s' n = Some l" using targets pcs by (cases "u = t") auto
next
  fix n l assume "lk_locks s' n = Some l"
  then show "l < lk_next s' \<and> (\<exists>t. target (lk_pc s' t) = Some (n, l))" using used [of n l] pcs by auto
next
  fix l show "lk_waiters s' l = int (card {t. waits l (lk_pc s' t)})"
    using card_waits_upd [OF lk_invD(1) [OF inv], of l t p] lk_invD(5) [OF inv, of l] w pcs by simp
next
  fix l u show "lk_owner s' l = Some u \<longleftrightarrow> owns l (lk_pc s' u)" using own pcs by auto
qed (rule inj)

lemma inv_enter:
  assumes inv: "lk_inv s" and t: "lk_pc s t = Idle"
  shows "lk_inv (lockEnter t name s)"
proof (cases "lk_locks s name")
  case None
  have ne: "l \<noteq> lk_next s" if "lk_locks s n = Some l" for n l using lk_invD(3) [OF inv that] by simp
  show ?thesis
  proof (rule inv_move [OF inv, where t = t and p = "Waiting name (lk_next s)"])
    fix n l assume "lk_locks (lockEnter t name s) n = Some l"
    then show "l < lk_next (lockEnter t name s) \<and> (target (Waiting name (lk_next s)) = Some (n, l) \<or>
        (\<exists>u. u \<noteq> t \<and> target (lk_pc s u) = Some (n, l)))"
      using locks_used [OF inv, of n l t] None t by (auto simp: lockEnter_def setPc_def inc_def split: if_splits)
  next
    fix n n' l assume "lk_locks (lockEnter t name s) n = Some l" "lk_locks (lockEnter t name s) n' = Some l"
    then show "n = n'" using ne lk_invD(7) [OF inv, of n l n'] None
      by (auto simp: lockEnter_def setPc_def inc_def split: if_splits)
  next
    fix l u show "lk_owner (lockEnter t name s) l = Some u \<longleftrightarrow>
        (if u = t then owns l (Waiting name (lk_next s)) else owns l (lk_pc s u))"
      using lk_invD(6) [OF inv, of l u] None t by (simp add: lockEnter_def setPc_def inc_def)
  next
    fix u n l assume "target (lk_pc s u) = Some (n, l)"
    from lk_invD(2) [OF inv this] None show "lk_locks (lockEnter t name s) n = Some l"
      by (auto simp: lockEnter_def setPc_def inc_def)
  qed (use None t in \<open>auto simp: lockEnter_def setPc_def inc_def\<close>)
next
  case (Some l0)
  show ?thesis
  proof (rule inv_move [OF inv, where t = t and p = "Waiting name l0"])
    fix n l assume "lk_locks (lockEnter t name s) n = Some l"
    then show "l < lk_next (lockEnter t name s) \<and> (target (Waiting name l0) = Some (n, l) \<or>
        (\<exists>u. u \<noteq> t \<and> target (lk_pc s u) = Some (n, l)))"
      using locks_used [OF inv, of n l t] Some t by (auto simp: lockEnter_def setPc_def inc_def)
  next
    fix l u show "lk_owner (lockEnter t name s) l = Some u \<longleftrightarrow>
        (if u = t then owns l (Waiting name l0) else owns l (lk_pc s u))"
      using lk_invD(6) [OF inv, of l u] Some t by (simp add: lockEnter_def setPc_def inc_def)
  next
    fix u n l assume "target (lk_pc s u) = Some (n, l)"
    from lk_invD(2) [OF inv this] Some show "lk_locks (lockEnter t name s) n = Some l"
      by (simp add: lockEnter_def setPc_def inc_def)
  next
    fix n n' l assume "lk_locks (lockEnter t name s) n = Some l" "lk_locks (lockEnter t name s) n' = Some l"
    then show "n = n'" using lk_invD(7) [OF inv, of n l n'] Some by (simp add: lockEnter_def setPc_def inc_def)
  qed (use Some t in \<open>auto simp: lockEnter_def setPc_def inc_def\<close>)
qed

lemma inv_acquire:
  assumes inv: "lk_inv s" and t: "lk_pc s t = Waiting name l" and free: "lk_owner s l = None"
  shows "lk_inv (lockAcquire t name l s)"
proof (rule inv_move [OF inv, where t = t and p = "Acquired name l"])
  fix n l' assume "lk_locks (lockAcquire t name l s) n = Some l'"
  then show "l' < lk_next (lockAcquire t name l s) \<and> (target (Acquired name l) = Some (n, l') \<or>
      (\<exists>u. u \<noteq> t \<and> target (lk_pc s u) = Some (n, l')))"
    using locks_used [OF inv, of n l' t] t by (simp add: lockAcquire_def setPc_def)
next
  fix l' u
  have "\<not> owns l (lk_pc s u)" using lk_invD(6) [OF inv, of l u] free by simp
  then show "lk_owner (lockAcquire t name l s) l' = Some u \<longleftrightarrow>
      (if u = t then owns l' (Acquired name l) else owns l' (lk_pc s u))"
    using lk_invD(6) [OF inv, of l' u] t by (auto simp: lockAcquire_def setPc_def)
next
  fix n n' l' assume "lk_locks (lockAcquire t name l s) n = Some l'" "lk_locks (lockAcquire t name l s) n' = Some l'"
  then show "n = n'" using lk_invD(7) [OF inv, of n l' n'] by (simp add: lockAcquire_def setPc_def)
next
  fix u n l' assume "target (lk_pc s u) = Some (n, l')"
  from lk_invD(2) [OF inv this] show "lk_locks (lockAcquire t name l s) n = Some l'" by (simp add: lockAcquire_def setPc_def)
qed (use t lk_invD(2) [OF inv, of t] in \<open>auto simp: lockAcquire_def setPc_def\<close>)

lemma inv_locked:
  assumes inv: "lk_inv s" and t: "lk_pc s t = Acquired name l"
  shows "lk_inv (lockDone t name l s)"
proof (rule inv_move [OF inv, where t = t and p = "Holding name l"])
  fix n l' assume "lk_locks (lockDone t name l s) n = Some l'"
  then show "l' < lk_next (lockDone t name l s) \<and> (target (Holding name l) = Some (n, l') \<or>
      (\<exists>u. u \<noteq> t \<and> target (lk_pc s u) = Some (n, l')))"
    using locks_used [OF inv, of n l' t] t by (simp add: lockDone_def setPc_def dec_def)
next
  fix l' u show "lk_owner (lockDone t name l s) l' = Some u \<longleftrightarrow>
      (if u = t then owns l' (Holding name l) else owns l' (lk_pc s u))"
    using lk_invD(6) [OF inv, of l' u] t by (simp add: lockDone_def setPc_def dec_def)
next
  fix n n' l' assume "lk_locks (lockDone t name l s) n = Some l'" "lk_locks (lockDone t name l s) n' = Some l'"
  then show "n = n'" using lk_invD(7) [OF inv, of n l' n'] by (simp add: lockDone_def setPc_def dec_def)
next
  fix u n l' assume "target (lk_pc s u) = Some (n, l')"
  from lk_invD(2) [OF inv this] show "lk_locks (lockDone t name l s) n = Some l'" by (simp add: lockDone_def setPc_def dec_def)
qed (use t lk_invD(2) [OF inv, of t] in \<open>auto simp: lockDone_def setPc_def dec_def\<close>)

text \<open>The holder of a name finds its own lock object, and no other goroutine owns it.\<close>

lemma holder_alone:
  assumes inv: "lk_inv s" and t: "lk_pc s t = Holding name l"
  shows "lk_locks s name = Some l" and "owns l (lk_pc s u) \<Longrightarrow> u = t"
  using lk_invD(2) [OF inv, of t] lk_invD(6) [OF inv, of l t] lk_invD(6) [OF inv, of l u] t by auto

lemma inv_unlock:
  assumes inv: "lk_inv s" and t: "lk_pc s t = Holding name l" and un: "Unlock name s = Some s'"
  shows "lk_inv (setPc t Idle s')"
proof -
  note h = holder_alone [OF inv t]
  let ?locks = "if lk_waiters s l = 0 then (lk_locks s)(name := None) else lk_locks s"
  have s': "lk_locks s' = ?locks" "lk_waiters s' = lk_waiters s" "lk_owner s' = (lk_owner s)(l := None)"
    "lk_pc s' = lk_pc s" "lk_next s' = lk_next s"
    using un h(1) by (auto simp: Unlock_def count_def Let_def)
  have quiet: "\<not> waits l (lk_pc s u)" if "lk_waiters s l = 0" for u
    using that lk_invD(5) [OF inv, of l] finite_waits [OF lk_invD(1) [OF inv], of l] by auto
  have busy: "\<exists>u. u \<noteq> t \<and> target (lk_pc s u) = Some (name, l)" if "lk_waiters s l \<noteq> 0"
  proof -
    have "{u. waits l (lk_pc s u)} \<noteq> {}" using that lk_invD(5) [OF inv, of l] by (intro notI) simp
    then obtain u where u: "waits l (lk_pc s u)" by blast
    then obtain n where n: "target (lk_pc s u) = Some (n, l)" using waits_target by blast
    then have "n = name" using lk_invD(7) [OF inv lk_invD(2) [OF inv n] h(1)] by simp
    moreover have "u \<noteq> t" using u t by auto
    ultimately show ?thesis using n by blast
  qed
  have gone: "n \<noteq> name" if "lk_waiters s l = 0" "u \<noteq> t" "target (lk_pc s u) = Some (n, l')" for u n l'
    using quiet [OF that(1), of u] h that(2,3) lk_invD(2) [OF inv that(3)] by (cases "lk_pc s u") auto
  show ?thesis
  proof (rule inv_move [OF inv, where t = t and p = Idle])
    fix u n l' assume u: "u \<noteq> t" "target (lk_pc s u) = Some (n, l')"
    then show "lk_locks (setPc t Idle s') n = Some l'"
      using lk_invD(2) [OF inv u(2)] gone [OF _ u] s'(1) by (simp add: setPc_def)
  next
    fix n l' assume "lk_locks (setPc t Idle s') n = Some l'"
    then have "lk_locks s n = Some l'" "lk_waiters s l = 0 \<Longrightarrow> n \<noteq> name" using s'(1) by (auto simp: setPc_def split: if_splits)
    then show "l' < lk_next (setPc t Idle s') \<and> (target Idle = Some (n, l') \<or> (\<exists>u. u \<noteq> t \<and> target (lk_pc s u) = Some (n, l')))"
      using locks_used [OF inv, of n l' t] busy t s'(5) by (auto simp: setPc_def)
  next
    fix n n' l' assume "lk_locks (setPc t Idle s') n = Some l'" "lk_locks (setPc t Idle s') n' = Some l'"
    then show "n = n'" using lk_invD(7) [OF inv, of n l' n'] s'(1) by (auto simp: setPc_def split: if_splits)
  next
    fix l' u show "lk_owner (setPc t Idle s') l' = Some u \<longleftrightarrow> (if u = t then owns l' Idle else owns l' (lk_pc s u))"
    proof (cases "l' = l")
      case True
      have "u \<noteq> t \<Longrightarrow> \<not> owns l (lk_pc s u)" using h(2) by blast
      then show ?thesis using True s'(3) by (simp add: setPc_def)
    next
      case False
      then have "\<not> owns l' (lk_pc s t)" using t by simp
      then show ?thesis using False lk_invD(6) [OF inv, of l' u] s'(3) by (simp add: setPc_def)
    qed
  qed (use t s' in \<open>auto simp: setPc_def\<close>)
qed

lemma lk_step_inv: "lk_step s s' \<Longrightarrow> lk_inv s \<Longrightarrow> lk_inv s'"
  by (cases rule: lk_step.cases) (auto intro: inv_enter inv_acquire inv_locked inv_unlock)

lemma reachable_inv: "lk_reachable s \<Longrightarrow> lk_inv s"
proof (induction rule: lk_reachable.induct)
  case init
  show ?case by (rule lk_invI) (simp_all add: newLocker_def)
qed (rule lk_step_inv)

section \<open>The properties\<close>

text \<open>
  C17. Mutual exclusion: in every reachable state of any number of goroutines at most one holds a
  given name, although lock objects are created and deleted on demand.
\<close>

theorem locker_mutual_exclusion:
  assumes "lk_reachable s" and "lk_pc s t = Holding name l" and "lk_pc s u = Holding name l'"
  shows "t = u \<and> l = l'"
proof -
  note inv = reachable_inv [OF assms(1)]
  have "l = l'" using holder_alone(1) [OF inv assms(2)] holder_alone(1) [OF inv assms(3)] by simp
  then show ?thesis using holder_alone(2) [OF inv assms(2), of u] assms(3) by simp
qed

text \<open>
  C18. A goroutine that holds a name can always unlock it without \<open>ErrNoSuchLock\<close>, and when no
  goroutine is inside \<open>Lock\<close> or holds a lock, the table of lock objects is empty: objects that
  nobody waits for are cleaned up.
\<close>

theorem locker_unlock_succeeds_and_cleans_up:
  assumes "lk_reachable s"
  shows "(lk_pc s t = Holding name l \<longrightarrow> Unlock name s \<noteq> None) \<and> ((\<forall>u. lk_pc s u = Idle) \<longrightarrow> lk_locks s = Map.empty)"
proof (intro conjI impI)
  note inv = reachable_inv [OF assms]
  show "Unlock name s \<noteq> None" if "lk_pc s t = Holding name l"
    using holder_alone(1) [OF inv that] by (simp add: Unlock_def Let_def)
  show "lk_locks s = Map.empty" if idle: "\<forall>u. lk_pc s u = Idle"
  proof (rule ext, rule ccontr)
    fix n assume "lk_locks s n \<noteq> None"
    then obtain l where "lk_locks s n = Some l" by blast
    from lk_invD(4) [OF inv this] idle show False by auto
  qed
qed

definition demo_locker :: lockerState where
  "demo_locker = lockDone 1 ''a'' 0 (lockAcquire 1 ''a'' 0 (lockEnter 2 ''a'' (lockEnter 1 ''a'' newLocker)))"

lemmas locker_defs = lockEnter_def lockAcquire_def lockDone_def setPc_def inc_def dec_def newLocker_def

lemma demo_locker_reachable: "lk_reachable demo_locker" "lk_pc demo_locker 1 = Holding ''a'' 0"
proof -
  have 1: "lk_reachable (lockEnter 1 ''a'' newLocker)"
    by (rule lk_reachable.step [OF init enter]) (simp add: newLocker_def)
  have 2: "lk_reachable (lockEnter 2 ''a'' (lockEnter 1 ''a'' newLocker))"
    by (rule lk_reachable.step [OF 1 enter]) (simp add: locker_defs)
  have 3: "lk_reachable (lockAcquire 1 ''a'' 0 (lockEnter 2 ''a'' (lockEnter 1 ''a'' newLocker)))"
    by (rule lk_reachable.step [OF 2 acquire]) (simp_all add: locker_defs)
  show "lk_reachable demo_locker" unfolding demo_locker_def
    by (rule lk_reachable.step [OF 3 locked]) (simp add: locker_defs)
  show "lk_pc demo_locker 1 = Holding ''a'' 0" by (simp add: demo_locker_def locker_defs)
qed

theorem locker_mutual_exclusion_witness:
  "\<exists>t. lk_pc demo_locker t = Holding ''a'' 0 \<and> (\<forall>u l'. lk_pc demo_locker u = Holding ''a'' l' \<longrightarrow> u = t)"
  using locker_mutual_exclusion [OF demo_locker_reachable(1)] demo_locker_reachable(2) by blast

theorem locker_unlock_succeeds_and_cleans_up_witness: "Unlock ''a'' demo_locker \<noteq> None"
  using locker_unlock_succeeds_and_cleans_up [OF demo_locker_reachable(1)] demo_locker_reachable(2) by blast

end
