(* ===== verification/Registrar.thy ===== *)
theory Registrar
  imports Prelude
begin

text \<open>
  The name registry of \<^verbatim>\<open>pkg/registrar/registrar.go\<close>, which the daemon uses for container names, and
  the mount reference counter of \<^verbatim>\<open>daemon/graphdriver/counter.go\<close>.
\<close>

section \<open>Names and keys\<close>

record registrar =
  rg_idx :: "string \<rightharpoonup> string list"
  rg_names :: "string \<rightharpoonup> string"

datatype reg_err = ErrNameReserved | ErrNameNotReserved | ErrNoSuchKey

definition NewRegistrar :: registrar where
  "NewRegistrar = \<lparr>rg_idx = Map.empty, rg_names = Map.empty\<rparr>"

text \<open>Reading a missing key of a Go map gives the empty slice.\<close>

definition idxGet :: "registrar \<Rightarrow> string \<Rightarrow> string list" where
  "idxGet r key = (case rg_idx r key of None \<Rightarrow> [] | Some ns \<Rightarrow> ns)"

definition Reserve :: "string \<Rightarrow> string \<Rightarrow> (registrar, reg_err, unit) go" where
  "Reserve name key r = (case rg_names r name of
      Some k \<Rightarrow> if k \<noteq> key then (Fail ErrNameReserved, r) else (Ret (), r)
    | None \<Rightarrow> (Ret (), r\<lparr>rg_idx := (rg_idx r)(key \<mapsto> idxGet r key @ [name]),
                          rg_names := (rg_names r)(name \<mapsto> key)\<rparr>))"

definition ReleaseName :: "string \<Rightarrow> registrar \<Rightarrow> registrar" where
  "ReleaseName name r = (case rg_names r name of
      None \<Rightarrow> r
    | Some key \<Rightarrow>
        let ns = (if name \<in> set (idxGet r key) then remove1 name (idxGet r key) else idxGet r key);
            idx = (if name \<in> set (idxGet r key) then (rg_idx r)(key \<mapsto> ns) else rg_idx r);
            r = r\<lparr>rg_idx := idx, rg_names := (rg_names r)(name := None)\<rparr> in
        if length ns = 0 then r\<lparr>rg_idx := (rg_idx r)(key := None)\<rparr> else r)"

definition DeleteKey :: "string \<Rightarrow> registrar \<Rightarrow> registrar" where
  "DeleteKey key r =
     r\<lparr>rg_names := fold (\<lambda>name m. m(name := None)) (idxGet r key) (rg_names r), rg_idx := (rg_idx r)(key := None)\<rparr>"

definition GetNames :: "string \<Rightarrow> registrar \<Rightarrow> reg_err + string list" where
  "GetNames key r = (case rg_idx r key of None \<Rightarrow> Inl ErrNoSuchKey | Some ns \<Rightarrow> Inr ns)"

definition GetKey :: "string \<Rightarrow> registrar \<Rightarrow> reg_err + string" where
  "GetKey name r = (case rg_names r name of None \<Rightarrow> Inl ErrNameNotReserved | Some key \<Rightarrow> Inr key)"

definition GetAll :: "registrar \<Rightarrow> string \<rightharpoonup> string list" where
  "GetAll r = rg_idx r"

text \<open>The two indexes agree: the list of a key has exactly the names reserved to it, once each.\<close>

definition rg_inv :: "registrar \<Rightarrow> bool" where
  "rg_inv r \<longleftrightarrow> (\<forall>key ns. rg_idx r key = Some ns \<longrightarrow> ns \<noteq> [] \<and> distinct ns) \<and>
     (\<forall>name key. rg_names r name = Some key \<longleftrightarrow> name \<in> set (idxGet r key))"

lemma rg_invD:
  assumes "rg_inv r"
  shows "rg_idx r key = Some ns \<Longrightarrow> ns \<noteq> [] \<and> distinct ns"
    and "rg_names r name = Some key \<longleftrightarrow> name \<in> set (idxGet r key)"
  using assms by (auto simp: rg_inv_def)

lemma distinct_idx: "rg_inv r \<Longrightarrow> distinct (idxGet r key)"
  by (cases "rg_idx r key") (auto simp: idxGet_def rg_inv_def)

lemma idxGet_None: "rg_inv r \<Longrightarrow> idxGet r key = [] \<longleftrightarrow> rg_idx r key = None"
  by (cases "rg_idx r key") (auto simp: idxGet_def rg_inv_def)

lemma rg_GetNames: "rg_inv r \<Longrightarrow> GetNames key r = (if idxGet r key = [] then Inl ErrNoSuchKey else Inr (idxGet r key))"
  by (cases "rg_idx r key") (auto simp: GetNames_def idxGet_def rg_inv_def)

lemma Reserve_inv:
  assumes inv: "rg_inv r"
  shows "rg_inv (snd (Reserve name key r))"
proof (cases "rg_names r name")
  case None
  then have "name \<notin> set (idxGet r k)" for k using rg_invD(2) [OF inv, of name k] by simp
  with None inv show ?thesis
    by (auto simp: Reserve_def rg_inv_def idxGet_def split: option.splits if_splits)
qed (use inv in \<open>simp add: Reserve_def\<close>)

lemma ReleaseName_eq:
  assumes inv: "rg_inv r" and k: "rg_names r name = Some key"
  shows "idxGet (ReleaseName name r) k = (if k = key then remove1 name (idxGet r key) else idxGet r k)"
    and "rg_names (ReleaseName name r) = (rg_names r)(name := None)"
    and "rg_idx (ReleaseName name r) k \<noteq> Some []"
  using k rg_invD(2) [OF inv, of name key] rg_invD(1) [OF inv, of k]
  by (auto simp: ReleaseName_def Let_def idxGet_def split: option.splits)

lemma ReleaseName_inv:
  assumes inv: "rg_inv r"
  shows "rg_inv (ReleaseName name r)"
proof (cases "rg_names r name")
  case (Some key)
  note eq = ReleaseName_eq [OF inv Some]
  have "ns \<noteq> [] \<and> distinct ns" if "rg_idx (ReleaseName name r) k = Some ns" for k ns
    using eq(1) [of k] eq(3) [of k] that distinct_idx [OF inv, of k] distinct_idx [OF inv, of key]
    by (auto simp: idxGet_def [of "ReleaseName name r"] split: if_splits)
  moreover have "rg_names (ReleaseName name r) n = Some k \<longleftrightarrow> n \<in> set (idxGet (ReleaseName name r) k)" for n k
    using eq(1,2) rg_invD(2) [OF inv, of n k] distinct_idx [OF inv, of key] Some rg_invD(2) [OF inv, of name k] by auto
  ultimately show ?thesis by (simp add: rg_inv_def)
qed (use inv in \<open>simp add: ReleaseName_def\<close>)

lemma fold_delete: "fold (\<lambda>name m. m(name := None)) ns f = (\<lambda>n. if n \<in> set ns then None else f n)"
  by (induction ns arbitrary: f) auto

lemma DeleteKey_eq:
  "rg_names (DeleteKey key r) n = (if n \<in> set (idxGet r key) then None else rg_names r n)"
  "idxGet (DeleteKey key r) k = (if k = key then [] else idxGet r k)"
  by (simp_all add: DeleteKey_def fold_delete idxGet_def)

lemma DeleteKey_inv:
  assumes inv: "rg_inv r"
  shows "rg_inv (DeleteKey key r)"
proof -
  have "rg_names (DeleteKey key r) n = Some k \<longleftrightarrow> n \<in> set (idxGet (DeleteKey key r) k)" for n k
    using rg_invD(2) [OF inv, of n k] rg_invD(2) [OF inv, of n key] by (auto simp: DeleteKey_eq)
  then show ?thesis using inv by (auto simp: rg_inv_def DeleteKey_def split: if_splits)
qed

datatype regOp = OpReserve string string | OpReleaseName string | OpDeleteKey string

fun regStep :: "regOp \<Rightarrow> (registrar, reg_err, unit) go" where
  "regStep (OpReserve name key) = Reserve name key"
| "regStep (OpReleaseName name) = modify (ReleaseName name)"
| "regStep (OpDeleteKey key) = modify (DeleteKey key)"

lemma regStep_inv: "triple rg_inv (regStep op) (\<lambda>_. rg_inv) (\<lambda>_. rg_inv)"
proof (rule triple_keepI)
  fix r assume inv: "rg_inv r"
  show "\<not> is_Panic (fst (regStep op r)) \<and> rg_inv (snd (regStep op r))"
  proof (cases op)
    case (OpReserve name key)
    then show ?thesis using Reserve_inv [OF inv, of name key] by (simp add: Reserve_def split: option.split)
  qed (simp_all add: modify_def ReleaseName_inv [OF inv] DeleteKey_inv [OF inv])
qed

interpretation names: go_service regStep rg_inv
  by unfold_locales (rule regStep_inv)

text \<open>The abstract registry is the map from names to keys; a failed reservation changes nothing.\<close>

fun absReg :: "regOp \<Rightarrow> (string \<rightharpoonup> string) \<Rightarrow> (string \<rightharpoonup> string)" where
  "absReg (OpReserve name key) m = (if m name = None then m(name \<mapsto> key) else m)"
| "absReg (OpReleaseName name) m = m(name := None)"
| "absReg (OpDeleteKey key) m = (\<lambda>n. if m n = Some key then None else m n)"

lemma regStep_abs: "rg_inv r \<Longrightarrow> rg_names (snd (regStep op r)) = absReg op (rg_names r)"
proof (cases op)
  case (OpDeleteKey key)
  then show "rg_inv r \<Longrightarrow> ?thesis" using rg_invD(2) [of r _ key] by (auto simp: modify_def DeleteKey_eq fun_eq_iff)
qed (auto simp: Reserve_def modify_def ReleaseName_def Let_def split: option.splits)

lemma run_abs: "rg_inv r \<Longrightarrow> rg_names (snd (runOps regStep ops r)) = fold absReg ops (rg_names r)"
proof (induction ops arbitrary: r)
  case (Cons op ops)
  then show ?case using names.step_ok [OF Cons.prems, of op] regStep_abs [OF Cons.prems, of op]
    by (cases "regStep op r") (simp add: split_beta Let_def)
qed simp

lemma NewRegistrar_inv: "rg_inv NewRegistrar"
  by (simp add: rg_inv_def NewRegistrar_def idxGet_def)

text \<open>
  C19. After any sequence of reservations, releases and deletions the registry is the map from names
  to keys that the operations describe, and the list of every key has exactly the names reserved to
  it, each once: a name belongs to at most one key, and a key without names is not listed. A further
  reservation fails, with \<open>ErrNameReserved\<close>, exactly if the name belongs to another key.
\<close>

theorem registrar_refines_name_map:
  "rg_names (snd (runOps regStep ops NewRegistrar)) = fold absReg ops Map.empty \<and>
   (\<forall>key. GetNames key (snd (runOps regStep ops NewRegistrar)) =
     (if \<exists>n. fold absReg ops Map.empty n = Some key
      then Inr (idxGet (snd (runOps regStep ops NewRegistrar)) key) else Inl ErrNoSuchKey) \<and>
     distinct (idxGet (snd (runOps regStep ops NewRegistrar)) key) \<and>
     set (idxGet (snd (runOps regStep ops NewRegistrar)) key) = {n. fold absReg ops Map.empty n = Some key} \<and>
     fst (Reserve name key (snd (runOps regStep ops NewRegistrar))) =
       (if fold absReg ops Map.empty name \<in> {None, Some key} then Ret () else Fail ErrNameReserved))"
proof -
  let ?r = "snd (runOps regStep ops NewRegistrar)"
  have inv: "rg_inv ?r" using NewRegistrar_inv by (rule names.run_inv)
  have names: "rg_names ?r = fold absReg ops Map.empty" using run_abs [OF NewRegistrar_inv] by (simp add: NewRegistrar_def)
  have set: "set (idxGet ?r key) = {n. rg_names ?r n = Some key}" for key
    using rg_invD(2) [OF inv, of _ key] by blast
  have "GetNames key ?r = (if \<exists>n. rg_names ?r n = Some key then Inr (idxGet ?r key) else Inl ErrNoSuchKey)" for key
    using rg_GetNames [OF inv, of key] set [of key] by (metis (mono_tags, lifting) empty_Collect_eq set_empty)
  then show ?thesis using names set distinct_idx [OF inv] by (auto simp: Reserve_def split: option.split)
qed

section \<open>The mount counter\<close>

record minfo =
  mi_check :: bool
  mi_count :: int

definition newInfo :: minfo where
  "newInfo = \<lparr>mi_check = False, mi_count = 0\<rparr>"

text \<open>\<open>mounted\<close> is what \<open>checker.IsMounted\<close> answers if it is asked.\<close>

definition checked :: "bool \<Rightarrow> minfo \<Rightarrow> minfo" where
  "checked mounted m =
     (if \<not> mi_check m then \<lparr>mi_check = True, mi_count = (if mounted then mi_count m + 1 else mi_count m)\<rparr> else m)"

text \<open>The sections under the lock. Entries are never removed, so the pointer a call keeps stays the entry of its path.\<close>

definition Increment :: "bool \<Rightarrow> string \<Rightarrow> (string \<rightharpoonup> minfo) \<Rightarrow> (string \<rightharpoonup> minfo)" where
  "Increment mounted path c =
     (let m = checked mounted (case c path of None \<Rightarrow> newInfo | Some m \<Rightarrow> m) in
      c(path \<mapsto> m\<lparr>mi_count := mi_count m + 1\<rparr>))"

definition Decrement :: "bool \<Rightarrow> string \<Rightarrow> (string \<rightharpoonup> minfo) \<Rightarrow> (string \<rightharpoonup> minfo)" where
  "Decrement mounted path c =
     (let m = checked mounted (case c path of None \<Rightarrow> newInfo | Some m \<Rightarrow> m) in
      c(path \<mapsto> m\<lparr>mi_count := mi_count m - 1\<rparr>))"

text \<open>The result of either call, which is read after the unlock, when other calls may have run.\<close>

definition returnCount :: "string \<Rightarrow> (string \<rightharpoonup> minfo) \<Rightarrow> int" where
  "returnCount path c = (case c path of None \<Rightarrow> 0 | Some m \<Rightarrow> mi_count m)"

datatype cntOp = CInc bool string | CDec bool string

fun cntStep :: "cntOp \<Rightarrow> (string \<rightharpoonup> minfo) \<Rightarrow> (string \<rightharpoonup> minfo)" where
  "cntStep (CInc b p) c = Increment b p c"
| "cntStep (CDec b p) c = Decrement b p c"

fun opPath :: "cntOp \<Rightarrow> string" where
  "opPath (CInc b p) = p" | "opPath (CDec b p) = p"

fun opMounted :: "cntOp \<Rightarrow> bool" where
  "opMounted (CInc b p) = b" | "opMounted (CDec b p) = b"

fun opDelta :: "cntOp \<Rightarrow> int" where
  "opDelta (CInc b p) = 1" | "opDelta (CDec b p) = - 1"

lemma cntStep_eq:
  "cntStep op c = c(opPath op \<mapsto> (let m = checked (opMounted op) (case c (opPath op) of None \<Rightarrow> newInfo | Some m \<Rightarrow> m) in
     m\<lparr>mi_count := mi_count m + opDelta op\<rparr>))"
  by (cases op) (auto simp: Increment_def Decrement_def Let_def)

lemma cnt_known:
  assumes "c p = Some \<lparr>mi_check = True, mi_count = k\<rparr>"
  shows "fold cntStep ops c p = Some \<lparr>mi_check = True, mi_count = k + sum_list (map opDelta (filter (\<lambda>op. opPath op = p) ops))\<rparr>"
  using assms by (induction ops arbitrary: c k) (simp_all add: cntStep_eq checked_def)

text \<open>
  C20. The count of a path is the number of increments minus the number of decrements of this path,
  plus one if the path was already mounted when it was first counted; the checker's later answers
  and the calls for other paths do not matter. A call returns this count as of the moment when it
  reads it, which includes the calls that came in between its update and its read.
\<close>

theorem refcounter_counts_calls:
  "(case filter (\<lambda>op. opPath op = p) ops of
      [] \<Rightarrow> fold cntStep ops Map.empty p = None
    | op # rest \<Rightarrow> map_option mi_count (fold cntStep ops Map.empty p) =
        Some ((if opMounted op then 1 else 0) + sum_list (map opDelta (op # rest))) \<and>
        returnCount p (fold cntStep ops Map.empty) = (if opMounted op then 1 else 0) + sum_list (map opDelta (op # rest)))"
proof -
  have ret: "map_option mi_count (c p) = Some n \<Longrightarrow> returnCount p c = n" for c n
    by (auto simp: returnCount_def)
  have "(case filter (\<lambda>op. opPath op = p) ops of
      [] \<Rightarrow> fold cntStep ops c p = None
    | op # rest \<Rightarrow> map_option mi_count (fold cntStep ops c p) =
        Some ((if opMounted op then 1 else 0) + sum_list (map opDelta (op # rest))))" if "c p = None" for c
    using that
  proof (induction ops arbitrary: c)
    case (Cons op ops)
    show ?case
    proof (cases "opPath op = p")
      case True
      then have "cntStep op c p = Some \<lparr>mi_check = True, mi_count = (if opMounted op then 1 else 0) + opDelta op\<rparr>"
        using Cons.prems by (simp add: cntStep_eq checked_def newInfo_def)
      from cnt_known [of "cntStep op c" p, OF this] True show ?thesis by simp
    next
      case False
      then have "cntStep op c p = None" using Cons.prems by (simp add: cntStep_eq)
      from Cons.IH [of "cntStep op c", OF this] False show ?thesis by (simp only: filter.simps fold_simps if_False)
    qed
  qed simp
  from this [of Map.empty] ret [of "fold cntStep ops Map.empty"] show ?thesis
    by (cases "filter (\<lambda>op. opPath op = p) ops") auto
qed

end
