(* ===== verification/GoIO.thy ===== *)
theory GoIO
  imports Prelude
begin

text \<open>
  The parts of Go's \<^verbatim>\<open>io\<close> and \<^verbatim>\<open>encoding/binary\<close> packages that the stream code uses: byte slices, big-endian
  32-bit numbers, and the readers and writers a stream function is handed.
\<close>

unbundle bit_operations_syntax

type_synonym bytes = "8 word list"

section \<open>Big-endian numbers\<close>

definition PutUint32 :: "32 word \<Rightarrow> bytes" where
  "PutUint32 v = [ucast (drop_bit 24 v), ucast (drop_bit 16 v), ucast (drop_bit 8 v), ucast v]"

fun Uint32 :: "bytes \<Rightarrow> 32 word" where
  "Uint32 (a # b # c # d # _) =
     ucast d OR push_bit 8 (ucast c) OR push_bit 16 (ucast b) OR push_bit 24 (ucast a)"
| "Uint32 _ = 0"

lemma length_PutUint32 [simp]: "length (PutUint32 v) = 4"
  by (simp add: PutUint32_def)

lemma Uint32_Put [simp]: "Uint32 (PutUint32 v @ rest) = v"
proof (rule bit_word_eqI)
  fix n assume "n < LENGTH(32)"
  then have "n < 8 \<or> (8 \<le> n \<and> n < 16) \<or> (16 \<le> n \<and> n < 24) \<or> (24 \<le> n \<and> n < 32)" by auto
  then show "bit (Uint32 (PutUint32 v @ rest)) n = bit v n"
    by (elim disjE conjE) (auto simp: PutUint32_def bit_or_iff bit_push_bit_iff bit_drop_bit_eq bit_ucast_iff)
qed

lemma Uint32_append: "4 \<le> length xs \<Longrightarrow> Uint32 (xs @ ys) = Uint32 xs"
  by (cases xs rule: Uint32.cases) auto

section \<open>Readers\<close>

text \<open>
  A reader is the sequence of the results it is going to return: each \<open>Read\<close> gives the next bytes, as
  many as fit into the caller's slice, with the error that comes with the last of them. An exhausted
  reader returns \<open>io.EOF\<close>.
\<close>

datatype io_err = EOF | ErrShortWrite | ErrUnrecognizedHeader "8 word" | ErrNoWriter | ErrOther string

type_synonym reader = "(bytes \<times> io_err option) list"

fun readSome :: "nat \<Rightarrow> reader \<Rightarrow> (bytes \<times> io_err option) \<times> reader" where
  "readSome cap [] = (([], Some EOF), [])"
| "readSome cap ((d, e) # r) =
     (if length d \<le> cap then ((d, e), r) else ((take cap d, None), (drop cap d, e) # r))"

definition pending :: "reader \<Rightarrow> bytes" where
  "pending r = concat (map fst r)"

lemma pending_simps [simp]:
  "pending [] = []" "pending ((d, e) # r) = d @ pending r"
  by (simp_all add: pending_def)

text \<open>A reader that delivers all of its bytes without an error before the end.\<close>

fun clean :: "reader \<Rightarrow> bool" where
  "clean [] = True"
| "clean [(d, e)] = (e = None \<or> e = Some EOF)"
| "clean ((d, e) # x # r) = (e = None \<and> clean (x # r))"

definition rsize :: "reader \<Rightarrow> nat" where
  "rsize r = length r + length (pending r)"

lemma readSome_pending: "readSome cap r = ((d, e), r') \<Longrightarrow> d @ pending r' = pending r"
  by (cases "(cap, r)" rule: readSome.cases) (auto split: if_splits)

lemma readSome_length: "readSome cap r = ((d, e), r') \<Longrightarrow> length d \<le> cap"
  by (cases "(cap, r)" rule: readSome.cases) (auto split: if_splits)

lemma readSome_size: "readSome cap r = ((d, None), r') \<Longrightarrow> 0 < cap \<Longrightarrow> rsize r' < rsize r"
  by (cases "(cap, r)" rule: readSome.cases) (auto simp: rsize_def split: if_splits)

lemma clean_tl: "clean (x # r) \<Longrightarrow> clean r"
  by (cases x; cases r) auto

lemma readSome_clean:
  assumes "clean r" and "readSome cap r = ((d, e), r')"
  shows "clean r'" and "e = None \<or> (e = Some EOF \<and> r' = [])"
proof (atomize (full), cases "(cap, r)" rule: readSome.cases)
  case (2 cap' x f rs)
  then show "clean r' \<and> (e = None \<or> (e = Some EOF \<and> r' = []))"
    using assms clean_tl [of "(x, f)" rs] by (cases rs) (auto split: if_splits)
qed (use assms in auto)

section \<open>Writers\<close>

text \<open>A writer takes the bytes of one \<open>Write\<close> and returns how many it wrote and an error.\<close>

type_synonym 'w sink = "bytes \<Rightarrow> 'w \<Rightarrow> (int \<times> io_err option) \<times> 'w"

text \<open>A writer that appends to one of two byte slices, as \<^verbatim>\<open>bytes.Buffer\<close> does.\<close>

definition intoFst :: "(bytes \<times> bytes) sink" where
  "intoFst p w = ((int (length p), None), (fst w @ p, snd w))"

definition intoSnd :: "(bytes \<times> bytes) sink" where
  "intoSnd p w = ((int (length p), None), (fst w, snd w @ p))"

end
