(* ===== verification/StdCopy.thy ===== *)
theory StdCopy
  imports GoIO
begin

text \<open>
  The multiplexing of a container's output streams, \<^verbatim>\<open>pkg/stdcopy/stdcopy.go\<close>: the frames that
  \<open>stdWriter.Write\<close> produces and the loop of \<open>StdCopy\<close> that takes them apart again. The loop reads through
  whatever pieces the connection delivers; the reference decoder below works on the whole byte string.
\<close>

section \<open>Writing\<close>

definition Stdin :: "8 word" where "Stdin = 0"
definition Stdout :: "8 word" where "Stdout = 1"
definition Stderr :: "8 word" where "Stderr = 2"

definition stdWriterPrefixLen :: nat where "stdWriterPrefixLen = 8"
definition stdWriterFdIndex :: nat where "stdWriterFdIndex = 0"
definition stdWriterSizeIndex :: nat where "stdWriterSizeIndex = 4"
definition startingBufLen :: nat where "startingBufLen = 32 * 1024 + stdWriterPrefixLen + 1"

lemmas std_consts = Stdin_def Stdout_def Stderr_def stdWriterPrefixLen_def stdWriterFdIndex_def stdWriterSizeIndex_def

record 'w stdWriter =
  sw_writer :: "'w sink option"
  sw_prefix :: "8 word"

definition NewStdWriter :: "'w sink option \<Rightarrow> 8 word \<Rightarrow> 'w stdWriter" where
  "NewStdWriter w t = \<lparr>sw_writer = w, sw_prefix = t\<rparr>"

text \<open>The header and the payload; \<open>uint32(len(p))\<close> wraps.\<close>

definition frame :: "8 word \<Rightarrow> bytes \<Rightarrow> bytes" where
  "frame t p = [t, 0, 0, 0] @ PutUint32 (word_of_nat (length p)) @ p"

definition stdWrite :: "'w stdWriter \<Rightarrow> bytes option \<Rightarrow> 'w \<Rightarrow> (int \<times> io_err option) \<times> 'w" where
  "stdWrite sw buf w = (case sw_writer sw of
      None \<Rightarrow> ((0, Some ErrNoWriter), w)
    | Some out \<Rightarrow> (case buf of
          None \<Rightarrow> ((0, None), w)
        | Some p \<Rightarrow>
            let ((n, err), w) = out (frame (sw_prefix sw) p) w;
                n = n - int stdWriterPrefixLen in
            ((if n < 0 then 0 else n, err), w)))"

section \<open>Reading\<close>

text \<open>
  Both inner loops of \<open>StdCopy\<close>: read until \<open>need\<close> bytes are there. \<open>buf\<close> is the part of the buffer that has
  been read, \<open>bufLen\<close> the length of the whole.
\<close>

datatype readResult = RdData bytes | RdEnd | RdErr io_err

partial_function (option) readUntil :: "nat \<Rightarrow> nat \<Rightarrow> bytes \<Rightarrow> reader \<Rightarrow> (readResult \<times> reader) option" where
  "readUntil need bufLen buf src =
     (if length buf < need then
        (case readSome (bufLen - length buf) src of
           ((d, None), src) \<Rightarrow> readUntil need bufLen (buf @ d) src
         | ((d, Some er), src) \<Rightarrow>
             (if er = EOF
              then Some (if length (buf @ d) < need then RdEnd else RdData (buf @ d), src)
              else Some (RdErr er, src)))
      else Some (RdData buf, src))"

definition selectOut :: "'w sink \<Rightarrow> 'w sink \<Rightarrow> 8 word \<Rightarrow> 'w sink option" where
  "selectOut dstout dsterr t =
     (if t = Stdin \<or> t = Stdout then Some dstout else if t = Stderr then Some dsterr else None)"

definition frameSizeOf :: "bytes \<Rightarrow> nat" where
  "frameSizeOf buf = unat (Uint32 (take 4 (drop stdWriterSizeIndex buf)))"

definition extendBuf :: "nat \<Rightarrow> nat \<Rightarrow> nat" where
  "extendBuf frameSize bufLen =
     (if frameSize + stdWriterPrefixLen > bufLen
      then bufLen + (frameSize + stdWriterPrefixLen - bufLen + 1) else bufLen)"

text \<open>One frame has been read: write its payload, or stop with an error.\<close>

definition writeFrame :: "'w sink \<Rightarrow> nat \<Rightarrow> bytes \<Rightarrow> 'w \<Rightarrow> io_err option \<times> 'w" where
  "writeFrame out frameSize buf w =
     (let ((nw, ew), w) = out (take frameSize (drop stdWriterPrefixLen buf)) w in
      (case ew of
         Some e \<Rightarrow> Some e
       | None \<Rightarrow> if nw \<noteq> int frameSize then Some ErrShortWrite else None, w))"

partial_function (option) copyLoop ::
  "'w sink \<Rightarrow> 'w sink \<Rightarrow> nat \<Rightarrow> bytes \<Rightarrow> reader \<Rightarrow> int64 \<Rightarrow> 'w \<Rightarrow> ((int64 \<times> io_err option) \<times> 'w) option" where
  "copyLoop dstout dsterr bufLen buf src written w =
     (case readUntil stdWriterPrefixLen bufLen buf src of
        None \<Rightarrow> None
      | Some (RdEnd, src) \<Rightarrow> Some ((written, None), w)
      | Some (RdErr er, src) \<Rightarrow> Some ((0, Some er), w)
      | Some (RdData buf, src) \<Rightarrow>
          (case selectOut dstout dsterr (buf ! stdWriterFdIndex) of
             None \<Rightarrow> Some ((0, Some (ErrUnrecognizedHeader (buf ! stdWriterFdIndex))), w)
           | Some out \<Rightarrow>
               (let frameSize = frameSizeOf buf; bufLen = extendBuf frameSize bufLen in
                case readUntil (frameSize + stdWriterPrefixLen) bufLen buf src of
                  None \<Rightarrow> None
                | Some (RdEnd, src) \<Rightarrow> Some ((written, None), w)
                | Some (RdErr er, src) \<Rightarrow> Some ((0, Some er), w)
                | Some (RdData buf, src) \<Rightarrow>
                    (case writeFrame out frameSize buf w of
                       (Some e, w) \<Rightarrow> Some ((0, Some e), w)
                     | (None, w) \<Rightarrow>
                         copyLoop dstout dsterr bufLen (drop (frameSize + stdWriterPrefixLen) buf) src
                           (written + word_of_nat frameSize) w))))"

definition StdCopy :: "'w sink \<Rightarrow> 'w sink \<Rightarrow> reader \<Rightarrow> 'w \<Rightarrow> ((int64 \<times> io_err option) \<times> 'w) option" where
  "StdCopy dstout dsterr src w = copyLoop dstout dsterr startingBufLen [] src 0 w"

section \<open>The reference decoder\<close>

function demux :: "'w sink \<Rightarrow> 'w sink \<Rightarrow> bytes \<Rightarrow> int64 \<Rightarrow> 'w \<Rightarrow> (int64 \<times> io_err option) \<times> 'w" where
  "demux dstout dsterr bs written w =
     (if length bs < stdWriterPrefixLen then ((written, None), w)
      else case selectOut dstout dsterr (bs ! stdWriterFdIndex) of
          None \<Rightarrow> ((0, Some (ErrUnrecognizedHeader (bs ! stdWriterFdIndex))), w)
        | Some out \<Rightarrow>
            (let frameSize = frameSizeOf bs in
             if length bs < frameSize + stdWriterPrefixLen then ((written, None), w)
             else case writeFrame out frameSize bs w of
                 (Some e, w) \<Rightarrow> ((0, Some e), w)
               | (None, w) \<Rightarrow> demux dstout dsterr (drop (frameSize + stdWriterPrefixLen) bs)
                     (written + word_of_nat frameSize) w))"
  by pat_completeness auto
termination by (relation "measure (\<lambda>(_, _, bs, _, _). length bs)") (auto simp: std_consts)

declare demux.simps [simp del]

section \<open>Reading in pieces\<close>

text \<open>With room in the buffer the loop ends, whatever the reader does, and loses no byte.\<close>

lemma readUntil_total:
  assumes "need \<le> bufLen" and "length buf \<le> bufLen"
  shows "\<exists>r src'. readUntil need bufLen buf src = Some (r, src') \<and>
    (\<forall>buf'. r = RdData buf' \<longrightarrow> need \<le> length buf' \<and> length buf' \<le> bufLen \<and> buf' @ pending src' = buf @ pending src)"
  using assms(2)
proof (induction src arbitrary: buf rule: measure_induct_rule [where f = rsize])
  case (less src)
  show ?case
  proof (cases "length buf < need")
    case True
    obtain d e src' where rd: "readSome (bufLen - length buf) src = ((d, e), src')" by (metis prod.exhaust)
    have len: "length (buf @ d) \<le> bufLen" using readSome_length [OF rd] less.prems by simp
    have bytes: "(buf @ d) @ pending src' = buf @ pending src" using readSome_pending [OF rd] by simp
    show ?thesis
    proof (cases e)
      case None
      have "rsize src' < rsize src" using readSome_size [OF rd [unfolded None]] True assms(1) by simp
      from less.IH [OF this len] show ?thesis using True rd None bytes by (subst readUntil.simps) simp
    next
      case (Some er)
      then show ?thesis using True rd len bytes by (subst readUntil.simps) simp
    qed
  next
    case False
    then show ?thesis using less.prems by (subst readUntil.simps) simp
  qed
qed

text \<open>A clean reader is read until there are enough bytes, or until its end if there are not.\<close>

lemma readUntil_clean:
  assumes "need \<le> bufLen" and "length buf \<le> bufLen" and "clean src"
  shows "\<exists>r src'. readUntil need bufLen buf src = Some (r, src') \<and> clean src' \<and>
    (if length buf + length (pending src) < need then r = RdEnd else \<exists>buf'. r = RdData buf')"
  using assms(2,3)
proof (induction src arbitrary: buf rule: measure_induct_rule [where f = rsize])
  case (less src)
  show ?case
  proof (cases "length buf < need")
    case True
    obtain d e src' where rd: "readSome (bufLen - length buf) src = ((d, e), src')" by (metis prod.exhaust)
    note cl = readSome_clean [OF less.prems(2) rd]
    have len: "length (buf @ d) \<le> bufLen" using readSome_length [OF rd] less.prems by simp
    have bytes: "length (buf @ d) + length (pending src') = length buf + length (pending src)"
      using arg_cong [OF readSome_pending [OF rd], of length] by simp
    show ?thesis
    proof (cases e)
      case None
      have "rsize src' < rsize src" using readSome_size [OF rd [unfolded None]] True assms(1) by simp
      from less.IH [OF this len cl(1)] show ?thesis unfolding bytes using True rd None by (subst readUntil.simps) simp
    next
      case (Some er)
      with cl have "er = EOF" "src' = []" by auto
      then show ?thesis using True rd bytes Some by (subst readUntil.simps) auto
    qed
  next
    case False
    then show ?thesis using less.prems by (subst readUntil.simps) simp
  qed
qed

section \<open>The whole loop\<close>

lemma prefix_facts:
  assumes "stdWriterPrefixLen \<le> length buf"
  shows "(buf @ r) ! stdWriterFdIndex = buf ! stdWriterFdIndex" and "frameSizeOf (buf @ r) = frameSizeOf buf"
  using assms by (cases buf; simp add: std_consts frameSizeOf_def)+

lemma writeFrame_append:
  "frameSize + stdWriterPrefixLen \<le> length buf \<Longrightarrow> writeFrame out frameSize (buf @ r) w = writeFrame out frameSize buf w"
  by (simp add: writeFrame_def std_consts)

lemma extendBuf_ge: "bufLen \<le> extendBuf n bufLen" "n + stdWriterPrefixLen \<le> extendBuf n bufLen"
  by (simp_all add: extendBuf_def)

lemma copyLoop_total:
  assumes "stdWriterPrefixLen \<le> bufLen" and "length buf \<le> bufLen"
  shows "\<exists>r. copyLoop dstout dsterr bufLen buf src written w = Some r"
  using assms
proof (induction "length buf + length (pending src)" arbitrary: bufLen buf src written w rule: less_induct)
  case less
  obtain r src1 where h: "readUntil stdWriterPrefixLen bufLen buf src = Some (r, src1)"
    "\<And>b. r = RdData b \<Longrightarrow> stdWriterPrefixLen \<le> length b \<and> length b \<le> bufLen \<and> b @ pending src1 = buf @ pending src"
    using readUntil_total [OF less.prems] by blast
  show ?case
  proof (cases "\<exists>b out. r = RdData b \<and> selectOut dstout dsterr (b ! stdWriterFdIndex) = Some out")
    case True
    then obtain b out where b: "r = RdData b" "selectOut dstout dsterr (b ! stdWriterFdIndex) = Some out" by blast
    let ?n = "frameSizeOf b" and ?l = "extendBuf (frameSizeOf b) bufLen"
    have "length b \<le> ?l" using h(2) [OF b(1)] extendBuf_ge(1) [of bufLen ?n] by linarith
    from readUntil_total [OF extendBuf_ge(2) this] obtain r2 src2 where
      f: "readUntil (?n + stdWriterPrefixLen) ?l b src1 = Some (r2, src2)"
      "\<And>c. r2 = RdData c \<Longrightarrow> ?n + stdWriterPrefixLen \<le> length c \<and> length c \<le> ?l \<and> c @ pending src2 = b @ pending src1"
      by blast
    show ?thesis
    proof (cases "\<exists>c w'. r2 = RdData c \<and> writeFrame out ?n c w = (None, w')")
      case True
      then obtain c w' where c: "r2 = RdData c" "writeFrame out ?n c w = (None, w')" by blast
      let ?c = "drop (?n + stdWriterPrefixLen) c"
      have "c @ pending src2 = buf @ pending src" using f(2) [OF c(1)] h(2) [OF b(1)] by simp
      from arg_cong [OF this, of length] have "length c + length (pending src2) = length buf + length (pending src)"
        by (simp only: length_append)
      then have "length ?c + length (pending src2) < length buf + length (pending src)"
        using f(2) [OF c(1), THEN conjunct1] unfolding std_consts length_drop by linarith
      moreover have "stdWriterPrefixLen \<le> ?l" "length ?c \<le> ?l" using f(2) [OF c(1)] extendBuf_ge(2) [of ?n bufLen] by auto
      ultimately have "\<exists>r. copyLoop dstout dsterr ?l ?c src2 (written + word_of_nat ?n) w' = Some r"
        by (rule less.hyps)
      then show ?thesis using h(1) b f(1) c by (subst copyLoop.simps) (simp add: Let_def)
    next
      case False
      then show ?thesis using h(1) b f(1)
        by (subst copyLoop.simps) (auto simp: Let_def split: readResult.split option.split prod.split)
    qed
  next
    case False
    then show ?thesis using h(1)
      by (subst copyLoop.simps) (auto simp: Let_def split: readResult.split option.split)
  qed
qed

lemma copyLoop_clean:
  assumes "stdWriterPrefixLen \<le> bufLen" and "length buf \<le> bufLen" and "clean src"
  shows "copyLoop dstout dsterr bufLen buf src written w = Some (demux dstout dsterr (buf @ pending src) written w)"
  using assms
proof (induction "length buf + length (pending src)" arbitrary: bufLen buf src written w rule: less_induct)
  case less
  let ?bs = "buf @ pending src"
  obtain r src1 where h: "readUntil stdWriterPrefixLen bufLen buf src = Some (r, src1)" "clean src1"
    "if length ?bs < stdWriterPrefixLen then r = RdEnd else \<exists>b. r = RdData b"
    using readUntil_clean [OF less.prems] by auto
  show ?case
  proof (cases "length ?bs < stdWriterPrefixLen")
    case True
    then show ?thesis using h by (subst copyLoop.simps, subst demux.simps) simp
  next
    case long: False
    then obtain b where b: "r = RdData b" using h(3) by auto
    then have b': "stdWriterPrefixLen \<le> length b" "length b \<le> bufLen" "?bs = b @ pending src1"
      using readUntil_total [OF less.prems(1,2), of src] h(1) by auto
    note pf = prefix_facts [OF b'(1), of "pending src1", folded b'(3)]
    let ?n = "frameSizeOf b" and ?l = "extendBuf (frameSizeOf b) bufLen"
    show ?thesis
    proof (cases "selectOut dstout dsterr (b ! stdWriterFdIndex)")
      case None
      then show ?thesis using h(1) b long pf by (subst copyLoop.simps, subst demux.simps) simp
    next
      case (Some out)
      have bl: "length b \<le> ?l" using b'(2) extendBuf_ge(1) [of bufLen ?n] by linarith
      from readUntil_clean [OF extendBuf_ge(2) this h(2)] obtain r2 src2 where
        f: "readUntil (?n + stdWriterPrefixLen) ?l b src1 = Some (r2, src2)" "clean src2"
        "if length ?bs < ?n + stdWriterPrefixLen then r2 = RdEnd else \<exists>c. r2 = RdData c"
        unfolding b'(3) by auto
      show ?thesis
      proof (cases "length ?bs < ?n + stdWriterPrefixLen")
        case True
        then show ?thesis using h(1) b Some f long pf by (subst copyLoop.simps, subst demux.simps) (simp add: Let_def)
      next
        case enough: False
        then obtain c where c: "r2 = RdData c" using f(3) by auto
        then have c': "?n + stdWriterPrefixLen \<le> length c" "length c \<le> ?l" "?bs = c @ pending src2"
          using readUntil_total [OF extendBuf_ge(2) bl, of src1] f(1) b'(3) by auto
        let ?c = "drop (?n + stdWriterPrefixLen) c"
        have step: "copyLoop dstout dsterr ?l ?c src2 v w' = Some (demux dstout dsterr (?c @ pending src2) v w')" for v w'
        proof (rule less.hyps)
          show "length ?c + length (pending src2) < length buf + length (pending src)"
            using arg_cong [OF c'(3), of length] c'(1) by (simp add: std_consts)
        qed (use c' f(2) extendBuf_ge(2) [of ?n bufLen] in auto)
        have "drop (?n + stdWriterPrefixLen) ?bs = ?c @ pending src2" using c' by simp
        moreover have "writeFrame out ?n ?bs w = writeFrame out ?n c w" unfolding c'(3) using c'(1) by (rule writeFrame_append)
        ultimately show ?thesis using h(1) b Some f(1) c step long enough pf
          by (subst copyLoop.simps, subst demux.simps) (simp add: Let_def split: prod.split option.split)
      qed
    qed
  qed
qed

section \<open>The properties\<close>

definition appendAll :: "bytes sink" where
  "appendAll p w = ((int (length p), None), w @ p)"

definition writeTo :: "8 word \<times> bytes \<Rightarrow> bytes \<Rightarrow> bytes" where
  "writeTo tp w = snd (stdWrite (NewStdWriter (Some appendAll) (fst tp)) (Some (snd tp)) w)"

fun goodWrite :: "8 word \<times> bytes \<Rightarrow> bool" where
  "goodWrite (t, p) \<longleftrightarrow> t \<in> {Stdin, Stdout, Stderr} \<and> length p < 2 ^ 32"

definition payload :: "bool \<Rightarrow> (8 word \<times> bytes) list \<Rightarrow> bytes" where
  "payload err ws = concat (map snd (filter (\<lambda>tp. (fst tp = Stderr) = err) ws))"

lemma payload_Cons: "payload err (tp # ws) = (if (fst tp = Stderr) = err then snd tp else []) @ payload err ws"
  by (simp add: payload_def)

lemma writeTo_eq: "writeTo tp w = w @ frame (fst tp) (snd tp)"
  by (simp add: writeTo_def stdWrite_def NewStdWriter_def appendAll_def)

lemma fold_writeTo: "fold writeTo ws w = w @ fold writeTo ws []"
proof (induction ws arbitrary: w)
  case (Cons tp ws)
  from Cons.IH [of "w @ frame (fst tp) (snd tp)"] Cons.IH [of "frame (fst tp) (snd tp)"]
  show ?case by (simp add: writeTo_eq)
qed simp

lemma frameSizeOf_frame [simp]: "frameSizeOf (frame t p @ rest) = length p mod 2 ^ 32"
  using Uint32_Put [of "word_of_nat (length p)" "[]"] by (simp add: frameSizeOf_def frame_def std_consts unat_of_nat)

lemma demux_frame:
  assumes "goodWrite (t, p)"
  shows "demux intoFst intoSnd (frame t p @ rest) v (o1, o2) = demux intoFst intoSnd rest (v + word_of_nat (length p))
     (if t = Stderr then (o1, o2 @ p) else (o1 @ p, o2))"
proof -
  have n: "frameSizeOf (frame t p @ rest) = length p" using assms by (simp add: take_bit_nat_def)
  have t: "(frame t p @ rest) ! stdWriterFdIndex = t" by (simp add: frame_def std_consts)
  have l: "length (frame t p @ rest) = stdWriterPrefixLen + length p + length rest" by (simp add: frame_def std_consts)
  have d: "drop stdWriterPrefixLen (frame t p @ rest) = p @ rest" by (simp add: frame_def std_consts)
  have "length (frame t p) = length p + stdWriterPrefixLen" by (simp add: frame_def std_consts)
  from append_eq_conv_conj [THEN iffD1, OF refl, of "frame t p" rest, unfolded this]
  have r: "drop (length p + stdWriterPrefixLen) (frame t p @ rest) = rest" by simp
  have s: "selectOut intoFst intoSnd t = Some (if t = Stderr then intoSnd else intoFst)"
    using assms by (auto simp: selectOut_def std_consts)
  have wf: "writeFrame (if t = Stderr then intoSnd else intoFst) (length p) (frame t p @ rest) (o1, o2) =
      (None, if t = Stderr then (o1, o2 @ p) else (o1 @ p, o2))"
    unfolding writeFrame_def d by (simp add: intoFst_def intoSnd_def)
  show ?thesis by (subst demux.simps) (simp only: n t l r s wf Let_def option.case prod.case, simp)
qed

lemma demux_frames:
  assumes "\<forall>tp\<in>set ws. goodWrite tp"
  shows "demux intoFst intoSnd (fold writeTo ws [] @ rest) v (o1, o2) =
    demux intoFst intoSnd rest (v + word_of_nat (sum_list (map (length \<circ> snd) ws))) (o1 @ payload False ws, o2 @ payload True ws)"
  using assms
proof (induction ws arbitrary: v o1 o2)
  case Nil
  then show ?case by (simp add: payload_def)
next
  case (Cons tp ws)
  obtain t p where tp: "tp = (t, p)" by (cases tp)
  then have "goodWrite (t, p)" using Cons.prems by simp
  moreover have "fold writeTo (tp # ws) [] @ rest = frame t p @ (fold writeTo ws [] @ rest)"
    using fold_writeTo [of ws "frame t p"] writeTo_eq [of tp "[]"] by (simp add: tp)
  ultimately show ?case using Cons demux_frame [of t p] by (simp add: tp payload_Cons add.assoc)
qed

lemma demux_cut:
  assumes "goodWrite (t, p)" and "k < length (frame t p)"
  shows "demux intoFst intoSnd (take k (frame t p)) v w = ((v, None), w)"
proof (cases "k < stdWriterPrefixLen")
  case True
  then have "length (take k (frame t p)) < stdWriterPrefixLen" by simp
  then show ?thesis by (subst demux.simps) (simp only: if_True)
next
  case False
  have split: "frame t p = take k (frame t p) @ drop k (frame t p)" by simp
  have k: "stdWriterPrefixLen \<le> length (take k (frame t p))" using False assms(2) by simp
  have "frameSizeOf (frame t p) = length p" using frameSizeOf_frame [of t p "[]"] assms(1) by (simp add: take_bit_nat_def)
  then have n: "frameSizeOf (take k (frame t p)) = length p" using prefix_facts(2) [OF k, of "drop k (frame t p)"] by simp
  have "(frame t p) ! stdWriterFdIndex = t" by (simp add: frame_def std_consts)
  then have "take k (frame t p) ! stdWriterFdIndex = t" using prefix_facts(1) [OF k, of "drop k (frame t p)"] by simp
  moreover have "selectOut intoFst intoSnd t \<noteq> None" using assms(1) by (auto simp: selectOut_def std_consts)
  moreover have "k < length p + stdWriterPrefixLen" using assms(2) by (simp add: frame_def std_consts)
  ultimately show ?thesis using n k by (subst demux.simps) (auto simp: Let_def)
qed

text \<open>
  C23. \<open>StdCopy\<close> ends whatever the reader delivers and whatever the writers answer: with every finite
  reader, failing or not, and every pair of writers it returns.
\<close>

theorem stdcopy_terminates: "\<exists>r. StdCopy dstout dsterr src w = Some r"
  unfolding StdCopy_def by (rule copyLoop_total) (simp_all add: startingBufLen_def)

text \<open>
  C21. How the connection cuts the stream into pieces does not matter: for a reader that delivers its
  bytes without an error, \<open>StdCopy\<close> with its growing buffer and partial reads gives exactly the result
  of decoding the whole byte string, for all writers, failing ones included.
\<close>

theorem stdcopy_equals_reference:
  assumes "clean src"
  shows "StdCopy dstout dsterr src w = Some (demux dstout dsterr (pending src) 0 w)"
  unfolding StdCopy_def using copyLoop_clean [OF _ _ assms, of startingBufLen "[]"] by (simp add: startingBufLen_def)

theorem stdcopy_equals_reference_witness:
  "StdCopy intoFst intoSnd [([1, 0, 0], None), ([], None), ([0, 0, 0, 0, 1, 7, 9], Some EOF)] ([], []) =
   Some (demux intoFst intoSnd [1, 0, 0, 0, 0, 0, 0, 1, 7, 9] 0 ([], []))"
  using stdcopy_equals_reference [of "[([1, 0, 0], None), ([], None), ([0, 0, 0, 0, 1, 7, 9], Some EOF)]" intoFst intoSnd "([], [])"]
  by simp

text \<open>
  C22. Everything written through standard writers comes out again on the right stream, in order,
  and the number of payload bytes is returned, even if the stream is cut off inside one more frame;
  the stream may arrive in any pieces.
\<close>

theorem stdcopy_roundtrip:
  assumes "\<forall>tp\<in>set ws. goodWrite tp" and "goodWrite lw" and "k < length (writeTo lw [])" and "clean src"
    and "pending src = fold writeTo ws [] @ take k (writeTo lw [])"
  shows "StdCopy intoFst intoSnd src ([], []) =
    Some ((word_of_nat (sum_list (map (length \<circ> snd) ws)), None), (payload False ws, payload True ws))"
proof -
  have "StdCopy intoFst intoSnd src ([], []) = Some (demux intoFst intoSnd (pending src) 0 ([], []))"
    unfolding StdCopy_def using copyLoop_clean [OF _ _ assms(4), of startingBufLen "[]"] by (simp add: startingBufLen_def)
  also have "demux intoFst intoSnd (pending src) 0 ([], []) =
      demux intoFst intoSnd (take k (frame (fst lw) (snd lw)))
        (word_of_nat (sum_list (map (length \<circ> snd) ws))) (payload False ws, payload True ws)"
    unfolding assms(5) demux_frames [OF assms(1)] by (simp add: writeTo_eq)
  also have "\<dots> = ((word_of_nat (sum_list (map (length \<circ> snd) ws)), None), (payload False ws, payload True ws))"
    by (rule demux_cut) (use assms(2,3) in \<open>simp_all add: writeTo_eq del: goodWrite.simps\<close>)
  finally show ?thesis .
qed

theorem stdcopy_roundtrip_witness:
  "StdCopy intoFst intoSnd [([1, 0, 0, 0, 0, 0, 0, 2, 5], None), ([6, 2, 0, 0, 0, 0, 0, 0, 1, 9, 1], None), ([0, 0, 0], None)] ([], []) =
   Some ((3, None), ([5, 6], [9]))"
proof -
  let ?src = "[([1, 0, 0, 0, 0, 0, 0, 2, 5], None), ([6, 2, 0, 0, 0, 0, 0, 0, 1, 9, 1], None), ([0, 0, 0], None)] :: reader"
  have "pending ?src = fold writeTo [(1, [5, 6]), (2, [9])] [] @ take 4 (writeTo (1, [3]) [])"
    by (simp add: writeTo_def stdWrite_def NewStdWriter_def appendAll_def frame_def PutUint32_def)
  from stdcopy_roundtrip [OF _ _ _ _ this] show ?thesis
    by (simp add: std_consts writeTo_def stdWrite_def NewStdWriter_def appendAll_def frame_def payload_def)
qed

text \<open>
  C24. A frame with an unknown stream type stops the copy with an error, after everything before it has
  been delivered; the returned count is then 0, not the number of bytes written so far.
\<close>

theorem stdcopy_rejects_unknown_stream:
  assumes "\<forall>tp\<in>set ws. goodWrite tp" and "t \<notin> {Stdin, Stdout, Stderr}" and "7 \<le> length rest" and "clean src"
    and "pending src = fold writeTo ws [] @ t # rest"
  shows "StdCopy intoFst intoSnd src ([], []) =
    Some ((0, Some (ErrUnrecognizedHeader t)), (payload False ws, payload True ws))"
proof -
  have "StdCopy intoFst intoSnd src ([], []) = Some (demux intoFst intoSnd (pending src) 0 ([], []))"
    unfolding StdCopy_def using copyLoop_clean [OF _ _ assms(4), of startingBufLen "[]"] by (simp add: startingBufLen_def)
  also have "demux intoFst intoSnd (pending src) 0 ([], []) =
      demux intoFst intoSnd (t # rest) (word_of_nat (sum_list (map (length \<circ> snd) ws))) (payload False ws, payload True ws)"
    unfolding assms(5) demux_frames [OF assms(1)] by simp
  also have "\<dots> = ((0, Some (ErrUnrecognizedHeader t)), (payload False ws, payload True ws))"
    using assms(2,3) by (subst demux.simps) (simp add: std_consts selectOut_def)
  finally show ?thesis .
qed

theorem stdcopy_rejects_unknown_stream_witness:
  "StdCopy intoFst intoSnd [([1, 0, 0, 0, 0, 0, 0, 1, 5], None), ([3, 0, 0, 0, 0, 0, 0, 1], None)] ([], []) =
   Some ((0, Some (ErrUnrecognizedHeader 3)), ([5], []))"
proof -
  let ?src = "[([1, 0, 0, 0, 0, 0, 0, 1, 5], None), ([3, 0, 0, 0, 0, 0, 0, 1], None)] :: reader"
  have "pending ?src = fold writeTo [(1, [5])] [] @ 3 # [0, 0, 0, 0, 0, 0, 1]"
    by (simp add: writeTo_def stdWrite_def NewStdWriter_def appendAll_def frame_def PutUint32_def)
  from stdcopy_rejects_unknown_stream [OF _ _ _ _ this] show ?thesis by (simp add: std_consts payload_def)
qed

end
