(* ===== verification/BytesPipe.thy ===== *)
theory BytesPipe
  imports GoIO
begin

text \<open>
  The in-memory pipe of \<^verbatim>\<open>pkg/ioutils/bytespipe.go\<close> with its chain of fixed buffers
  (\<^verbatim>\<open>pkg/ioutils/buffer.go\<close>). A call that waits on the condition variable stops with the state it waits in
  and goes on when it is woken; everything between two waits runs under the pipe's mutex.
\<close>

section \<open>Fixed buffers\<close>

text \<open>\<open>fb_data\<close> is \<open>buf[:pos]\<close>.\<close>

record fixedBuffer =
  fb_cap :: nat
  fb_data :: bytes
  fb_lastRead :: nat

datatype fb_err = ErrBufferFull | ErrShort

definition fbWrite :: "bytes \<Rightarrow> fixedBuffer \<Rightarrow> (nat \<times> fb_err option) \<times> fixedBuffer" where
  "fbWrite p b =
     (let n = min (fb_cap b - length (fb_data b)) (length p); b = b\<lparr>fb_data := fb_data b @ take n p\<rparr> in
      ((n, if n < length p then (if length (fb_data b) = fb_cap b then Some ErrBufferFull else Some ErrShort) else None), b))"

text \<open>\<open>k\<close> is the length of the slice that is read into.\<close>

definition fbRead :: "nat \<Rightarrow> fixedBuffer \<Rightarrow> bytes \<times> fixedBuffer" where
  "fbRead k b = (let d = take k (drop (fb_lastRead b) (fb_data b)) in
     (d, b\<lparr>fb_lastRead := fb_lastRead b + length d\<rparr>))"

definition fbLen :: "fixedBuffer \<Rightarrow> nat" where
  "fbLen b = length (fb_data b) - fb_lastRead b"

definition fbString :: "fixedBuffer \<Rightarrow> bytes" where
  "fbString b = drop (fb_lastRead b) (fb_data b)"

text \<open>A buffer from the pool of its size is empty: it is new, or was reset when it was returned.\<close>

definition getBuffer :: "nat \<Rightarrow> fixedBuffer" where
  "getBuffer n = \<lparr>fb_cap = n, fb_data = [], fb_lastRead = 0\<rparr>"

section \<open>The pipe\<close>

definition maxCap :: nat where "maxCap = 1000000"
definition minCap :: nat where "minCap = 64"
definition blockThreshold :: nat where "blockThreshold = 1000000"

record bytesPipe =
  bp_buf :: "fixedBuffer list"
  bp_bufLen :: nat
  bp_closeErr :: "io_err option"

definition NewBytesPipe :: bytesPipe where
  "NewBytesPipe = \<lparr>bp_buf = [getBuffer minCap], bp_bufLen = 0, bp_closeErr = None\<rparr>"

definition nextCap :: "nat \<Rightarrow> nat" where
  "nextCap c = (if c * 2 > maxCap then maxCap else c * 2)"

text \<open>The end of a call of \<open>Write\<close>, or the bytes left, the count so far and \<open>b.Cap()\<close> while it waits.\<close>

datatype bp_err = ErrClosed | ErrBuffer fb_err

datatype writeResult = WDone nat "bp_err option" | WBlock bytes nat nat

partial_function (option) writeLoop :: "bytes \<Rightarrow> nat \<Rightarrow> bytesPipe \<Rightarrow> (writeResult \<times> bytesPipe) option" where
  "writeLoop p written bp =
     (if bp_closeErr bp \<noteq> None then Some (WDone written (Some ErrClosed), bp)
      else
        let bufs = (if length (bp_buf bp) = 0 then [getBuffer 64] else bp_buf bp);
            ((n, err), b) = fbWrite p (last bufs);
            bp = bp\<lparr>bp_buf := butlast bufs @ [b], bp_bufLen := bp_bufLen bp + n\<rparr>;
            written = written + n in
        (case err of
           Some ErrShort \<Rightarrow> Some (WDone written (Some (ErrBuffer ErrShort)), bp)
         | _ \<Rightarrow>
             if length p = n then Some (WDone written None, bp)
             else if bp_bufLen bp \<ge> blockThreshold then Some (WBlock (drop n p) written (fb_cap b), bp)
             else writeLoop (drop n p) written (bp\<lparr>bp_buf := bp_buf bp @ [getBuffer (nextCap (fb_cap b))]\<rparr>)))"

definition bpWrite :: "bytes \<Rightarrow> bytesPipe \<Rightarrow> (writeResult \<times> bytesPipe) option" where
  "bpWrite p bp = writeLoop p 0 bp"

text \<open>\<open>Write\<close> after \<open>wait.Wait()\<close> has returned.\<close>

definition writeWake :: "bytes \<Rightarrow> nat \<Rightarrow> nat \<Rightarrow> bytesPipe \<Rightarrow> (writeResult \<times> bytesPipe) option" where
  "writeWake p written c bp =
     (if bp_closeErr bp \<noteq> None then writeLoop p written bp
      else if bp_bufLen bp \<ge> blockThreshold then Some (WBlock p written c, bp)
      else writeLoop p written (bp\<lparr>bp_buf := bp_buf bp @ [getBuffer (nextCap c)]\<rparr>))"

definition CloseWithError :: "io_err option \<Rightarrow> bytesPipe \<Rightarrow> bytesPipe" where
  "CloseWithError err bp = bp\<lparr>bp_closeErr := (case err of Some e \<Rightarrow> Some e | None \<Rightarrow> Some EOF)\<rparr>"

definition bpClose :: "bytesPipe \<Rightarrow> bytesPipe" where
  "bpClose bp = CloseWithError None bp"

text \<open>The loop of \<open>Read\<close>; reading \<open>bp.buf[0]\<close> of an empty slice panics (\<open>None\<close>).\<close>

function readLoop :: "nat \<Rightarrow> fixedBuffer list \<Rightarrow> nat \<Rightarrow> (bytes \<times> fixedBuffer list \<times> nat) option" where
  "readLoop k bufs bufLen =
     (if bufLen > 0 then
        (case bufs of
           [] \<Rightarrow> None
         | b # bs \<Rightarrow>
             let (d, b) = fbRead k b; bufLen = bufLen - length d; bufs = (if fbLen b = 0 then bs else b # bs) in
             if k = length d then Some (d, bufs, bufLen)
             else map_option (\<lambda>(ds, r). (d @ ds, r)) (readLoop (k - length d) bufs bufLen))
      else Some ([], bufs, bufLen))"
  by pat_completeness auto
termination by (relation "measure (\<lambda>(_, bufs, _). length bufs)") (auto simp: fbRead_def fbLen_def Let_def split: if_splits)

declare readLoop.simps [simp del]

datatype pipeResult = RDone bytes "io_err option" | RBlock

definition readBody :: "nat \<Rightarrow> bytesPipe \<Rightarrow> (pipeResult \<times> bytesPipe) option" where
  "readBody k bp = (case readLoop k (bp_buf bp) (bp_bufLen bp) of
      None \<Rightarrow> None
    | Some (d, bufs, n) \<Rightarrow> Some (RDone d None, bp\<lparr>bp_buf := bufs, bp_bufLen := n\<rparr>))"

definition bpRead :: "nat \<Rightarrow> bytesPipe \<Rightarrow> (pipeResult \<times> bytesPipe) option" where
  "bpRead k bp =
     (if bp_bufLen bp = 0 then
        (case bp_closeErr bp of Some e \<Rightarrow> Some (RDone [] (Some e), bp) | None \<Rightarrow> Some (RBlock, bp))
      else readBody k bp)"

definition readWake :: "nat \<Rightarrow> bytesPipe \<Rightarrow> (pipeResult \<times> bytesPipe) option" where
  "readWake k bp =
     (if bp_bufLen bp = 0 \<and> bp_closeErr bp \<noteq> None then Some (RDone [] (bp_closeErr bp), bp) else readBody k bp)"

section \<open>The invariant\<close>

definition wf_fb :: "fixedBuffer \<Rightarrow> bool" where
  "wf_fb b \<longleftrightarrow> fb_lastRead b \<le> length (fb_data b) \<and> length (fb_data b) \<le> fb_cap b \<and> 64 \<le> fb_cap b \<and> fb_cap b \<le> maxCap"

definition contents :: "bytesPipe \<Rightarrow> bytes" where
  "contents bp = concat (map fbString (bp_buf bp))"

definition room :: "fixedBuffer list \<Rightarrow> nat" where
  "room bufs = (if bufs = [] then 0 else fb_cap (last bufs) - length (fb_data (last bufs)))"

definition bp_inv :: "bytesPipe \<Rightarrow> bool" where
  "bp_inv bp \<longleftrightarrow> (\<forall>b\<in>set (bp_buf bp). wf_fb b) \<and> bp_bufLen bp = length (contents bp) \<and>
     bp_bufLen bp + room (bp_buf bp) < blockThreshold + maxCap"

lemma wf_getBuffer [simp]: "64 \<le> n \<Longrightarrow> n \<le> maxCap \<Longrightarrow> wf_fb (getBuffer n)"
  by (simp add: wf_fb_def getBuffer_def)

lemma getBuffer_simps [simp]: "fbString (getBuffer n) = []" "fb_cap (getBuffer n) = n" "fb_data (getBuffer n) = []"
  by (simp_all add: getBuffer_def fbString_def)

lemma nextCap_bounds: "64 \<le> c \<Longrightarrow> 64 \<le> nextCap c \<and> nextCap c \<le> maxCap"
  by (simp add: nextCap_def maxCap_def)

lemma NewBytesPipe_inv: "bp_inv NewBytesPipe" "contents NewBytesPipe = []"
  by (simp_all add: bp_inv_def NewBytesPipe_def contents_def room_def minCap_def blockThreshold_def maxCap_def)

lemma fbWrite_cases:
  assumes "wf_fb b"
  obtains n b' where "fbWrite p b = ((n, if n < length p then Some ErrBufferFull else None), b')"
    and "n = min (fb_cap b - length (fb_data b)) (length p)"
    and "wf_fb b'" and "fb_cap b' = fb_cap b" and "fbString b' = fbString b @ take n p" and "length (fb_data b') = length (fb_data b) + n"
  using assms by (auto simp: fbWrite_def Let_def wf_fb_def fbString_def)

text \<open>Appending an empty buffer keeps the invariant as long as the threshold is not reached.\<close>

lemma inv_append:
  assumes "bp_inv bp" and "bp_bufLen bp < blockThreshold" and "64 \<le> c"
  shows "bp_inv (bp\<lparr>bp_buf := bp_buf bp @ [getBuffer (nextCap c)]\<rparr>)"
    and "contents (bp\<lparr>bp_buf := bp_buf bp @ [getBuffer (nextCap c)]\<rparr>) = contents bp"
  using assms nextCap_bounds [OF assms(3)] by (auto simp: bp_inv_def contents_def room_def)

text \<open>What a run of the writing loop has done with \<open>p\<close>: \<open>k\<close> bytes of it are in the pipe.\<close>

definition wrote :: "bytes \<Rightarrow> nat \<Rightarrow> bytesPipe \<Rightarrow> nat \<Rightarrow> writeResult \<Rightarrow> bytesPipe \<Rightarrow> bool" where
  "wrote p written bp k r bp' \<longleftrightarrow> bp_inv bp' \<and> bp_closeErr bp' = bp_closeErr bp \<and>
     contents bp' = contents bp @ take k p \<and> k \<le> length p \<and>
     (case r of
        WDone w err \<Rightarrow> w = written + k \<and>
          (if bp_closeErr bp = None then err = None \<and> k = length p else err = Some ErrClosed \<and> k = 0)
      | WBlock rest w c \<Rightarrow> rest = drop k p \<and> w = written + k \<and> k < length p \<and> 64 \<le> c \<and> c \<le> maxCap \<and>
          blockThreshold \<le> bp_bufLen bp' \<and> bp_closeErr bp = None)"

lemma wrote_trans:
  assumes "contents bp1 = contents bp @ take n p" "n \<le> length p" "bp_closeErr bp1 = bp_closeErr bp" "bp_closeErr bp = None"
    and "wrote (drop n p) (written + n) bp1 k r bp'"
  shows "wrote p written bp (n + k) r bp'"
proof -
  have "drop (k + n) p = drop (n + k) p" by (simp add: add.commute)
  then show ?thesis using assms by (auto simp: wrote_def take_add split: writeResult.splits)
qed

text \<open>One round of the loop: \<open>n\<close> bytes go into the last buffer, and the loop ends, waits or goes on.\<close>

lemma writeLoop_round:
  assumes inv: "bp_inv bp" and open': "bp_closeErr bp = None"
  obtains n c bp1 where "writeLoop p written bp = (if n = length p then Some (WDone (written + n) None, bp1)
      else if bp_bufLen bp1 \<ge> blockThreshold then Some (WBlock (drop n p) (written + n) c, bp1)
      else writeLoop (drop n p) (written + n) (bp1\<lparr>bp_buf := bp_buf bp1 @ [getBuffer (nextCap c)]\<rparr>))"
    and "n \<le> length p" and "p \<noteq> [] \<Longrightarrow> room (bp_buf bp) > 0 \<Longrightarrow> n > 0" and "bp_inv bp1"
    and "contents bp1 = contents bp @ take n p" and "bp_closeErr bp1 = None" and "64 \<le> c" and "c \<le> maxCap"
proof -
  define bufs where "bufs = (if length (bp_buf bp) = 0 then [getBuffer 64] else bp_buf bp)"
  have bufs: "bufs \<noteq> []" "\<forall>b\<in>set bufs. wf_fb b" "concat (map fbString bufs) = contents bp"
    "bp_bufLen bp + room bufs < blockThreshold + maxCap" "room (bp_buf bp) \<le> room bufs"
    using inv by (auto simp: bufs_def bp_inv_def contents_def room_def blockThreshold_def maxCap_def)
  let ?b = "last bufs"
  obtain n b' where w: "fbWrite p ?b = ((n, if n < length p then Some ErrBufferFull else None), b')"
    "n = min (fb_cap ?b - length (fb_data ?b)) (length p)" "wf_fb b'" "fb_cap b' = fb_cap ?b"
    "fbString b' = fbString ?b @ take n p" "length (fb_data b') = length (fb_data ?b) + n"
    using bufs(1,2) by (meson fbWrite_cases last_in_set)
  define bp1 where "bp1 = bp\<lparr>bp_buf := butlast bufs @ [b'], bp_bufLen := bp_bufLen bp + n\<rparr>"
  have "contents bp = concat (map fbString (butlast bufs)) @ fbString ?b"
    using bufs(3) arg_cong [OF append_butlast_last_id [OF bufs(1)], of "\<lambda>x. concat (map fbString x)"] by simp
  then have c1: "contents bp1 = contents bp @ take n p" using w(5) by (simp add: contents_def bp1_def)
  have "\<forall>b\<in>set (bp_buf bp1). wf_fb b" using bufs(2) w(3) in_set_butlastD by (fastforce simp: bp1_def)
  moreover have "n \<le> fb_cap ?b - length (fb_data ?b)" using w(2) by simp
  then have "bp_bufLen bp1 + room (bp_buf bp1) < blockThreshold + maxCap"
    using bufs(1,4) w(4,6) by (simp add: bp1_def room_def)
  ultimately have inv1: "bp_inv bp1" using inv c1 w(2) by (auto simp: bp_inv_def bp1_def)
  have cap: "64 \<le> fb_cap b'" "fb_cap b' \<le> maxCap" using w(3) by (auto simp: wf_fb_def)
  have n: "n \<le> length p" "p \<noteq> [] \<Longrightarrow> room (bp_buf bp) > 0 \<Longrightarrow> n > 0" using w(2) bufs(1,5) by (auto simp: room_def)
  have "writeLoop p written bp = (if n = length p then Some (WDone (written + n) None, bp1)
      else if bp_bufLen bp1 \<ge> blockThreshold then Some (WBlock (drop n p) (written + n) (fb_cap b'), bp1)
      else writeLoop (drop n p) (written + n) (bp1\<lparr>bp_buf := bp_buf bp1 @ [getBuffer (nextCap (fb_cap b'))]\<rparr>))"
    using open' w(1) n(1) by (subst writeLoop.simps, unfold bufs_def [symmetric] Let_def) (auto simp: bp1_def)
  from that [OF this n inv1 c1 _ cap] open' show thesis by (simp add: bp1_def)
qed

lemma writeLoop_spec:
  assumes "bp_inv bp"
  shows "\<exists>k r bp'. writeLoop p written bp = Some (r, bp') \<and> wrote p written bp k r bp' \<and>
    (bp_closeErr bp = None \<longrightarrow> p \<noteq> [] \<longrightarrow> room (bp_buf bp) > 0 \<longrightarrow> k > 0)"
  using assms
proof (induction "2 * length p + (if room (bp_buf bp) = 0 then 1 else 0)" arbitrary: p written bp rule: less_induct)
  case less
  show ?case
  proof (cases "bp_closeErr bp")
    case (Some e)
    then have "wrote p written bp 0 (WDone written (Some ErrClosed)) bp" using less.prems by (simp add: wrote_def)
    then show ?thesis using Some by (subst writeLoop.simps) auto
  next
    case open': None
    obtain n c bp1 where eq: "writeLoop p written bp = (if n = length p then Some (WDone (written + n) None, bp1)
        else if bp_bufLen bp1 \<ge> blockThreshold then Some (WBlock (drop n p) (written + n) c, bp1)
        else writeLoop (drop n p) (written + n) (bp1\<lparr>bp_buf := bp_buf bp1 @ [getBuffer (nextCap c)]\<rparr>))"
      and n: "n \<le> length p" "p \<noteq> [] \<Longrightarrow> room (bp_buf bp) > 0 \<Longrightarrow> n > 0" and inv1: "bp_inv bp1"
      and c1: "contents bp1 = contents bp @ take n p" "bp_closeErr bp1 = None" and cap: "64 \<le> c" "c \<le> maxCap"
      by (rule writeLoop_round [OF less.prems open', of p written], rule that) (assumption | blast)+
    consider "n = length p" | "n < length p" "bp_bufLen bp1 \<ge> blockThreshold" | "n < length p" "bp_bufLen bp1 < blockThreshold"
      using n(1) by linarith
    then show ?thesis
    proof cases
      case 1
      then have "wrote p written bp n (WDone (written + n) None) bp1" using inv1 c1 open' by (simp add: wrote_def)
      then show ?thesis using eq 1 n(2) by auto
    next
      case 2
      then have "wrote p written bp n (WBlock (drop n p) (written + n) c) bp1"
        using inv1 c1 open' cap by (simp add: wrote_def)
      then show ?thesis using eq 2 n(2) by auto
    next
      case 3
      let ?bp2 = "bp1\<lparr>bp_buf := bp_buf bp1 @ [getBuffer (nextCap c)]\<rparr>"
      note inv2 = inv_append [OF inv1 3(2) cap(1)]
      have "room (bp_buf ?bp2) > 0" using nextCap_bounds [OF cap(1)] by (simp add: room_def)
      moreover have "n > 0 \<or> room (bp_buf bp) = 0" using n(2) 3(1) by (cases p) auto
      ultimately have "2 * length (drop n p) + (if room (bp_buf ?bp2) = 0 then 1 else 0) < 2 * length p + (if room (bp_buf bp) = 0 then 1 else 0)"
        using 3(1) by auto
      from less.hyps [OF this inv2(1), of "written + n"] obtain k r bp' where
        r: "writeLoop (drop n p) (written + n) ?bp2 = Some (r, bp')" "wrote (drop n p) (written + n) ?bp2 k r bp'" by blast
      from wrote_trans [OF _ n(1) _ open' this(2)] inv2(2) c1 open' have "wrote p written bp (n + k) r bp'" by simp
      then show ?thesis using eq 3 r(1) n(2) by auto
    qed
  qed
qed

lemma readLoop_spec:
  assumes "\<forall>b\<in>set bufs. wf_fb b"
  shows "\<exists>bufs'. readLoop k bufs (length (concat (map fbString bufs))) =
      Some (take k (concat (map fbString bufs)), bufs', length (concat (map fbString bufs)) - k) \<and>
    concat (map fbString bufs') = drop k (concat (map fbString bufs)) \<and>
    (\<forall>b\<in>set bufs'. wf_fb b) \<and> room bufs' \<le> room bufs"
  using assms
proof (induction bufs arbitrary: k)
  case Nil
  then show ?case by (subst readLoop.simps) simp
next
  case (Cons b bs)
  let ?n = "length (concat (map fbString (b # bs)))"
  have wf: "wf_fb b" using Cons.prems by simp
  define d where "d = take k (fbString b)"
  define b' where "b' = b\<lparr>fb_lastRead := fb_lastRead b + length d\<rparr>"
  have rd: "fbRead k b = (d, b')" by (simp add: fbRead_def d_def b'_def fbString_def)
  have b': "wf_fb b'" "fbString b' = drop k (fbString b)" "fbLen b' = length (fbString b) - k"
    using wf by (auto simp: b'_def wf_fb_def fbString_def fbLen_def d_def min_def add.commute)
  have r: "room bs \<le> room (b # bs)" "room (b' # bs) = room (b # bs)" by (auto simp: room_def b'_def)
  consider "?n = 0" | "?n > 0" "k \<le> length (fbString b)" | "?n > 0" "length (fbString b) < k" by linarith
  then show ?case
  proof cases
    case 1
    then have e: "concat (map fbString (b # bs)) = []" by (simp only: length_0_conv)
    have "readLoop k (b # bs) 0 = Some ([], b # bs, 0)" by (subst readLoop.simps) simp
    then show ?thesis unfolding e using Cons.prems
      by (intro exI [of _ "b # bs"]) (simp only: e list.size take_Nil drop_Nil, simp)
  next
    case 2
    then have "length d = k" by (simp add: d_def)
    then have "readLoop k (b # bs) ?n = Some (d, if fbLen b' = 0 then bs else b' # bs, ?n - k)"
      using 2(1) rd by (subst readLoop.simps) (simp add: Let_def)
    moreover have "concat (map fbString (if fbLen b' = 0 then bs else b' # bs)) = drop k (concat (map fbString (b # bs)))"
      using 2(2) b'(2,3) by simp
    moreover have "\<forall>c\<in>set (if fbLen b' = 0 then bs else b' # bs). wf_fb c" using b'(1) Cons.prems by simp
    ultimately show ?thesis using 2(2) r by (auto simp: d_def)
  next
    case 3
    then have d: "d = fbString b" "fbLen b' = 0" using b'(3) by (simp_all add: d_def)
    have "readLoop k (b # bs) ?n = map_option (\<lambda>(ds, r). (d @ ds, r)) (readLoop (k - length d) bs (?n - length d))"
      using 3 rd d by (subst readLoop.simps) (simp add: Let_def)
    moreover obtain bufs' where "readLoop (k - length d) bs (length (concat (map fbString bs))) =
        Some (take (k - length d) (concat (map fbString bs)), bufs', length (concat (map fbString bs)) - (k - length d))"
      "concat (map fbString bufs') = drop (k - length d) (concat (map fbString bs))" "\<forall>b\<in>set bufs'. wf_fb b" "room bufs' \<le> room bs"
      using Cons.IH [of "k - length d"] Cons.prems by auto
    ultimately show ?thesis using 3(2) d(1) r(1) by (auto intro!: exI [of _ bufs'])
  qed
qed

lemma readBody_spec:
  assumes "bp_inv bp"
  shows "\<exists>bp'. readBody k bp = Some (RDone (take k (contents bp)) None, bp') \<and> bp_inv bp' \<and>
    contents bp' = drop k (contents bp) \<and> bp_closeErr bp' = bp_closeErr bp"
proof -
  obtain bufs' where "readLoop k (bp_buf bp) (bp_bufLen bp) = Some (take k (contents bp), bufs', bp_bufLen bp - k)"
    "concat (map fbString bufs') = drop k (contents bp)" "\<forall>b\<in>set bufs'. wf_fb b" "room bufs' \<le> room (bp_buf bp)"
    using readLoop_spec [of "bp_buf bp" k] assms by (auto simp: bp_inv_def contents_def)
  then show ?thesis using assms by (auto simp: readBody_def bp_inv_def contents_def)
qed


section \<open>Systems of readers and writers\<close>

text \<open>
  Any number of goroutines use the pipe. The waiting writers are a list, from which any one can be
  woken at any time; a woken reader runs the rest of \<open>Read\<close>. The two logs have the bytes that calls of
  \<open>Write\<close> have put into the pipe and that calls of \<open>Read\<close> have returned.
\<close>

datatype pipeOp = OWrite bytes | OWake nat | ORead nat | OReadWake nat | OClose "io_err option"

record pipeSys =
  sy_pipe :: bytesPipe
  sy_waiting :: "(bytes \<times> nat \<times> nat) list"
  sy_accepted :: bytes
  sy_delivered :: bytes

definition newSys :: pipeSys where
  "newSys = \<lparr>sy_pipe = NewBytesPipe, sy_waiting = [], sy_accepted = [], sy_delivered = []\<rparr>"

definition afterWrite :: "bytes \<Rightarrow> nat \<Rightarrow> (bytes \<times> nat \<times> nat) list \<Rightarrow> pipeSys \<Rightarrow> writeResult \<times> bytesPipe \<Rightarrow> pipeSys" where
  "afterWrite p written waiting s res = (case res of
      (WDone w err, bp) \<Rightarrow>
        s\<lparr>sy_pipe := bp, sy_waiting := waiting, sy_accepted := sy_accepted s @ take (w - written) p\<rparr>
    | (WBlock rest w c, bp) \<Rightarrow>
        s\<lparr>sy_pipe := bp, sy_waiting := waiting @ [(rest, w, c)], sy_accepted := sy_accepted s @ take (w - written) p\<rparr>)"

definition afterRead :: "pipeSys \<Rightarrow> pipeResult \<times> bytesPipe \<Rightarrow> pipeSys" where
  "afterRead s res = (case res of
      (RDone d err, bp) \<Rightarrow> s\<lparr>sy_pipe := bp, sy_delivered := sy_delivered s @ d\<rparr>
    | (RBlock, bp) \<Rightarrow> s\<lparr>sy_pipe := bp\<rparr>)"

fun pipeStep :: "pipeOp \<Rightarrow> pipeSys \<Rightarrow> pipeSys option" where
  "pipeStep (OWrite p) s = map_option (afterWrite p 0 (sy_waiting s) s) (bpWrite p (sy_pipe s))"
| "pipeStep (OWake i) s =
     (if i < length (sy_waiting s) then
        (case sy_waiting s ! i of (p, written, c) \<Rightarrow>
           map_option (afterWrite p written (take i (sy_waiting s) @ drop (Suc i) (sy_waiting s)) s)
             (writeWake p written c (sy_pipe s)))
      else Some s)"
| "pipeStep (ORead k) s = map_option (afterRead s) (bpRead k (sy_pipe s))"
| "pipeStep (OReadWake k) s = map_option (afterRead s) (readWake k (sy_pipe s))"
| "pipeStep (OClose err) s = Some (s\<lparr>sy_pipe := CloseWithError err (sy_pipe s)\<rparr>)"

fun pipeRun :: "pipeOp list \<Rightarrow> pipeSys \<Rightarrow> pipeSys option" where
  "pipeRun [] s = Some s"
| "pipeRun (op # ops) s = (case pipeStep op s of None \<Rightarrow> None | Some s \<Rightarrow> pipeRun ops s)"

definition sy_inv :: "pipeSys \<Rightarrow> bool" where
  "sy_inv s \<longleftrightarrow> bp_inv (sy_pipe s) \<and> (\<forall>(p, w, c)\<in>set (sy_waiting s). 64 \<le> c \<and> p \<noteq> []) \<and>
     sy_accepted s = sy_delivered s @ contents (sy_pipe s)"

lemma writeWake_spec:
  assumes "bp_inv bp" and "64 \<le> c"
  shows "\<exists>k r bp'. writeWake p written c bp = Some (r, bp') \<and>
    ((r, bp', k) = (WBlock p written c, bp, 0) \<and> blockThreshold \<le> bp_bufLen bp \<or> wrote p written bp k r bp') \<and>
    (bp_closeErr bp = None \<longrightarrow> p \<noteq> [] \<longrightarrow> bp_bufLen bp < blockThreshold \<longrightarrow> k > 0)"
proof -
  consider "bp_closeErr bp \<noteq> None" | "bp_closeErr bp = None" "blockThreshold \<le> bp_bufLen bp"
    | "bp_closeErr bp = None" "bp_bufLen bp < blockThreshold" by linarith
  then show ?thesis
  proof cases
    case 1
    then show ?thesis using writeLoop_spec [OF assms(1), of p written] by (auto simp: writeWake_def)
  next
    case 2
    then show ?thesis by (auto simp: writeWake_def)
  next
    case 3
    note new = inv_append [OF assms(1) 3(2) assms(2)]
    have "room (bp_buf bp @ [getBuffer (nextCap c)]) > 0" using nextCap_bounds [OF assms(2)] by (simp add: room_def)
    with writeLoop_spec [OF new(1), of p written] 3(1) obtain k r bp' where
      "writeLoop p written (bp\<lparr>bp_buf := bp_buf bp @ [getBuffer (nextCap c)]\<rparr>) = Some (r, bp')"
      "wrote p written (bp\<lparr>bp_buf := bp_buf bp @ [getBuffer (nextCap c)]\<rparr>) k r bp'" "p \<noteq> [] \<longrightarrow> k > 0" by auto
    moreover from this(2) new(2) have "wrote p written bp k r bp'" by (cases r) (auto simp: wrote_def)
    ultimately show ?thesis using 3 by (auto simp: writeWake_def)
  qed
qed

lemma afterWrite_inv:
  assumes "sy_inv s" and "wrote p written (sy_pipe s) k r bp'" and "\<forall>(p, w, c)\<in>set ws. 64 \<le> c \<and> p \<noteq> []"
  shows "sy_inv (afterWrite p written ws s (r, bp'))"
  using assms by (cases r) (auto simp: sy_inv_def afterWrite_def wrote_def split: if_splits)

lemma sy_invD: "sy_inv s \<Longrightarrow> bp_inv (sy_pipe s)" "sy_inv s \<Longrightarrow> \<forall>(p, w, c)\<in>set (sy_waiting s). 64 \<le> c \<and> p \<noteq> []"
  by (simp_all add: sy_inv_def)

lemma afterRead_inv:
  assumes "sy_inv s"
  shows "\<exists>s'. map_option (afterRead s) (readBody k (sy_pipe s)) = Some s' \<and> sy_inv s'"
  using readBody_spec [OF sy_invD(1) [OF assms], of k] assms
  by (auto simp: sy_inv_def afterRead_def)

lemma pipeStep_inv:
  assumes inv: "sy_inv s"
  shows "\<exists>s'. pipeStep op s = Some s' \<and> sy_inv s'"
proof (cases op)
  case (OWrite p)
  obtain k r bp' where "bpWrite p (sy_pipe s) = Some (r, bp')" "wrote p 0 (sy_pipe s) k r bp'"
    using writeLoop_spec [OF sy_invD(1) [OF inv], of p 0] by (auto simp: bpWrite_def)
  with afterWrite_inv [OF inv this(2) sy_invD(2) [OF inv]] OWrite show ?thesis by simp
next
  case (OWake i)
  show ?thesis
  proof (cases "i < length (sy_waiting s)")
    case True
    obtain p written c where w: "sy_waiting s ! i = (p, written, c)" by (metis prod_cases3)
    let ?ws = "take i (sy_waiting s) @ drop (Suc i) (sy_waiting s)"
    have ws: "\<forall>(p, w, c)\<in>set ?ws. 64 \<le> c \<and> p \<noteq> []" using sy_invD(2) [OF inv] by (auto dest: in_set_takeD in_set_dropD)
    have c: "64 \<le> c" "p \<noteq> []" using sy_invD(2) [OF inv] w True nth_mem by fastforce+
    obtain k r bp' where r: "writeWake p written c (sy_pipe s) = Some (r, bp')"
      "(r, bp', k) = (WBlock p written c, sy_pipe s, 0) \<or> wrote p written (sy_pipe s) k r bp'"
      using writeWake_spec [OF sy_invD(1) [OF inv] c(1), of p written] by blast
    from r(2) have "sy_inv (afterWrite p written ?ws s (r, bp'))"
    proof
      assume "(r, bp', k) = (WBlock p written c, sy_pipe s, 0)"
      then show ?thesis using inv ws c by (auto simp: sy_inv_def afterWrite_def)
    qed (rule afterWrite_inv [OF inv _ ws])
    then show ?thesis using OWake True w r(1) by simp
  qed (use OWake inv in simp)
next
  case (ORead k)
  then show ?thesis using afterRead_inv [OF inv, of k] inv by (auto simp: bpRead_def afterRead_def sy_inv_def split: option.split)
next
  case (OReadWake k)
  then show ?thesis using afterRead_inv [OF inv, of k] inv by (auto simp: readWake_def afterRead_def sy_inv_def)
next
  case (OClose err)
  then show ?thesis using inv by (simp add: sy_inv_def CloseWithError_def bp_inv_def contents_def)
qed

lemma pipeRun_inv: "sy_inv s \<Longrightarrow> \<exists>s'. pipeRun ops s = Some s' \<and> sy_inv s'"
proof (induction ops arbitrary: s)
  case (Cons op ops)
  then show ?case using pipeStep_inv [OF Cons.prems, of op] by auto
qed simp

lemma newSys_inv: "sy_inv newSys"
  using NewBytesPipe_inv by (simp add: sy_inv_def newSys_def)


section \<open>The properties\<close>

text \<open>
  C25. The pipe is a bounded queue: whatever readers, writers and closers do, no call panics or runs
  forever, the bytes accepted from writers are the bytes delivered to readers followed by the bytes
  still buffered, in order and without loss, and fewer than two million bytes are buffered.
\<close>

theorem bytespipe_is_bounded_fifo:
  "\<exists>s. pipeRun ops newSys = Some s \<and> sy_accepted s = sy_delivered s @ contents (sy_pipe s) \<and>
     bp_bufLen (sy_pipe s) = length (contents (sy_pipe s)) \<and> bp_bufLen (sy_pipe s) < 2000000"
  using pipeRun_inv [OF newSys_inv, of ops] by (auto simp: sy_inv_def bp_inv_def blockThreshold_def maxCap_def)

text \<open>
  C27. On a closed pipe a write changes nothing and returns \<open>ErrClosed\<close>, and reads drain the buffered
  bytes in order before they return the error of the close.
\<close>

theorem bytespipe_closed:
  assumes "pipeRun ops newSys = Some s" and "bp_closeErr (sy_pipe s) = Some e"
  shows "bpWrite p (sy_pipe s) = Some (WDone 0 (Some ErrClosed), sy_pipe s) \<and>
    (\<exists>bp'. bpRead k (sy_pipe s) =
          Some (if contents (sy_pipe s) = [] then RDone [] (Some e) else RDone (take k (contents (sy_pipe s))) None, bp') \<and>
        contents bp' = drop k (contents (sy_pipe s)) \<and> bp_closeErr bp' = Some e)"
proof
  show "bpWrite p (sy_pipe s) = Some (WDone 0 (Some ErrClosed), sy_pipe s)"
    unfolding bpWrite_def using assms(2) by (subst writeLoop.simps) simp
  have inv: "bp_inv (sy_pipe s)" using pipeRun_inv [OF newSys_inv, of ops] assms(1) by (auto simp: sy_inv_def)
  then have "bp_bufLen (sy_pipe s) = length (contents (sy_pipe s))" by (simp add: bp_inv_def)
  then show "\<exists>bp'. bpRead k (sy_pipe s) =
          Some (if contents (sy_pipe s) = [] then RDone [] (Some e) else RDone (take k (contents (sy_pipe s))) None, bp') \<and>
        contents bp' = drop k (contents (sy_pipe s)) \<and> bp_closeErr bp' = Some e"
    using assms(2) readBody_spec [OF inv, of k] by (auto simp: bpRead_def)
qed

lemma demo_pipe: "pipeRun [OWrite [1, 2], OClose None] newSys =
    Some \<lparr>sy_pipe = \<lparr>bp_buf = [\<lparr>fb_cap = 64, fb_data = [1, 2], fb_lastRead = 0\<rparr>], bp_bufLen = 2, bp_closeErr = Some EOF\<rparr>,
      sy_waiting = [], sy_accepted = [1, 2], sy_delivered = []\<rparr>"
  by (simp add: newSys_def NewBytesPipe_def bpWrite_def writeLoop.simps [of "[1, 2]"] fbWrite_def getBuffer_def minCap_def
      afterWrite_def CloseWithError_def)

theorem bytespipe_closed_witness:
  "bpWrite [7] \<lparr>bp_buf = [\<lparr>fb_cap = 64, fb_data = [1, 2], fb_lastRead = 0\<rparr>], bp_bufLen = 2, bp_closeErr = Some EOF\<rparr> =
   Some (WDone 0 (Some ErrClosed), \<lparr>bp_buf = [\<lparr>fb_cap = 64, fb_data = [1, 2], fb_lastRead = 0\<rparr>], bp_bufLen = 2, bp_closeErr = Some EOF\<rparr>)"
  using bytespipe_closed [OF demo_pipe, of EOF "[7]"] by simp

text \<open>
  C26. No writer starves while readers read: in every reachable state with an open pipe, after one read
  of a million bytes any waiting writer that is woken gets at least one more byte into the pipe.
\<close>

theorem bytespipe_writer_progress:
  assumes run: "pipeRun ops newSys = Some s" and "bp_closeErr (sy_pipe s) = None" and i: "i < length (sy_waiting s)"
  shows "\<exists>s1 s2. pipeStep (ORead 1000000) s = Some s1 \<and> pipeStep (OWake i) s1 = Some s2 \<and>
    length (sy_accepted s) < length (sy_accepted s2)"
proof -
  have inv: "sy_inv s" using pipeRun_inv [OF newSys_inv, of ops] run by auto
  obtain s1 where s1: "pipeStep (ORead 1000000) s = Some s1" "sy_inv s1" using pipeStep_inv [OF inv] by blast
  note bp = sy_invD(1) [OF inv]
  have len: "bp_bufLen (sy_pipe s) = length (contents (sy_pipe s))" "bp_bufLen (sy_pipe s) < 2000000"
    using bp by (auto simp: bp_inv_def blockThreshold_def maxCap_def)
  have less: "bp_bufLen (sy_pipe s1) < blockThreshold" and same: "bp_closeErr (sy_pipe s1) = None"
    "sy_waiting s1 = sy_waiting s" "sy_accepted s1 = sy_accepted s"
    using readBody_spec [OF bp, of 1000000] s1(1) len assms(2)
    by (auto simp: bpRead_def afterRead_def blockThreshold_def bp_inv_def split: if_splits)
  obtain p written c where w: "sy_waiting s ! i = (p, written, c)" by (metis prod_cases3)
  have c: "64 \<le> c" "p \<noteq> []" using sy_invD(2) [OF inv] w i nth_mem by fastforce+
  obtain k r bp' where r: "writeWake p written c (sy_pipe s1) = Some (r, bp')" "wrote p written (sy_pipe s1) k r bp'" "k > 0"
    using writeWake_spec [OF sy_invD(1) [OF s1(2)] c(1), of p written] less same(1) c(2) by auto
  then have "length (sy_accepted s1) < length (sy_accepted (afterWrite p written ws s1 (r, bp')))" for ws
    using c(2) by (cases r) (auto simp: afterWrite_def wrote_def)
  then show ?thesis using s1(1) same i w r(1) by auto
qed


text \<open>Two million bytes do not fit, so writing them waits.\<close>

lemma big_write_waits:
  assumes "length p = 2000000"
  shows "\<exists>s. pipeRun [OWrite p] newSys = Some s \<and> bp_closeErr (sy_pipe s) = None \<and> 0 < length (sy_waiting s)"
proof -
  obtain k r bp' where w: "writeLoop p 0 NewBytesPipe = Some (r, bp')" "wrote p 0 NewBytesPipe k r bp'"
    using writeLoop_spec [OF NewBytesPipe_inv(1), of p 0] by blast
  have "length (contents bp') < 2000000" using w(2) by (auto simp: wrote_def bp_inv_def blockThreshold_def maxCap_def)
  then have "k < length p" using w(2) assms by (auto simp: wrote_def NewBytesPipe_inv(2))
  then show ?thesis using w
    by (cases r) (auto simp: wrote_def newSys_def bpWrite_def afterWrite_def NewBytesPipe_def)
qed

theorem bytespipe_writer_progress_witness:
  "\<exists>s s1 s2. pipeRun [OWrite (replicate 2000000 0)] newSys = Some s \<and> pipeStep (ORead 1000000) s = Some s1 \<and>
     pipeStep (OWake 0) s1 = Some s2 \<and> length (sy_accepted s) < length (sy_accepted s2)"
  using big_write_waits [OF length_replicate, of 0] bytespipe_writer_progress [of "[OWrite (replicate 2000000 0)]" _ 0] by blast

end
