(* ===== verification/Spec2Isabelle.thy ===== *)
theory Spec2Isabelle
  imports LayerFiles LayerThreads ImageTree Seccomp DigestSet RefStore RestartManager ContainerState Locker Registrar StdCopy BytesPipe
begin

text \<open>
  A verification development for the Docker engine (the sources are under \<^verbatim>\<open>src/docker\<close>).

  \<^bold>\<open>The program.\<close> The engine keeps images and containers in four stores that sit on top of each other. The
  layer store holds read-only file-system layers under the digest of their chain, with reference
  counts, and writable layers for containers; its metadata is in small files that are written in a transaction. The
  image store holds image configurations under their digest, keeps the top layer of each image
  referenced, and records which image is the parent of which. The reference store maps names such as
  \<open>docker.io/b:v1\<close> to image identifiers. The registrar maps container names to containers. Around the stores are
  parts that a running container depends on: the default seccomp profile, the state of a container and the
  goroutines that wait for it to stop, the restart manager, named locks, the multiplexed output streams and
  the pipe they pass through. These parts are modelled. The daemon that ties them together is I/O, see the end.

  \<^bold>\<open>How code is represented.\<close> \<open>Prelude\<close> defines the outcome of a Go call (a value, an error or a panic) and state-passing
  calls of type \<open>go\<close>; \<open>seq\<close>, \<open>defer_err\<close>, \<open>ignore_err\<close>, \<open>tryGo\<close>, \<open>zoom\<close> and \<open>forEach\<close> are the idioms of the sources. A
  call that returns an error keeps the changes it made before. The rules for \<open>triple\<close> (no panic), \<open>ens\<close> and \<open>ends\<close>
  carry the proofs; the contracts \<open>go_service\<close> and \<open>go_keeps\<close> lift one call to any sequence of calls.
  \<open>GoStd\<close> has what is used of \<^verbatim>\<open>strings\<close>, \<^verbatim>\<open>sort\<close>, \<^verbatim>\<open>strconv\<close>; \<open>GoIO\<close> readers, writers and big-endian numbers at
  their width; \<open>GoFS\<close> a tree of files in which every call may fail, a failing write or removal having done a
  part of its work; \<open>Regex\<close> regular expressions with a matcher by derivatives, proved against their language.
  Locks are not modelled where a method holds one lock from start to end: such a method is one step.
  Where the interleaving matters (\<open>LayerThreads\<close>, \<open>Locker\<close>, \<open>BytesPipe\<close>, \<open>ContainerState\<close>, \<open>Create\<close> of an image, the restart
  manager's goroutine), the atomic sections are the steps of a relation or a list of events.

  \<^bold>\<open>Layer store.\<close> \<open>LayerStore\<close> translates \<^verbatim>\<open>layer/layer.go\<close>, \<^verbatim>\<open>layer/layer_store.go\<close>, \<^verbatim>\<open>layer/ro_layer.go\<close> and
  \<^verbatim>\<open>layer/mounted_layer.go\<close> (\<open>Register\<close>, \<open>Get\<close>, \<open>Release\<close>, \<open>CreateRWLayer\<close>, \<open>ReleaseRWLayer\<close>,
  \<open>NewStoreFromGraphDriver\<close> and their helpers). The graph driver, the metadata store, the digest function and
  the tar splitter are the record \<open>lenv\<close>. \<open>LayerStoreInv\<close> proves the reference-count invariant for every path of
  every operation, \<open>LayerStoreLoad\<close> for the restart, and \<open>LayerStoreProps\<close> states the results: exact counts
  and no panic (C1), what a release removes (C2), what a restart restores (C3), what a registration returns (C4),
  content addresses (C5), the bound on the depth (C6). There a call is one step. \<open>LayerThreads\<close> cuts \<open>registerWithDescriptor\<close>,
  \<open>CreateRWLayer\<close> and \<open>ReleaseRWLayer\<close> where they take and give back \<open>layerL\<close>, shows that the sections run one after the
  other are the call, and that the counts stay exact when the sections of any number of calls
  interleave (C10). \<open>LayerHold\<close> is what a holder of a reference can rely on
  (\<open>layer_provider\<close>). \<open>FileStore\<close> translates \<^verbatim>\<open>layer/filestore.go\<close> on \<open>GoFS\<close>, with the tar-split
  file that is opened, written and closed around \<open>applyTar\<close>: nothing is visible before the commit (C29);
  \<open>LayerFiles\<close> plugs it into the layer store: a registered layer can be read back from disk (C28).

  \<^bold>\<open>Image store.\<close> \<open>AtomicFile\<close> is \<^verbatim>\<open>pkg/ioutils/fswriters.go\<close>; \<open>ImageFS\<close> is \<^verbatim>\<open>image/fs.go\<close>, shown to implement a map of
  configurations and metadata (C30); \<open>DigestPath\<close> holds the facts on digests as file names that both
  file stores use. \<open>ImageStore\<close> translates \<^verbatim>\<open>image/store.go\<close>, \<^verbatim>\<open>image/image.go\<close> and \<^verbatim>\<open>image/rootfs.go\<close> against
  the two interfaces the code names, \<open>StoreBackend\<close> and \<open>LayerGetReleaser\<close>; the contract \<open>image_client\<close> extends
  \<open>layer_provider\<close> and is interpreted on the layer store and the image files (\<open>daemonEnv\<close>). The layer of an image
  stays held in every interleaving (C31). \<open>ImageTree\<close> shows that the children in memory mirror the parents on
  disk (C32), that a created image reads back (C33), and what a failed \<open>Create\<close> or \<open>SetParent\<close> leaves behind (C34, C35).

  \<^bold>\<open>References.\<close> \<open>RefNames\<close> has the grammar of the vendored \<^verbatim>\<open>distribution/reference\<close>, expression by expression, and
  \<^verbatim>\<open>reference/reference.go\<close> and \<^verbatim>\<open>reference/utils.go\<close>: parsing and printing are inverse, except that
  normalising is not idempotent (C36). \<open>RefStore\<close> is \<^verbatim>\<open>reference/store.go\<close>: its two indexes agree (C37), it implements a
  map from references to identifiers (C38, through the contract \<open>refined_service\<close>), a restart restores it (C39),
  and a name that normalising does not settle is lost (C40).

  \<^bold>\<open>The other parts.\<close> \<open>Seccomp\<close> is \<^verbatim>\<open>profiles/seccomp/seccomp_default.go\<close> and \<^verbatim>\<open>seccomp.go\<close>, entry by entry, with the
  evaluation of a filter as the reference: \<open>clone\<close> by the bits of its flags (C7), what a capability adds (C8),
  and that more capabilities allow more (C9). \<open>Digest\<close> and \<open>DigestSet\<close> are the vendored \<^verbatim>\<open>distribution/digest\<close>:
  the sorted array is a set (C11) and a prefix resolves to the digest it identifies (C12). \<open>RestartManager\<close> is
  \<^verbatim>\<open>restartmanager/restartmanager.go\<close>, with what the goroutine sends to the waiting caller: the bound of an \<open>on-failure\<close> policy
  (C13), cancellation (C14), the back-off at 64 bits (C15). \<open>ContainerState\<close> is
  \<^verbatim>\<open>container/state.go\<close>: what a waiting goroutine returns (C16). \<open>Locker\<close> is \<^verbatim>\<open>pkg/locker/locker.go\<close>
  (C17, C18). \<open>Registrar\<close> is \<^verbatim>\<open>pkg/registrar/registrar.go\<close> and \<^verbatim>\<open>daemon/graphdriver/counter.go\<close> (C19, C20).
  \<open>StdCopy\<close> is \<^verbatim>\<open>pkg/stdcopy/stdcopy.go\<close> (C21 to C24), \<open>BytesPipe\<close> is \<^verbatim>\<open>pkg/ioutils/bytespipe.go\<close> and \<^verbatim>\<open>buffer.go\<close> (C25 to C27).

  \<^bold>\<open>Bounds and fuel.\<close> \<open>loadLayer\<close> recurses along the parents recorded on disk and takes fuel: running out of it
  stands for the stack overflow that a cycle of parents causes. C3 assumes a rank that decreases along the
  parents and fuel above every rank, which the number of layers always is without a cycle. The write loop of the
  pipe is a partial function into \<open>option\<close>; C25 shows that it returns. All other loops are total functions. The
  10000 attempts of \<open>freshName\<close> are those of \<^verbatim>\<open>io/ioutil\<close>, the depth 125, the sizes of the pipe's buffers, the
  back-off of 100 milliseconds and the 255 characters of a name are the constants of the sources.

  \<^bold>\<open>Parameters.\<close> Digest functions, JSON, tar splitting, graph drivers, the architecture and the order in which Go
  ranges over a map are arguments. What is assumed of them is stated in each theorem and is met by the
  concrete functions of its witness.

  \<^bold>\<open>Not modelled.\<close> The API server, the client and the flags (text and HTTP around the calls); starting and
  stopping containers, the container objects, \<^verbatim>\<open>libcontainerd\<close>, networking, volumes, plugins, log drivers and swarm mode (adapters to
  processes, kernel calls and vendored systems that hold the state themselves); the storage drivers (mounts and
  device-mapper calls behind the \<open>Driver\<close> interface, a parameter here); archives, the builder, \<^verbatim>\<open>distribution\<close> and
  \<^verbatim>\<open>registry\<close> (streams and network protocols); the migration of old layouts; the tests. Of the modelled files, \<open>MarshalJSON\<close> of
  images, the driver status calls and \<open>TarStream\<close> of a layer, the short-code table of digests and the \<open>Field\<close> type of references are left out.
\<close>

end
